(* ===== verification/Prelude.thy ===== *)
theory Prelude
  imports Main "HOL-Library.Word" "HOL-Library.Signed_Division"
begin

text \<open>
  What every component shares: the machine integers of the Go source and the arithmetic it
  does on them, the ways a goroutine can stop abnormally, bounded channels with their
  interface, and reachability for the step relations of the concurrent parts.

  Go's \<open>int32\<close> and \<open>int64\<close> are words read through \<^const>\<open>sint\<close>; \<open>+\<close>, \<open>-\<close> and \<open>*\<close> wrap as Go's
  do. \<open>int\<close> is 64 bits wide (the platforms the repository builds for).
\<close>

section \<open>Machine integers\<close>

type_synonym i32 = "32 word"
type_synonym i64 = "64 word"
type_synonym u32 = "32 word"

named_theorems sint_arith \<open>readings of int32 and int64 operations that do not overflow\<close>

lemma sint32_bounds: "- 2147483648 \<le> sint (a :: i32) \<and> sint a \<le> 2147483647"
  using sint_ge [of a] sint_lt [of a] by simp

lemma sint64_bounds: "- 9223372036854775808 \<le> sint (a :: i64) \<and> sint a \<le> 9223372036854775807"
  using sint_ge [of a] sint_lt [of a] by simp

lemma sint32_of_int [sint_arith]:
  "- 2147483648 \<le> x \<Longrightarrow> x \<le> 2147483647 \<Longrightarrow> sint (word_of_int x :: i32) = x"
  by (simp add: sint_sbintrunc' signed_take_bit_int_eq_self)

lemma sint64_of_int [sint_arith]:
  "- 9223372036854775808 \<le> x \<Longrightarrow> x \<le> 9223372036854775807 \<Longrightarrow> sint (word_of_int x :: i64) = x"
  by (simp add: sint_sbintrunc' signed_take_bit_int_eq_self)

lemma sint32_add [sint_arith]:
  fixes a b :: i32
  assumes "- 2147483648 \<le> sint a + sint b" and "sint a + sint b \<le> 2147483647"
  shows "sint (a + b) = sint a + sint b"
  using assms sint32_of_int [of "sint a + sint b"] by simp

lemma sint64_add [sint_arith]:
  fixes a b :: i64
  assumes "- 9223372036854775808 \<le> sint a + sint b" and "sint a + sint b \<le> 9223372036854775807"
  shows "sint (a + b) = sint a + sint b"
  using assms sint64_of_int [of "sint a + sint b"] by simp

lemma sint64_sub [sint_arith]:
  fixes a b :: i64
  assumes "- 9223372036854775808 \<le> sint a - sint b" and "sint a - sint b \<le> 9223372036854775807"
  shows "sint (a - b) = sint a - sint b"
  using assms sint64_of_int [of "sint a - sint b"] by simp

lemma sint64_mult [sint_arith]:
  fixes a b :: i64
  assumes "- 9223372036854775808 \<le> sint a * sint b" and "sint a * sint b \<le> 9223372036854775807"
  shows "sint (a * b) = sint a * sint b"
  using assms sint64_of_int [of "sint a * sint b"] by simp

lemma sint64_scast32: "sint (scast (a :: i32) :: i64) = sint a"
  by (rule sint_up_scast) (simp add: is_up)

lemma sint_eq_iff: "sint (a :: 'a::len word) = sint b \<longleftrightarrow> a = b"
proof
  assume "sint a = sint b"
  then have "word_of_int (sint a) = (word_of_int (sint b) :: 'a word)" by simp
  then show "a = b" by simp
qed simp

lemmas signed_less = word_sless_alt word_sle_eq

lemma signed_0_1 [simp]:
  "\<not> (1 :: i32) \<le>s 0" "(0 :: i32) \<le>s 1" "\<not> (1 :: i32) <s 0" "(0 :: i32) <s 1"
  "\<not> (1 :: i64) \<le>s 0" "(0 :: i64) \<le>s 1" "\<not> (1 :: i64) <s 0" "(0 :: i64) <s 1"
  by (simp_all add: signed_less)

text \<open>Go's \<open>%\<close> on \<open>int64\<close>: the remainder has the sign of the dividend.\<close>

definition go_rem64 :: "i64 \<Rightarrow> i64 \<Rightarrow> i64" where
  "go_rem64 a b = word_of_int (sint a smod sint b)"

lemma sint_go_rem64:
  assumes "0 \<le> sint a" and "0 < sint b"
  shows "sint (go_rem64 a b) = sint a mod sint b"
proof -
  have "sint a smod sint b = sint a mod sint b"
    using assms by (simp add: smod_mod_positive)
  moreover have "0 \<le> sint a mod sint b" and "sint a mod sint b < sint b"
    using assms by simp_all
  ultimately show ?thesis
    using sint64_bounds [of b] by (simp add: go_rem64_def sint_arith)
qed

section \<open>Abnormal ends\<close>

text \<open>
  The run-time panics and explicit \<open>panic\<close>/\<open>log.Fatal\<close> calls the modelled code can reach.
\<close>

datatype panic =
    NilDereference
  | IndexOutOfRange
  | MakeSliceLen
  | Panic string
  | Fatal string

section \<open>Bounded channels\<close>

text \<open>
  A buffered Go channel is its queue and its capacity. A send on a full buffer does not
  happen (the sender waits, or takes the \<open>default\<close> case of its \<open>select\<close>): \<^const>\<open>None\<close>. A
  receive on an empty buffer waits: \<^const>\<open>None\<close>.
\<close>

definition chan_send :: "nat \<Rightarrow> 'a list \<Rightarrow> 'a \<Rightarrow> 'a list option" where
  "chan_send cap q x = (if length q < cap then Some (q @ [x]) else None)"

definition chan_recv :: "'a list \<Rightarrow> ('a \<times> 'a list) option" where
  "chan_recv q = (case q of [] \<Rightarrow> None | x # q' \<Rightarrow> Some (x, q'))"

locale bounded_chan =
  fixes send :: "nat \<Rightarrow> 'q \<Rightarrow> 'a \<Rightarrow> 'q option"
    and recv :: "'q \<Rightarrow> ('a \<times> 'q) option"
    and contents :: "'q \<Rightarrow> 'a list"
  assumes send_Some: "send cap q x = Some q' \<Longrightarrow> contents q' = contents q @ [x]"
    and send_room: "(send cap q x \<noteq> None) = (length (contents q) < cap)"
    and recv_Some: "recv q = Some (x, q') \<Longrightarrow> contents q = x # contents q'"
    and recv_None: "recv q = None \<Longrightarrow> contents q = []"
begin

lemma send_within_capacity:
  assumes "send cap q x = Some q'"
  shows "length (contents q') \<le> cap"
  using assms send_Some [OF assms] send_room [of cap q x] by simp

lemma full_refuses:
  assumes "cap \<le> length (contents q)"
  shows "send cap q x = None"
  using assms send_room [of cap q x] by (cases "send cap q x") auto

lemma recv_makes_room:
  assumes "recv q = Some (x, q')" and "length (contents q) \<le> cap"
  shows "send cap q' y \<noteq> None"
  using assms send_room [of cap q' y] recv_Some [OF assms(1)] by simp

lemma fifo:
  assumes "recv q = Some (x, q')" and "send cap q y = Some r"
  shows "\<exists>r'. recv r = Some (x, r') \<and> contents r' = contents q' @ [y]"
proof -
  have r: "contents r = x # contents q' @ [y]"
    using recv_Some [OF assms(1)] send_Some [OF assms(2)] by simp
  show ?thesis
  proof (cases "recv r")
    case None
    with r recv_None show ?thesis by fastforce
  next
    case (Some p)
    obtain z r' where p: "p = (z, r')" by (cases p)
    with Some r have "z = x \<and> contents r' = contents q' @ [y]"
      using recv_Some [of r z r'] by simp
    with Some p show ?thesis by blast
  qed
qed

end

interpretation go_chan: bounded_chan chan_send chan_recv "\<lambda>q. q"
  by unfold_locales (auto simp: chan_send_def chan_recv_def split: if_splits list.splits)

section \<open>Reachability\<close>

text \<open>
  The states a step relation reaches from its initial states, and the invariant rule for
  them. The concurrent parts instantiate it: goroutines of one bucket, the synchroniser with
  its object pool, the cluster.
\<close>

inductive reach :: "('s \<Rightarrow> bool) \<Rightarrow> ('s \<Rightarrow> 's \<Rightarrow> bool) \<Rightarrow> 's \<Rightarrow> bool"
  for init step where
  reach_init: "init s \<Longrightarrow> reach init step s"
| reach_step: "reach init step s \<Longrightarrow> step s t \<Longrightarrow> reach init step t"

locale invariant_system =
  fixes init :: "'s \<Rightarrow> bool"
    and step :: "'s \<Rightarrow> 's \<Rightarrow> bool"
    and I :: "'s \<Rightarrow> bool"
  assumes init_inv: "init s \<Longrightarrow> I s"
    and step_inv: "step s t \<Longrightarrow> I s \<Longrightarrow> I t"
begin

lemma reach_inv: "reach init step s \<Longrightarrow> I s"
  by (induction rule: reach.induct) (auto intro: init_inv step_inv)

end

section \<open>Generic lemmas\<close>

lemma fold_invariant_on:
  assumes "P s" and "\<And>x s. x \<in> set xs \<Longrightarrow> P s \<Longrightarrow> P (f x s)"
  shows "P (fold f xs s)"
  using assms by (induction xs arbitrary: s) auto

lemma set_remove1_subset': "set (remove1 x xs) \<subseteq> set xs"
  by (induction xs) auto

end
