(* ===== verification/Clock.thy ===== *)
theory Clock
  imports Prelude
begin

text \<open>
  The clock interface of store/clock/clock.go and its two implementations. A clock is read
  through \<open>Now().UnixNano()\<close> everywhere, so a reading is an \<open>int64\<close> of nanoseconds. The entries,
  the buckets and the store all hold a pointer to the one clock of the store's options; the
  models of their methods therefore take the state of that clock and return it, and have no
  clock field of their own.
\<close>

text \<open>
  \<open>UnRealClock\<close>: the clock the tests drive. \<open>time.Unix(0, n).UnixNano()\<close> is \<open>n\<close> for every \<open>n\<close>.
\<close>

record UnRealClock =
  current :: i64

definition UnRealClock_Now :: "UnRealClock \<Rightarrow> i64" where
  "UnRealClock_Now ur = current ur"

definition AddSeconds :: "i64 \<Rightarrow> UnRealClock \<Rightarrow> i64 \<times> UnRealClock" where
  "AddSeconds seconds ur =
     (let ur = ur\<lparr>current := current ur + seconds * 1000000000\<rparr> in (current ur, ur))"

definition Add :: "i64 \<Rightarrow> UnRealClock \<Rightarrow> i64 \<times> UnRealClock" where
  "Add nanoSeconds ur =
     (let ur = ur\<lparr>current := current ur + nanoSeconds\<rparr> in (current ur, ur))"

definition ResetTime :: "i64 \<Rightarrow> UnRealClock \<Rightarrow> UnRealClock" where
  "ResetTime nanoSeconds ur = ur\<lparr>current := nanoSeconds\<rparr>"

definition ResetTimeSeconds :: "i64 \<Rightarrow> UnRealClock \<Rightarrow> UnRealClock" where
  "ResetTimeSeconds seconds ur = ur\<lparr>current := seconds * 1000000000\<rparr>"

text \<open>
  \<open>RealClock\<close> reads the operating system's clock: the readings it will give, and how many have
  been taken. Nothing is assumed of them; in particular they need not grow (the wall clock can
  be set back), unless a lemma says so.
\<close>

datatype clock =
    RealClock "nat \<Rightarrow> i64" nat
  | UnReal UnRealClock

text \<open>
  \<open>Clock.Now\<close>: the reading and the clock after it. \<open>reading\<close> and \<open>tick\<close> are its two halves.
\<close>

fun Now :: "clock \<Rightarrow> i64 \<times> clock" where
  "Now (RealClock os n) = (os n, RealClock os (Suc n))"
| "Now (UnReal ur) = (UnRealClock_Now ur, UnReal ur)"

definition reading :: "clock \<Rightarrow> i64" where
  "reading c = fst (Now c)"

definition tick :: "clock \<Rightarrow> clock" where
  "tick c = snd (Now c)"

lemma Now_eq: "Now c = (reading c, tick c)"
  by (simp add: reading_def tick_def)

lemma reading_UnReal [simp]: "reading (UnReal ur) = current ur"
  by (simp add: reading_def UnRealClock_Now_def)

lemma tick_UnReal [simp]: "tick (UnReal ur) = UnReal ur"
  by (simp add: tick_def)

lemma reading_RealClock [simp]: "reading (RealClock os n) = os n"
  by (simp add: reading_def)

lemma tick_RealClock [simp]: "tick (RealClock os n) = RealClock os (Suc n)"
  by (simp add: tick_def)

text \<open>
  Clocks that stand still while the code runs (the \<open>UnRealClock\<close> between two of its own
  method calls), as a predicate that the lemmas about whole runs use.
\<close>

definition frozen_at :: "i64 \<Rightarrow> clock \<Rightarrow> bool" where
  "frozen_at t c \<longleftrightarrow> (\<exists>ur. c = UnReal ur \<and> current ur = t)"

lemma frozen_reading [simp]: "frozen_at t c \<Longrightarrow> reading c = t"
  by (auto simp: frozen_at_def)

lemma frozen_tick [simp]: "frozen_at t c \<Longrightarrow> tick c = c"
  by (auto simp: frozen_at_def)

lemma frozen_UnReal [simp]: "frozen_at t (UnReal \<lparr>current = t\<rparr>)"
  by (simp add: frozen_at_def)

end
