(* ===== verification/KeyEntry.thy ===== *)
theory KeyEntry
  imports Clock
begin

text \<open>
  store/bucket/keyentry.go: one counter with its expiry. The three fields are read and written
  with atomic loads and stores; every method below that writes more than one of them is called
  with the entry's lock held (by \<open>KeyBucket.Incr\<close> and \<open>KeyBucket.Sync\<close>), so each method is a
  function of the entry. The \<open>clock\<close> field is the clock passed in (theory \<open>Clock\<close>).
\<close>

record KeyEntry =
  expires :: i64
  lastmodified :: i64
  ecount :: i32

definition Count :: "KeyEntry \<Rightarrow> i32" where
  "Count e = ecount e"

definition LastModified :: "KeyEntry \<Rightarrow> i64" where
  "LastModified e = lastmodified e"

definition Expiry :: "KeyEntry \<Rightarrow> i64" where
  "Expiry e = expires e"

definition NewEntry :: "i32 \<Rightarrow> i64 \<Rightarrow> clock \<Rightarrow> KeyEntry \<times> clock" where
  "NewEntry cnt expy c =
     (let (now, c) = Now c
      in (\<lparr>expires = expy, lastmodified = now, ecount = cnt\<rparr>, c))"

definition ReInit :: "i32 \<Rightarrow> i64 \<Rightarrow> KeyEntry \<Rightarrow> clock \<Rightarrow> KeyEntry \<times> clock" where
  "ReInit cnt expy e c =
     (let (now, c) = Now c;
          e = e\<lparr>lastmodified := now\<rparr>;
          e = e\<lparr>expires := expy\<rparr>;
          e = e\<lparr>ecount := cnt\<rparr>
      in (e, c))"

definition Expired :: "KeyEntry \<Rightarrow> clock \<Rightarrow> bool \<times> clock" where
  "Expired e c =
     (let x = Expiry e;
          (now, c) = Now c
      in (x <s now, c))"

definition KeyEntry_Incr :: "i32 \<Rightarrow> KeyEntry \<Rightarrow> clock \<Rightarrow> i32 \<times> KeyEntry \<times> clock" where
  "KeyEntry_Incr cnt e c =
     (let (now, c) = Now c;
          e = e\<lparr>lastmodified := now\<rparr>;
          e = e\<lparr>ecount := ecount e + cnt\<rparr>
      in (ecount e, e, c))"

definition KeyEntry_Sync :: "i32 \<Rightarrow> KeyEntry \<Rightarrow> i32 \<times> KeyEntry" where
  "KeyEntry_Sync cnt e =
     (let e = e\<lparr>ecount := ecount e + cnt\<rparr> in (ecount e, e))"

text \<open>What the methods do, with the clock readings made explicit.\<close>

lemma NewEntry_eq:
  "NewEntry cnt x c = (\<lparr>expires = x, lastmodified = reading c, ecount = cnt\<rparr>, tick c)"
  by (simp add: NewEntry_def Now_eq)

lemma ReInit_eq:
  "ReInit cnt x e c = (e\<lparr>expires := x, lastmodified := reading c, ecount := cnt\<rparr>, tick c)"
  by (simp add: ReInit_def Now_eq)

lemma Expired_eq: "Expired e c = (expires e <s reading c, tick c)"
  by (simp add: Expired_def Expiry_def Now_eq)

lemma KeyEntry_Incr_eq:
  "KeyEntry_Incr cnt e c =
     (ecount e + cnt, e\<lparr>lastmodified := reading c, ecount := ecount e + cnt\<rparr>, tick c)"
  by (simp add: KeyEntry_Incr_def Now_eq)

lemma KeyEntry_Sync_eq: "KeyEntry_Sync cnt e = (ecount e + cnt, e\<lparr>ecount := ecount e + cnt\<rparr>)"
  by (simp add: KeyEntry_Sync_def)

lemmas entry_eqs = NewEntry_eq ReInit_eq Expired_eq KeyEntry_Incr_eq KeyEntry_Sync_eq
  Count_def Expiry_def LastModified_def

end
