(* ===== verification/Limiter.thy ===== *)
theory Limiter
  imports KeyBucket
begin

text \<open>
  What a key bucket promises: a fixed-window counter per key. The abstract state maps a key to
  the end of its window and the total counted in it; the abstract operations take the two clock
  readings that matter (on arrival, and when the window end is tested) and know nothing of
  entries, clocks or locks. The interface \<open>window_counter\<close> is this contract; its client lemmas
  are proved once here and hold for a bucket (interpreted below) and for the whole store
  (interpreted in theory \<open>Store\<close>, where keys are spread over buckets).
\<close>

section \<open>The abstract counter\<close>

type_synonym windows = "key \<Rightarrow> (i64 \<times> i32) option"

text \<open>The window a call counts in: the one found if it has not ended, else a new one.\<close>

definition open_window :: "i64 \<Rightarrow> (i64 \<times> i32) option \<Rightarrow> i64 \<Rightarrow> i64 \<times> i32" where
  "open_window now w fresh =
     (case w of
        None \<Rightarrow> (fresh, 0)
      | Some (x, p) \<Rightarrow> if x <s now then (fresh, 0) else (x, p))"

definition spec_Incr ::
  "i64 \<Rightarrow> i64 \<Rightarrow> key \<Rightarrow> i32 \<Rightarrow> i32 \<Rightarrow> i32 \<Rightarrow> windows \<Rightarrow> (bool \<times> i64 \<times> bool) \<times> windows" where
  "spec_Incr t now key cnt limit window m =
     (let (x, p) = open_window now (m key) (GenExpiry t window);
          n = (if p \<le>s limit then p + cnt else p)
      in ((limit <s n, x, limit <s n \<and> p <s n), m(key \<mapsto> (x, n))))"

definition spec_Sync :: "i64 \<Rightarrow> i64 \<Rightarrow> key \<Rightarrow> i32 \<Rightarrow> i64 \<Rightarrow> windows \<Rightarrow> windows" where
  "spec_Sync t now key cnt expiry m =
     (if expiry <s t then m
      else let (x, p) = open_window now (m key) expiry in m(key \<mapsto> (x, p + cnt)))"

definition abs_bucket :: "KeyBucket \<Rightarrow> windows" where
  "abs_bucket b = (\<lambda>k. map_option (\<lambda>e. (expires e, ecount e)) (lookup b k))"

section \<open>The bucket implements it\<close>

lemma KeyBucket_Incr_refines:
  "(fst (KeyBucket_Incr key cnt limit window b c),
    abs_bucket (fst (snd (KeyBucket_Incr key cnt limit window b c)))) =
   spec_Incr (reading c) (reading (tick c)) key cnt limit window (abs_bucket b)"
proof (cases "lookup b key")
  case None
  then show ?thesis
    by (auto simp: KeyBucket_Incr_def spec_Incr_def open_window_def abs_bucket_def GetEntry_def
        entry_eqs Now_eq Let_def signed_less fun_eq_iff split: if_splits)
next
  case (Some e)
  then show ?thesis
    by (auto simp: KeyBucket_Incr_def spec_Incr_def open_window_def abs_bucket_def GetEntry_def
        entry_eqs Now_eq Let_def signed_less fun_eq_iff split: if_splits)
qed

lemma KeyBucket_Sync_refines:
  "abs_bucket (fst (KeyBucket_Sync key cnt expiry b c)) =
   spec_Sync (reading c) (reading (tick c)) key cnt expiry (abs_bucket b)"
  by (cases "lookup b key")
    (auto simp: KeyBucket_Sync_def spec_Sync_def open_window_def abs_bucket_def GetEntry_def
        entry_eqs Now_eq Let_def signed_less fun_eq_iff split: if_splits)

section \<open>Facts about the abstract counter\<close>

lemma open_window_expired: "x <s now \<Longrightarrow> open_window now (Some (x, p)) fresh = (fresh, 0)"
  by (simp add: open_window_def)

lemma open_window_live: "\<not> x <s now \<Longrightarrow> open_window now (Some (x, p)) fresh = (x, p)"
  by (simp add: open_window_def)

lemma open_window_None [simp]: "open_window now None fresh = (fresh, 0)"
  by (simp add: open_window_def)

text \<open>
  An increment is applied exactly when the caller is told to replicate it: either the call is
  allowed, or it is the one that breached the limit. No overflow assumption is needed.
\<close>

lemma spec_Incr_applied_iff_reported:
  assumes "spec_Incr t now key cnt limit window m = ((blocked, x, dosync), m')"
    and "open_window now (m key) (GenExpiry t window) = (x0, p)"
  shows "x0 = x"
    and "m' key = Some (x, if \<not> blocked \<or> dosync then p + cnt else p)"
    and "(\<not> blocked \<or> dosync) = (p \<le>s limit)"
  using assms by (auto simp: spec_Incr_def Let_def signed_less split: if_splits)

lemma spec_Incr_frame:
  "key' \<noteq> key \<Longrightarrow> snd (spec_Incr t now key cnt limit window m) key' = m key'"
  by (simp add: spec_Incr_def Let_def split: prod.splits)

lemma spec_Sync_frame: "key' \<noteq> key \<Longrightarrow> spec_Sync t now key cnt expiry m key' = m key'"
  by (simp add: spec_Sync_def Let_def split: prod.splits)

section \<open>Runs\<close>

text \<open>
  A run is a sequence of calls, each at its own clock state (time passes between calls, and
  nothing is assumed of how); \<open>run_calls\<close> gives the answers of the \<open>Incr\<close> calls.
\<close>

datatype bucket_call =
    CIncr key i32 i32 i32
  | CSync key i32 i64

fun call_key :: "bucket_call \<Rightarrow> key" where
  "call_key (CIncr k _ _ _) = k"
| "call_key (CSync k _ _) = k"

fun call_count :: "bucket_call \<Rightarrow> i32" where
  "call_count (CIncr _ n _ _) = n"
| "call_count (CSync _ n _) = n"

text \<open>The call falls in the window that ends at \<open>x\<close>.\<close>

fun within :: "i64 \<Rightarrow> clock \<times> bucket_call \<Rightarrow> bool" where
  "within x (c, CIncr k n l w) \<longleftrightarrow> GenExpiry (reading c) w = x \<and> \<not> x <s reading (tick c)"
| "within x (c, CSync k n y) \<longleftrightarrow> y = x \<and> \<not> x <s reading c \<and> \<not> x <s reading (tick c)"

fun has_limit :: "i32 \<Rightarrow> bucket_call \<Rightarrow> bool" where
  "has_limit l (CIncr _ _ l' _) \<longleftrightarrow> l' = l"
| "has_limit l (CSync _ _ _) \<longleftrightarrow> True"

definition total_of :: "key \<Rightarrow> (clock \<times> bucket_call) list \<Rightarrow> int" where
  "total_of k cs = (\<Sum>(c, a)\<leftarrow>cs. if call_key a = k then sint (call_count a) else 0)"

lemma total_of_Nil [simp]: "total_of k [] = 0"
  by (simp add: total_of_def)

lemma total_of_Cons [simp]:
  "total_of k ((c, a) # cs) = (if call_key a = k then sint (call_count a) else 0) + total_of k cs"
  by (simp add: total_of_def)

lemma total_of_nonneg:
  "(\<And>c a. (c, a) \<in> set cs \<Longrightarrow> call_key a = k \<Longrightarrow> 0 \<le> sint (call_count a)) \<Longrightarrow> 0 \<le> total_of k cs"
  by (auto simp: total_of_def intro!: sum_list_nonneg)

text \<open>All calls on \<open>k\<close> fall in one window, carry the limit \<open>l\<close> and do not count backwards.\<close>

definition calls_in_window :: "i64 \<Rightarrow> i32 \<Rightarrow> key \<Rightarrow> (clock \<times> bucket_call) list \<Rightarrow> bool" where
  "calls_in_window x l k cs \<longleftrightarrow>
     list_all (\<lambda>(c, a). call_key a = k \<longrightarrow>
       within x (c, a) \<and> has_limit l a \<and> 0 \<le> sint (call_count a)) cs"

lemma calls_in_windowD:
  "calls_in_window x l k cs \<Longrightarrow> (c, a) \<in> set cs \<Longrightarrow> call_key a = k \<Longrightarrow>
     within x (c, a) \<and> has_limit l a \<and> 0 \<le> sint (call_count a)"
  by (auto simp: calls_in_window_def list_all_iff)

text \<open>The total a key has in the window that ends at \<open>x\<close>.\<close>

definition total_in :: "i64 \<Rightarrow> (i64 \<times> i32) option \<Rightarrow> i32" where
  "total_in x w = (case w of Some (y, p) \<Rightarrow> if y = x then p else 0 | None \<Rightarrow> 0)"

definition window_is :: "i64 \<Rightarrow> (i64 \<times> i32) option \<Rightarrow> bool" where
  "window_is x w \<longleftrightarrow> (case w of Some (y, p) \<Rightarrow> y = x | None \<Rightarrow> True)"

lemma open_window_within:
  assumes "window_is x w" and "\<not> x <s now"
  shows "open_window now w x = (x, total_in x w)"
  using assms by (auto simp: window_is_def total_in_def open_window_def split: option.splits)

lemma window_is_Some [simp]: "window_is x (Some (y, p)) \<longleftrightarrow> y = x"
  by (simp add: window_is_def)

lemma total_in_Some [simp]: "total_in x (Some (x, p)) = p"
  by (simp add: total_in_def)

lemma total_in_None [simp]: "total_in x None = 0"
  by (simp add: total_in_def)

text \<open>
  The calls of a run, one after the other, over any operations with the bucket's signatures:
  the answer to each \<open>Incr\<close> with the key and count it was about, and the final state.
\<close>

type_synonym answer = "key \<times> i32 \<times> bool \<times> i64 \<times> bool"

definition do_call ::
  "(key \<Rightarrow> i32 \<Rightarrow> i32 \<Rightarrow> i32 \<Rightarrow> 's \<Rightarrow> clock \<Rightarrow> (bool \<times> i64 \<times> bool) \<times> 's \<times> clock) \<Rightarrow>
   (key \<Rightarrow> i32 \<Rightarrow> i64 \<Rightarrow> 's \<Rightarrow> clock \<Rightarrow> 's \<times> clock) \<Rightarrow>
   clock \<times> bucket_call \<Rightarrow> 's \<Rightarrow> answer list \<times> 's" where
  "do_call incr sync ca s =
     (case ca of
        (c, CIncr k n l w) \<Rightarrow>
          (let out = incr k n l w s c in ([(k, n, fst out)], fst (snd out)))
      | (c, CSync k n y) \<Rightarrow> ([], fst (sync k n y s c)))"

fun run_calls ::
  "(key \<Rightarrow> i32 \<Rightarrow> i32 \<Rightarrow> i32 \<Rightarrow> 's \<Rightarrow> clock \<Rightarrow> (bool \<times> i64 \<times> bool) \<times> 's \<times> clock) \<Rightarrow>
   (key \<Rightarrow> i32 \<Rightarrow> i64 \<Rightarrow> 's \<Rightarrow> clock \<Rightarrow> 's \<times> clock) \<Rightarrow>
   (clock \<times> bucket_call) list \<Rightarrow> 's \<Rightarrow> answer list \<times> 's" where
  "run_calls incr sync [] s = ([], s)"
| "run_calls incr sync (ca # cs) s =
     (let out = do_call incr sync ca s;
          rest = run_calls incr sync cs (snd out)
      in (fst out @ fst rest, snd rest))"

text \<open>What the answers admitted on a key, and what they report as counted (as words).\<close>

fun admitted :: "key \<Rightarrow> answer list \<Rightarrow> int" where
  "admitted k [] = 0"
| "admitted k ((k', n, blocked, _, _) # rs) =
     (if k' = k \<and> \<not> blocked then sint n else 0) + admitted k rs"

fun reported :: "key \<Rightarrow> answer list \<Rightarrow> i32" where
  "reported k [] = 0"
| "reported k ((k', n, blocked, _, dosync) # rs) =
     (if k' = k \<and> (\<not> blocked \<or> dosync) then n else 0) + reported k rs"

fun synced :: "key \<Rightarrow> (clock \<times> bucket_call) list \<Rightarrow> i32" where
  "synced k [] = 0"
| "synced k ((_, CIncr _ _ _ _) # cs) = synced k cs"
| "synced k ((_, CSync k' n _) # cs) = (if k' = k then n else 0) + synced k cs"

lemma synced_step: "synced k ((c, a) # cs) = synced k [(c, a)] + synced k cs"
  by (cases a) simp_all

lemma admitted_append [simp]: "admitted k (rs @ rs') = admitted k rs + admitted k rs'"
  by (induction rs rule: admitted.induct) auto

lemma reported_append [simp]: "reported k (rs @ rs') = reported k rs + reported k rs'"
  by (induction rs rule: reported.induct) auto

lemma admitted_single [simp]:
  "admitted k [(k', n, r)] = (if k' = k \<and> \<not> fst r then sint n else 0)"
  by (cases r) auto

lemma reported_single [simp]:
  "reported k [(k', n, r)] = (if k' = k \<and> (\<not> fst r \<or> snd (snd r)) then n else 0)"
  by (cases r) auto

text \<open>What is left of a limit in the window that ends at \<open>x\<close>.\<close>

definition headroom :: "i64 \<Rightarrow> i32 \<Rightarrow> (i64 \<times> i32) option \<Rightarrow> int" where
  "headroom x l w = max 0 (sint l - sint (total_in x w))"

section \<open>The interface and what follows from it\<close>

locale window_counter =
  fixes incr :: "key \<Rightarrow> i32 \<Rightarrow> i32 \<Rightarrow> i32 \<Rightarrow> 's \<Rightarrow> clock \<Rightarrow> (bool \<times> i64 \<times> bool) \<times> 's \<times> clock"
    and sync :: "key \<Rightarrow> i32 \<Rightarrow> i64 \<Rightarrow> 's \<Rightarrow> clock \<Rightarrow> 's \<times> clock"
    and view :: "'s \<Rightarrow> windows"
    and wf :: "'s \<Rightarrow> bool"
  assumes incr_spec: "wf s \<Longrightarrow>
      (fst (incr k n l w s c), view (fst (snd (incr k n l w s c)))) =
      spec_Incr (reading c) (reading (tick c)) k n l w (view s)"
    and sync_spec: "wf s \<Longrightarrow>
      view (fst (sync k n y s c)) = spec_Sync (reading c) (reading (tick c)) k n y (view s)"
    and incr_wf: "wf s \<Longrightarrow> wf (fst (snd (incr k n l w s c)))"
    and sync_wf: "wf s \<Longrightarrow> wf (fst (sync k n y s c))"
begin

lemma incr_result:
  assumes "wf s"
  shows "fst (incr k n l w s c) = fst (spec_Incr (reading c) (reading (tick c)) k n l w (view s))"
    and "view (fst (snd (incr k n l w s c))) =
         snd (spec_Incr (reading c) (reading (tick c)) k n l w (view s))"
  using incr_spec [OF assms, of k n l w c] by (metis fst_conv snd_conv)+

lemma incr_frame: "wf s \<Longrightarrow> k' \<noteq> k \<Longrightarrow> view (fst (snd (incr k n l w s c))) k' = view s k'"
  by (simp add: incr_result spec_Incr_frame)

lemma sync_frame:
  assumes "wf s" and "k' \<noteq> k"
  shows "view (fst (sync k n y s c)) k' = view s k'"
  using assms by (simp add: sync_spec spec_Sync_frame)

text \<open>One call inside the window that ends at \<open>x\<close>.\<close>

lemma incr_within:
  assumes "wf s" and "window_is x (view s k)" and "within x (c, CIncr k n l w)"
  defines "p \<equiv> total_in x (view s k)"
  defines "q \<equiv> (if p \<le>s l then p + n else p)"
  shows "fst (incr k n l w s c) = (l <s q, x, l <s q \<and> p <s q)"
    and "view (fst (snd (incr k n l w s c))) k = Some (x, q)"
  using assms open_window_within [of x "view s k" "reading (tick c)"]
  by (auto simp: incr_result spec_Incr_def Let_def)

lemma sync_within:
  assumes "wf s" and "window_is x (view s k)" and "within x (c, CSync k n y)"
  shows "view (fst (sync k n y s c)) k = Some (x, total_in x (view s k) + n)"
  using assms open_window_within [of x "view s k" "reading (tick c)"]
  by (auto simp: sync_spec spec_Sync_def Let_def)

lemma do_call_wf: "wf s \<Longrightarrow> wf (snd (do_call incr sync ca s))"
  by (auto simp: do_call_def Let_def incr_wf sync_wf split: prod.splits bucket_call.splits)

lemma do_call_frame:
  assumes "wf s" and "call_key a \<noteq> k"
  shows "view (snd (do_call incr sync (c, a) s)) k = view s k"
    and "admitted k (fst (do_call incr sync (c, a) s)) = 0"
    and "reported k (fst (do_call incr sync (c, a) s)) = 0"
    and "synced k [(c, a)] = 0"
  using assms incr_frame sync_frame by (cases a; simp add: do_call_def Let_def)+

text \<open>
  One call inside the window: the total stays in the window and grows by what the call reports
  as counted; what it admits comes out of the headroom.
\<close>

lemma do_call_within:
  assumes "wf s" and "window_is x (view s (call_key a))" and "within x (c, a)"
  shows "view (snd (do_call incr sync (c, a) s)) (call_key a) =
         Some (x, total_in x (view s (call_key a)) +
                  reported (call_key a) (fst (do_call incr sync (c, a) s)) +
                  synced (call_key a) [(c, a)])"
proof (cases a)
  case (CIncr k n l w)
  with assms show ?thesis
    using incr_within [of s x k c n l w]
    by (auto simp: do_call_def Let_def signed_less split: if_splits)
next
  case (CSync k n y)
  with assms show ?thesis
    using sync_within [of s x k c n y] by (simp add: do_call_def)
qed

lemma do_call_headroom:
  assumes "wf s" and "window_is x (view s (call_key a))" and "within x (c, a)"
    and "has_limit l a" and "0 \<le> sint (call_count a)"
    and "sint (total_in x (view s (call_key a))) + sint (call_count a) \<le> 2147483647"
  defines "s' \<equiv> snd (do_call incr sync (c, a) s)"
  shows "admitted (call_key a) (fst (do_call incr sync (c, a) s)) + headroom x l (view s' (call_key a))
           \<le> headroom x l (view s (call_key a))"
    and "sint (total_in x (view s' (call_key a))) \<le>
           sint (total_in x (view s (call_key a))) + sint (call_count a)"
proof -
  let ?p = "total_in x (view s (call_key a))"
  have add: "sint (?p + call_count a) = sint ?p + sint (call_count a)"
    using assms(5,6) sint32_bounds [of ?p] by (simp add: sint32_add)
  have "admitted (call_key a) (fst (do_call incr sync (c, a) s)) + headroom x l (view s' (call_key a))
           \<le> headroom x l (view s (call_key a)) \<and>
        sint (total_in x (view s' (call_key a))) \<le>
           sint (total_in x (view s (call_key a))) + sint (call_count a)"
  proof (cases a)
    case (CIncr k n l' w)
    with assms add show ?thesis
      using incr_within [of s x k c n l w]
      by (auto simp: do_call_def Let_def signed_less headroom_def)
  next
    case (CSync k n y)
    with assms add show ?thesis
      using sync_within [of s x k c n y] by (simp add: do_call_def headroom_def)
  qed
  then show "admitted (call_key a) (fst (do_call incr sync (c, a) s)) +
        headroom x l (view s' (call_key a)) \<le> headroom x l (view s (call_key a))"
    and "sint (total_in x (view s' (call_key a))) \<le>
           sint (total_in x (view s (call_key a))) + sint (call_count a)"
    by simp_all
qed

lemma run_wf: "wf s \<Longrightarrow> wf (snd (run_calls incr sync cs s))"
  by (induction cs arbitrary: s) (simp_all add: Let_def do_call_wf)

text \<open>
  Admission bound: whatever the order of the calls and whatever other keys they are about, the
  calls of one window admit at most what is left of the limit.
\<close>

lemma admission_bound:
  assumes "wf s" and "window_is x (view s k)"
    and "\<And>c a. (c, a) \<in> set cs \<Longrightarrow> call_key a = k \<Longrightarrow>
           within x (c, a) \<and> has_limit l a \<and> 0 \<le> sint (call_count a)"
    and "sint (total_in x (view s k)) + total_of k cs \<le> 2147483647"
  shows "admitted k (fst (run_calls incr sync cs s)) \<le> headroom x l (view s k)"
  using assms
proof (induction cs arbitrary: s rule: list.induct)
  case Nil
  then show ?case by (simp add: headroom_def)
next
  case (Cons ca cs)
  obtain c a where ca: "ca = (c, a)" by (cases ca)
  let ?s' = "snd (do_call incr sync (c, a) s)"
  have each: "\<And>c a. (c, a) \<in> set cs \<Longrightarrow> call_key a = k \<Longrightarrow>
      within x (c, a) \<and> has_limit l a \<and> 0 \<le> sint (call_count a)"
    using Cons.prems(3) by auto
  then have rest: "0 \<le> total_of k cs"
    by (intro total_of_nonneg) auto
  note IH = Cons.IH [OF do_call_wf [OF Cons.prems(1)] _ each]
  show ?case
  proof (cases "call_key a = k")
    case False
    then show ?thesis
      using IH [of "(c, a)"] Cons.prems(2,4) ca do_call_frame [OF Cons.prems(1) False]
      by (simp add: Let_def)
  next
    case True
    then have w: "within x (c, a)" "has_limit l a" "0 \<le> sint (call_count a)"
      using Cons.prems(3) [of c a] ca by auto
    show ?thesis
      using IH [of "(c, a)"] Cons.prems(2,4) ca True rest w
        do_call_within [OF Cons.prems(1), of x a c]
        do_call_headroom [OF Cons.prems(1), of x a c l]
      by (simp add: Let_def)
  qed
qed

text \<open>
  Conservation: in one window the total of a key is exactly what was there, plus what the calls
  reported as counted, plus what was synchronised in. The equation is between words, so it
  holds whether or not the 32-bit counter wraps.
\<close>

lemma conservation:
  assumes "wf s" and "window_is x (view s k)"
    and "\<And>c a. (c, a) \<in> set cs \<Longrightarrow> call_key a = k \<Longrightarrow> within x (c, a)"
  shows "window_is x (view (snd (run_calls incr sync cs s)) k) \<and>
         total_in x (view (snd (run_calls incr sync cs s)) k) =
         total_in x (view s k) + reported k (fst (run_calls incr sync cs s)) + synced k cs"
  using assms
proof (induction cs arbitrary: s rule: list.induct)
  case Nil
  then show ?case by simp
next
  case (Cons ca cs)
  obtain c a where ca: "ca = (c, a)" by (cases ca)
  have each: "\<And>c a. (c, a) \<in> set cs \<Longrightarrow> call_key a = k \<Longrightarrow> within x (c, a)"
    using Cons.prems(3) by auto
  note IH = Cons.IH [OF do_call_wf [OF Cons.prems(1)] _ each, of "(c, a)"]
  show ?case
  proof (cases "call_key a = k")
    case False
    then show ?thesis
      using IH Cons.prems(2) ca do_call_frame [OF Cons.prems(1) False]
      by (simp add: Let_def synced_step [of k c a cs])
  next
    case True
    then have w: "within x (c, a)" using Cons.prems(3) ca by simp
    show ?thesis
      using IH do_call_within [OF Cons.prems(1) _ w] Cons.prems(2) ca True
      by (simp add: Let_def synced_step [of k c a cs] ac_simps)
  qed
qed

text \<open>
  A burst of unit calls inside one window: with \<open>j\<close> already counted, the calls are admitted until
  the limit is reached, the next one is refused and reported, and all later ones are refused
  without being counted.
\<close>

lemma burst:
  assumes "wf s" and "window_is x (view s k)" and "within x (c, CIncr k 1 l w)"
    and "sint (total_in x (view s k)) = j" and "0 \<le> sint l" and "sint l < 2147483647"
    and "0 \<le> j" and "j \<le> sint l + 1"
  shows "fst (run_calls incr sync (replicate n (c, CIncr k 1 l w)) s) =
         map (\<lambda>i. (k, 1, sint l \<le> j + int i, x, j + int i = sint l)) [0..<n]"
  using assms
proof (induction n arbitrary: s j)
  case 0
  then show ?case by simp
next
  case (Suc n)
  let ?ca = "(c, CIncr k 1 l w)" and ?p = "total_in x (view s k)"
  let ?s' = "snd (do_call incr sync ?ca s)" and ?j' = "if j \<le> sint l then j + 1 else j"
  note step = incr_within [OF Suc.prems(1-3)]
  have one: "sint (?p + 1) = j + 1" if "j \<le> sint l"
    using that Suc.prems(4,6,7) by (simp add: sint32_add)
  have view': "view ?s' k = Some (x, if ?p \<le>s l then ?p + 1 else ?p)"
    using step(2) by (simp add: do_call_def Let_def)
  have IH: "fst (run_calls incr sync (replicate n ?ca) ?s') =
      map (\<lambda>i. (k, 1, sint l \<le> ?j' + int i, x, ?j' + int i = sint l)) [0..<n]"
    using Suc.prems one view' by (intro Suc.IH) (auto simp: do_call_wf signed_less)
  have first: "fst (do_call incr sync ?ca s) = [(k, 1, sint l \<le> j, x, j = sint l)]"
    using step(1) one Suc.prems(4,8) by (auto simp: do_call_def Let_def signed_less)
  have "map (\<lambda>i. (k, 1 :: i32, sint l \<le> ?j' + int i, x, ?j' + int i = sint l)) [0..<n] =
        map (\<lambda>i. (k, 1, sint l \<le> j + int i, x, j + int i = sint l)) (map Suc [0..<n])"
    using Suc.prems(8) by auto
  then show ?case
    using IH first by (simp add: Let_def map_Suc_upt upt_conv_Cons del: upt_Suc map_map)
qed

end

interpretation bucket: window_counter KeyBucket_Incr KeyBucket_Sync abs_bucket "\<lambda>_. True"
  by unfold_locales (simp_all add: KeyBucket_Incr_refines KeyBucket_Sync_refines)

section \<open>Properties of the bucket\<close>

text \<open>
  C1: a key bucket is a fixed-window counter. What \<open>Incr\<close> answers (blocked, window end, whether
  to replicate) and what \<open>Incr\<close> and \<open>Sync\<close> leave in the map is, for every key, count, limit,
  window, clock and earlier state, what the abstract counter says, with the window end and the
  total of a key as its only state: no other field of an entry has an effect on later answers.
\<close>

theorem bucket_refines_fixed_window:
  "(fst (KeyBucket_Incr key cnt limit window b c),
    abs_bucket (fst (snd (KeyBucket_Incr key cnt limit window b c)))) =
     spec_Incr (reading c) (reading (tick c)) key cnt limit window (abs_bucket b) \<and>
   abs_bucket (fst (KeyBucket_Sync key cnt expiry b c)) =
     spec_Sync (reading c) (reading (tick c)) key cnt expiry (abs_bucket b)"
  by (simp add: KeyBucket_Incr_refines KeyBucket_Sync_refines)

text \<open>
  the limit holds. Over any sequence of \<open>Incr\<close> and \<open>Sync\<close> calls on any keys, of which those
  on \<open>k\<close> fall in one window, carry one limit, do not count backwards and do not add up beyond
  \<open>int32\<close>, the counts that are admitted on \<open>k\<close> are at most what the limit had left.
\<close>

theorem bucket_admission_bound:
  assumes "window_is x (abs_bucket b k)" and "calls_in_window x l k cs"
    and "sint (total_in x (abs_bucket b k)) + total_of k cs \<le> 2147483647"
  shows "admitted k (fst (run_calls KeyBucket_Incr KeyBucket_Sync cs b)) \<le>
         headroom x l (abs_bucket b k)"
  by (rule bucket.admission_bound [OF TrueI assms(1) calls_in_windowD [OF assms(2)] assms(3)])

theorem bucket_admission_bound_witness:
  "admitted ''k'' (fst (run_calls KeyBucket_Incr KeyBucket_Sync
     [(UnReal \<lparr>current = 7\<rparr>, CIncr ''k'' 2 3 1), (UnReal \<lparr>current = 9\<rparr>, CSync ''k'' 1 1000000000),
      (UnReal \<lparr>current = 10\<rparr>, CIncr ''k'' 1 3 1)] NewKeyBucket))
     \<le> headroom 1000000000 3 (abs_bucket NewKeyBucket ''k'')"
  by (rule bucket_admission_bound)
    (simp_all add: calls_in_window_def abs_bucket_def NewKeyBucket_def window_is_def
      GenExpiry_def go_rem64_def)

text \<open>
  nothing is refused too early or too late. Of \<open>n\<close> single increments on a fresh key within
  one window the first \<open>l\<close> are allowed and all later ones blocked, and exactly the one that
  breaches the limit asks for an immediate synchronisation.
\<close>

theorem bucket_burst:
  assumes "lookup b k = None" and "GenExpiry (reading c) w = x" and "\<not> x <s reading (tick c)"
    and "0 \<le> sint l" and "sint l < 2147483647"
  shows "fst (run_calls KeyBucket_Incr KeyBucket_Sync (replicate n (c, CIncr k 1 l w)) b) =
         map (\<lambda>i. (k, 1, sint l \<le> int i, x, int i = sint l)) [0..<n]"
  using bucket.burst [where s = b and x = x and k = k and c = c and l = l and w = w and j = 0 and n = n]
    assms by (simp add: abs_bucket_def window_is_def)

theorem bucket_burst_witness:
  "fst (run_calls KeyBucket_Incr KeyBucket_Sync
     (replicate 4 (UnReal \<lparr>current = 0\<rparr>, CIncr ''one'' 1 2 1)) NewKeyBucket) =
   [(''one'', 1, False, 1000000000, False), (''one'', 1, False, 1000000000, False),
    (''one'', 1, True, 1000000000, True), (''one'', 1, True, 1000000000, False)]"
  using bucket_burst [of NewKeyBucket "''one''" "UnReal \<lparr>current = 0\<rparr>" 1 1000000000 2 4]
  by (simp add: NewKeyBucket_def GenExpiry_def go_rem64_def signed_less upt_rec del: run_calls.simps)

text \<open>
  what the caller replicates is what was counted. An increment is added to the total of the
  window it reports exactly when it is allowed or asks for synchronisation, the two cases in
  which the store sends it to the other nodes; this is when the total before it was within the
  limit. No bound on the counts is assumed.
\<close>

theorem Incr_counts_iff_reported:
  "case KeyBucket_Incr key cnt limit window b c of ((blocked, x, dosync), b', _) \<Rightarrow>
     (case open_window (reading (tick c)) (abs_bucket b key) (GenExpiry (reading c) window) of
        (x0, p) \<Rightarrow>
          x = x0 \<and>
          abs_bucket b' key = Some (x, if (if blocked then dosync else True) then p + cnt else p) \<and>
          (if blocked then dosync else True) = (p \<le>s limit))"
proof -
  obtain blocked x dosync b' c' where r: "KeyBucket_Incr key cnt limit window b c =
      ((blocked, x, dosync), b', c')" by (metis prod_cases3)
  obtain x0 p where w: "open_window (reading (tick c)) (abs_bucket b key)
      (GenExpiry (reading c) window) = (x0, p)" by (cases "open_window (reading (tick c))
      (abs_bucket b key) (GenExpiry (reading c) window)")
  have s: "spec_Incr (reading c) (reading (tick c)) key cnt limit window (abs_bucket b) =
      ((blocked, x, dosync), abs_bucket b')"
    using KeyBucket_Incr_refines [of key cnt limit window b c] r by simp
  show ?thesis
    using spec_Incr_applied_iff_reported [OF s w] r w by auto
qed

text \<open>
  an ended window is forgotten. A call on a key whose entry has expired answers, and leaves
  for every key the windows, as if the entry had been deleted before it: this is why the garbage
  collector may delete such entries at any time.
\<close>

theorem expired_window_is_forgotten:
  assumes "lookup b key = Some e" and "expires e <s reading (tick c)"
  shows "fst (KeyBucket_Incr key cnt limit window b c) =
         fst (KeyBucket_Incr key cnt limit window (b\<lparr>lookup := (lookup b)(key := None)\<rparr>) c) \<and>
         abs_bucket (fst (snd (KeyBucket_Incr key cnt limit window b c))) =
         abs_bucket (fst (snd (KeyBucket_Incr key cnt limit window
           (b\<lparr>lookup := (lookup b)(key := None)\<rparr>) c)))"
proof -
  let ?b = "b\<lparr>lookup := (lookup b)(key := None)\<rparr>"
  have abs: "abs_bucket ?b = (abs_bucket b)(key := None)"
    by (simp add: abs_bucket_def fun_eq_iff)
  have "abs_bucket b key = Some (expires e, ecount e)"
    using assms(1) by (simp add: abs_bucket_def)
  then have "spec_Incr (reading c) (reading (tick c)) key cnt limit window (abs_bucket ?b) =
      spec_Incr (reading c) (reading (tick c)) key cnt limit window (abs_bucket b)"
    using assms(2) by (simp add: abs spec_Incr_def open_window_def)
  then show ?thesis by (simp add: bucket.incr_result)
qed

theorem expired_window_is_forgotten_witness:
  "fst (KeyBucket_Incr ''a'' 1 1 1
     \<lparr>lookup = [''a'' \<mapsto> \<lparr>expires = 1000000000, lastmodified = 0, ecount = 2\<rparr>]\<rparr>
     (UnReal \<lparr>current = 1000000001\<rparr>)) = (False, 2000000000, False)"
proof -
  let ?e = "\<lparr>expires = 1000000000, lastmodified = 0, ecount = 2\<rparr>"
  have "fst (KeyBucket_Incr ''a'' 1 1 1 \<lparr>lookup = [''a'' \<mapsto> ?e]\<rparr> (UnReal \<lparr>current = 1000000001\<rparr>)) =
      fst (KeyBucket_Incr ''a'' 1 1 1 (\<lparr>lookup = [''a'' \<mapsto> ?e]\<rparr>\<lparr>lookup := (lookup
        \<lparr>lookup = [''a'' \<mapsto> ?e]\<rparr>)(''a'' := None)\<rparr>) (UnReal \<lparr>current = 1000000001\<rparr>))"
    by (rule conjunct1 [OF expired_window_is_forgotten [where e = ?e]]) simp_all
  then show ?thesis
    by (simp add: bucket.incr_result spec_Incr_def abs_bucket_def GenExpiry_def go_rem64_def)
qed

text \<open>
  C37: the check of the limit comes after a 32-bit addition that can wrap. When the total and the
  count of an admissible call add up beyond \<open>int32\<close>, the call is allowed and leaves a negative
  total, so the key has its whole limit, and two billion more, again in the same window.
\<close>

theorem Incr_overflow_is_admitted:
  assumes "abs_bucket b key = Some (x, p)" and "\<not> x <s reading (tick c)" and "p \<le>s limit"
    and "0 \<le> sint p" and "0 \<le> sint cnt" and "2147483647 < sint p + sint cnt"
  shows "fst (KeyBucket_Incr key cnt limit window b c) = (False, x, False) \<and>
         abs_bucket (fst (snd (KeyBucket_Incr key cnt limit window b c))) key =
           Some (x, word_of_int (sint p + sint cnt - 4294967296)) \<and>
         sint p + sint cnt - 4294967296 < 0"
proof -
  have range: "- 2147483648 \<le> sint p + sint cnt - 4294967296" "sint p + sint cnt - 4294967296 < 0"
    using assms(4-6) sint32_bounds [of p] sint32_bounds [of cnt] by simp_all
  have "(word_of_int (sint p + sint cnt - 4294967296) :: i32) = word_of_int (sint p + sint cnt)"
    by simp
  then have sum: "p + cnt = word_of_int (sint p + sint cnt - 4294967296)"
    by simp
  have "sint (p + cnt) = sint p + sint cnt - 4294967296"
    using range sint32_of_int [of "sint p + sint cnt - 4294967296"] by (simp only: sum)
  then have "\<not> limit <s p + cnt"
    using range assms(3,4) by (simp add: signed_less)
  then show ?thesis
    using assms(1-3) range
    by (simp add: bucket.incr_result spec_Incr_def open_window_live Let_def flip: sum)
qed

theorem Incr_overflow_is_admitted_witness:
  "fst (KeyBucket_Incr ''k'' 2147483647 5 1
     \<lparr>lookup = [''k'' \<mapsto> \<lparr>expires = 1000000000, lastmodified = 0, ecount = 1\<rparr>]\<rparr>
     (UnReal \<lparr>current = 3\<rparr>)) = (False, 1000000000, False)"
  by (rule conjunct1 [OF Incr_overflow_is_admitted [where p = 1]])
    (simp_all add: abs_bucket_def signed_less)

end
