(* ===== verification/PeakRate.thy ===== *)
theory PeakRate
  imports Prelude
begin

text \<open>
  The per-second limit of store/store.go: \<open>int32(math.Ceil(float64(threshold) / float64(window)))\<close>.
  The quotient is computed in IEEE double precision, so the model does too: the exact quotient
  is scaled to 53 significant bits and rounded half to even. Two \<open>int32\<close> give a quotient between
  \<open>2^-31\<close> and \<open>2^31\<close>, so no subnormal and no overflow arises. A division by zero gives a NaN or an
  infinity, and the conversion of a value that does not fit \<open>int32\<close> is implementation-specific
  in Go: it is the parameter \<open>cvt\<close>.
\<close>

section \<open>Doubles\<close>

text \<open>\<open>Fin m k\<close> is \<open>m / 2^k\<close>; \<open>Inf True\<close> is the negative infinity.\<close>

datatype f64 = NaN | Inf bool | Fin int nat

text \<open>The nearest integer to \<open>n / d\<close>, the even one in the middle.\<close>

definition round_half_even :: "int \<Rightarrow> int \<Rightarrow> int" where
  "round_half_even n d =
     (let q = n div d; r = n mod d
      in if 2 * r < d then q else if d < 2 * r then q + 1 else if even q then q else q + 1)"

text \<open>The least scaling that gives the quotient \<open>a / b\<close> of positive integers 53 bits.\<close>

definition f64_scale :: "int \<Rightarrow> int \<Rightarrow> nat" where
  "f64_scale a b = length (takeWhile (\<lambda>k. a * 2 ^ k < b * 2 ^ 52) [0..<84])"

definition f64_div :: "int \<Rightarrow> int \<Rightarrow> f64" where
  "f64_div a b =
     (if b = 0 then (if a = 0 then NaN else Inf (a < 0))
      else if a = 0 then Fin 0 0
      else let k = f64_scale \<bar>a\<bar> \<bar>b\<bar>
           in Fin (sgn a * sgn b * round_half_even (\<bar>a\<bar> * 2 ^ k) \<bar>b\<bar>) k)"

text \<open>The ceiling of the quotient of two integers (\<open>div\<close> rounds down).\<close>

definition ceil_div :: "int \<Rightarrow> int \<Rightarrow> int" where
  "ceil_div a b = - ((- a) div b)"

fun f64_ceil :: "f64 \<Rightarrow> f64" where
  "f64_ceil (Fin m k) = Fin (ceil_div m (2 ^ k)) 0"
| "f64_ceil v = v"

fun f64_to_i32 :: "(f64 \<Rightarrow> i32) \<Rightarrow> f64 \<Rightarrow> i32" where
  "f64_to_i32 cvt (Fin m k) =
     (let z = m sdiv 2 ^ k
      in if - 2147483648 \<le> z \<and> z \<le> 2147483647 then word_of_int z else cvt (Fin m k))"
| "f64_to_i32 cvt v = cvt v"

definition peak_threshold :: "(f64 \<Rightarrow> i32) \<Rightarrow> i32 \<Rightarrow> i32 \<Rightarrow> i32" where
  "peak_threshold cvt threshold window =
     f64_to_i32 cvt (f64_ceil (f64_div (sint threshold) (sint window)))"

section \<open>The rounding does not disturb the ceiling\<close>

lemma round_half_even_cases:
  assumes "0 < d"
  obtains q r where "n = q * d + r" and "0 \<le> r" and "r < d"
    and "round_half_even n d = q \<and> 2 * r \<le> d \<or> round_half_even n d = q + 1 \<and> d \<le> 2 * r"
proof -
  have "round_half_even n d = n div d \<and> 2 * (n mod d) \<le> d \<or>
        round_half_even n d = n div d + 1 \<and> d \<le> 2 * (n mod d)"
    by (auto simp: round_half_even_def Let_def)
  moreover have "n = n div d * d + n mod d" and "0 \<le> n mod d" and "n mod d < d"
    using assms by simp_all
  ultimately show thesis using that by blast
qed

lemma round_half_even_near:
  assumes "0 < d"
  shows "2 * (round_half_even n d * d) \<le> 2 * n + d" and "2 * n - d \<le> 2 * (round_half_even n d * d)"
  by (rule round_half_even_cases [OF assms, of n]; use assms in \<open>auto simp: distrib_right\<close>)+

text \<open>Rounding never crosses an integer that bounds the exact value.\<close>

lemma round_half_even_mono_int:
  assumes "0 < d"
  shows "n \<le> c * d \<Longrightarrow> round_half_even n d \<le> c" and "c * d \<le> n \<Longrightarrow> c \<le> round_half_even n d"
proof -
  obtain q r where n: "n = q * d + r" "0 \<le> r" "r < d"
    and cases: "round_half_even n d = q \<and> 2 * r \<le> d \<or> round_half_even n d = q + 1 \<and> d \<le> 2 * r"
    by (rule round_half_even_cases [OF assms])
  {
    assume le: "n \<le> c * d"
    have "q * d \<le> c * d" using le n by linarith
    then have q: "q \<le> c" using assms by (simp only: mult_le_cancel_right_pos)
    have "r = 0" if "q = c" using that le n by simp
    with q cases assms show "round_half_even n d \<le> c" by (cases "q = c") auto
  }
  {
    assume le: "c * d \<le> n"
    have "c * d < (q + 1) * d" using le n unfolding distrib_right by linarith
    then have "c < q + 1" using assms by (simp only: mult_less_cancel_right_pos)
    with cases show "c \<le> round_half_even n d" by auto
  }
qed

lemma f64_scale_enough:
  assumes "0 < a" and "0 < b" and "b \<le> 2147483648"
  shows "b * 2 ^ 52 \<le> a * 2 ^ f64_scale a b"
proof (rule ccontr)
  let ?P = "\<lambda>k. a * 2 ^ k < b * 2 ^ 52"
  assume neg: "\<not> b * 2 ^ 52 \<le> a * 2 ^ f64_scale a b"
  have "f64_scale a b \<le> 84"
    using length_takeWhile_le [of ?P "[0..<84]"] by (simp add: f64_scale_def del: upt_rec_numeral)
  moreover have "\<not> f64_scale a b < 84"
  proof
    assume less: "f64_scale a b < 84"
    then have "\<not> ?P ([0..<84] ! f64_scale a b)"
      unfolding f64_scale_def by (intro nth_length_takeWhile) simp
    with less neg show False by (simp del: upt_rec_numeral)
  qed
  ultimately have k: "f64_scale a b = 84" by simp
  have "b * 2 ^ 52 \<le> 1 * 2 ^ 84" using assms(3) by simp
  also have "\<dots> \<le> a * 2 ^ 84" using assms(1) by simp
  finally show False using neg k by simp
qed

text \<open>
  The ceiling and the floor of the rounded quotient of two positive \<open>int32\<close> are those of the
  exact one: an exact quotient that is not an integer is at least \<open>1 / b\<close> away from one, and the
  rounding error is below that.
\<close>

lemma rounded_quotient_between:
  assumes "0 < a" and "0 < b" and "a \<le> 2147483648" and "b \<le> 2147483648"
  defines "k \<equiv> f64_scale a b"
  defines "m \<equiv> round_half_even (a * 2 ^ k) b"
  shows "a \<le> c * b \<Longrightarrow> m \<le> c * 2 ^ k" and "c * b \<le> a \<Longrightarrow> c * 2 ^ k \<le> m"
    and "c * b < a \<Longrightarrow> c * 2 ^ k < m" and "a < c * b \<Longrightarrow> m < c * 2 ^ k"
proof -
  let ?s = "(2::int) ^ k"
  have s: "0 < ?s" by simp
  have big: "b * 2 ^ 52 \<le> a * ?s"
    using f64_scale_enough [OF assms(1,2,4)] by (simp add: k_def)
  have "a * ?s \<le> 2147483648 * ?s" using assms(3) s by (intro mult_right_mono) simp_all
  with big have "b * 2 ^ 52 \<le> 2147483648 * ?s" by (rule order_trans)
  then have "b * 4503599627370496 \<le> 2147483648 * ?s" by simp
  then have gap: "b < ?s" using assms(2) by linarith
  note near = round_half_even_near [OF assms(2), of "a * ?s", folded m_def]
  show "m \<le> c * ?s" if "a \<le> c * b"
  proof -
    have "a * ?s \<le> c * b * ?s" using that s by (intro mult_right_mono) simp_all
    then show ?thesis
      unfolding m_def by (intro round_half_even_mono_int(1) [OF assms(2)]) (simp add: ac_simps)
  qed
  show "c * ?s \<le> m" if "c * b \<le> a"
  proof -
    have "c * b * ?s \<le> a * ?s" using that s by (intro mult_right_mono) simp_all
    then show ?thesis
      unfolding m_def by (intro round_half_even_mono_int(2) [OF assms(2)]) (simp add: ac_simps)
  qed
  show "c * ?s < m" if "c * b < a"
  proof -
    have "(c * b + 1) * ?s \<le> a * ?s" using that s by (intro mult_right_mono) simp_all
    moreover have "(c * b + 1) * ?s = c * ?s * b + ?s" by (simp add: algebra_simps)
    ultimately have "c * ?s * b < m * b" using near(2) gap assms(2) by linarith
    then show ?thesis using assms(2) by (simp only: mult_less_cancel_right_pos)
  qed
  show "m < c * ?s" if "a < c * b"
  proof -
    have "(a + 1) * ?s \<le> c * b * ?s" using that s by (intro mult_right_mono) simp_all
    moreover have "(a + 1) * ?s = a * ?s + ?s" and "c * b * ?s = c * ?s * b"
      by (simp_all add: algebra_simps)
    ultimately have "m * b < c * ?s * b" using near(1) gap assms(2) by linarith
    then show ?thesis using assms(2) by (simp only: mult_less_cancel_right_pos)
  qed
qed

text \<open>The integer ceiling, by the bounds that characterise it.\<close>

lemma ceil_div_eqI:
  assumes "0 < b" and "(c - 1) * b < a" and "a \<le> c * b"
  shows "ceil_div a b = c"
proof -
  have "(- a) div b = - c"
    using assms by (intro int_div_pos_eq [of "- a" b "- c" "c * b - a"]) (simp_all add: algebra_simps)
  then show ?thesis by (simp add: ceil_div_def)
qed

lemma ceil_div_bounds:
  assumes "0 < b"
  shows "(ceil_div a b - 1) * b < a" and "a \<le> ceil_div a b * b"
proof -
  have "- a = (- a) div b * b + (- a) mod b" and "0 \<le> (- a) mod b" and "(- a) mod b < b"
    using assms by simp_all
  then show "(ceil_div a b - 1) * b < a" and "a \<le> ceil_div a b * b"
    unfolding ceil_div_def left_diff_distrib by linarith+
qed

lemma ceil_div_le:
  assumes "0 < b" and "a \<le> n * b"
  shows "ceil_div a b \<le> n"
proof -
  have "(ceil_div a b - 1) * b < n * b"
    using ceil_div_bounds(1) [OF assms(1), of a] assms(2) by linarith
  then have "ceil_div a b - 1 < n" using assms(1) by (simp only: mult_less_cancel_right_pos)
  then show ?thesis by simp
qed

lemma ceil_div_ge:
  assumes "0 < b" and "- n \<le> a" and "0 \<le> n"
  shows "- n \<le> ceil_div a b"
proof -
  have "- n * b \<le> - n * 1" using assms(1,3) by (intro mult_left_mono_neg) simp_all
  then have "- n * b \<le> ceil_div a b * b"
    using ceil_div_bounds(2) [OF assms(1), of a] assms(2) by linarith
  then show ?thesis using assms(1) by (simp only: mult_le_cancel_right_pos)
qed

text \<open>Division by negative numbers: both signs can be flipped.\<close>

lemma ceil_div_minus: "ceil_div (- a) (- b) = ceil_div a b"
  by (simp add: ceil_div_def div_minus_right)

lemma f64_ceil_div_pos:
  assumes "0 < a" and "0 < b" and "a \<le> 2147483648" and "b \<le> 2147483648"
  defines "m \<equiv> round_half_even (a * 2 ^ f64_scale a b) b"
  shows "ceil_div m (2 ^ f64_scale a b) = ceil_div a b"
    and "ceil_div (- m) (2 ^ f64_scale a b) = ceil_div (- a) b"
proof -
  note between = rounded_quotient_between [OF assms(1-4), folded m_def]
  show "ceil_div m (2 ^ f64_scale a b) = ceil_div a b"
    using ceil_div_bounds [OF assms(2), of a] between(1,3) by (intro ceil_div_eqI) simp_all
  let ?c = "ceil_div (- a) b"
  have "a < - (?c - 1) * b" and "- ?c * b \<le> a"
    using ceil_div_bounds [OF assms(2), of "- a"] by (simp_all add: algebra_simps)
  then have "m < - (?c - 1) * 2 ^ f64_scale a b" and "- ?c * 2 ^ f64_scale a b \<le> m"
    using between(2,4) by blast+
  then show "ceil_div (- m) (2 ^ f64_scale a b) = ceil_div (- a) b"
    by (intro ceil_div_eqI) (simp_all add: algebra_simps)
qed

lemma f64_ceil_div:
  assumes "b \<noteq> 0" and "\<bar>a\<bar> \<le> 2147483648" and "\<bar>b\<bar> \<le> 2147483648"
  shows "f64_ceil (f64_div a b) = Fin (ceil_div a b) 0"
proof (cases "a = 0")
  case True
  with assms show ?thesis by (simp add: f64_div_def ceil_div_def)
next
  case False
  note pos = f64_ceil_div_pos [of "\<bar>a\<bar>" "\<bar>b\<bar>"]
  from False assms(1) consider "0 < a" "0 < b" | "a < 0" "0 < b" | "0 < a" "b < 0" | "a < 0" "b < 0"
    by linarith
  then show ?thesis
  proof cases
    case 1 with pos assms show ?thesis by (simp add: f64_div_def Let_def)
  next
    case 2 with pos assms show ?thesis by (simp add: f64_div_def Let_def)
  next
    case 3 with pos assms ceil_div_minus [of a b] show ?thesis
      by (simp add: f64_div_def Let_def)
  next
    case 4 with pos assms ceil_div_minus [of a b] show ?thesis
      by (simp add: f64_div_def Let_def)
  qed
qed

lemma peak_threshold_ceil:
  assumes "window \<noteq> 0" and "\<not> (sint threshold = - 2147483648 \<and> sint window = - 1)"
  shows "sint (peak_threshold cvt threshold window) = ceil_div (sint threshold) (sint window)"
proof -
  let ?a = "sint threshold" and ?b = "sint window"
  have b: "?b \<noteq> 0" using assms(1) sint_eq_iff [of window 0] by simp
  have range: "- 2147483648 \<le> ?a" "?a \<le> 2147483647" "- 2147483648 \<le> ?b" "?b \<le> 2147483647"
    using sint32_bounds by blast+
  have eq: "f64_ceil (f64_div ?a ?b) = Fin (ceil_div ?a ?b) 0"
    using b range by (intro f64_ceil_div) auto
  have "- 2147483648 \<le> ceil_div ?a ?b \<and> ceil_div ?a ?b \<le> 2147483647"
  proof (cases "0 < ?b")
    case True
    then show ?thesis
      using range ceil_div_ge [of ?b 2147483648 ?a] ceil_div_le [of ?b ?a 2147483647] by simp
  next
    case False
    then have "2147483647 * ?b \<le> ?a"
      using range b assms(2) by (cases "?b = - 1") auto
    with False show ?thesis
      using range b ceil_div_minus [of ?a ?b] ceil_div_ge [of "- ?b" 2147483648 "- ?a"]
        ceil_div_le [of "- ?b" "- ?a" 2147483647] by simp
  qed
  then show ?thesis
    by (simp add: peak_threshold_def eq sint_arith)
qed

text \<open>
  C35: the floating-point computation of the per-second limit is exact. For every threshold and
  every window but zero (and but the one quotient that does not fit), it is the ceiling of the
  rational quotient, so the double rounding never costs or adds a request.
\<close>

theorem peak_threshold_exact:
  assumes "window \<noteq> 0" and "\<not> (sint threshold = - 2147483648 \<and> sint window = - 1)"
  shows "sint (peak_threshold cvt threshold window) = ceil_div (sint threshold) (sint window)"
  by (rule peak_threshold_ceil [OF assms])

theorem peak_threshold_exact_witness:
  "sint (peak_threshold (\<lambda>_. 0) 1000 60) = ceil_div 1000 60 \<and> ceil_div 1000 60 = 17"
  using peak_threshold_exact [of 60 1000 "\<lambda>_. 0"] by (simp add: ceil_div_def)

text \<open>
  a per-second limit spends the configured one: for a positive limit and window, the
  per-second limit is positive, gives at least the configured limit over the window, and one
  request less per second would give less than it.
\<close>

theorem peak_threshold_spreads:
  fixes threshold window :: i32 and cvt :: "f64 \<Rightarrow> i32"
  assumes "0 <s threshold" and "0 <s window"
  defines "p \<equiv> sint (peak_threshold cvt threshold window)"
  shows "0 < p \<and> sint threshold \<le> p * sint window \<and> (p - 1) * sint window < sint threshold"
proof -
  have pos: "0 < sint threshold" "0 < sint window" using assms(1,2) by (simp_all add: signed_less)
  then have p: "p = ceil_div (sint threshold) (sint window)"
    using peak_threshold_ceil [of window threshold cvt] by (cases "window = 0") (auto simp: p_def)
  have "0 < ceil_div (sint threshold) (sint window) * sint window"
    using ceil_div_bounds(2) [OF pos(2), of "sint threshold"] pos(1) by linarith
  then have "0 < p" using pos(2) by (simp add: p zero_less_mult_iff)
  then show ?thesis
    using ceil_div_bounds [OF pos(2), of "sint threshold"] by (simp add: p)
qed

theorem peak_threshold_spreads_witness:
  "0 < sint (peak_threshold (\<lambda>_. 0) 1000 60) \<and> 1000 \<le> sint (peak_threshold (\<lambda>_. 0) 1000 60) * 60"
  using peak_threshold_spreads [of 1000 60 "\<lambda>_. 0"] by (simp add: signed_less)

end
