(* ===== verification/EventMgr.thy ===== *)
theory EventMgr
  imports Prelude
begin

text \<open>
  store/event/event.go and store/event/eventmanager.go: the process-wide event bus. Handlers are
  registered per route; \<open>Publish\<close> puts an event on a bounded channel without waiting, and worker
  goroutines hand each event to the handlers of its route and put it back into the pool of the
  route.

  The handler lists are Go slices, and \<open>UnRegisterHandler\<close> shifts the elements of the backing
  array in place, so the model has the arrays: a slice is an array number, a length and a
  capacity, and the arrays are a store. \<open>handlers_of\<close> is the list a slice shows.
\<close>

section \<open>State\<close>

record KeyEvent =
  ke_Key :: string
  ke_Count :: i32
  ke_Time :: i64
  ke_Allowed :: bool

text \<open>
  The \<open>Event\<close> interface: the module's own \<open>KeyEvent\<close>, or an event type of an embedding program,
  of which only the route is known.
\<close>

datatype event = KeyEv KeyEvent | OtherEv string

definition KEYEVENT :: string where
  "KEYEVENT = ''KEYEVENT''"

fun GetRoute :: "event \<Rightarrow> string" where
  "GetRoute (KeyEv _) = KEYEVENT"
| "GetRoute (OtherEv r) = r"

text \<open>A pool: there is one kind, the pool of \<open>KeyEvent\<close>s. A nil \<open>*sync.Pool\<close> is \<^const>\<open>None\<close>.\<close>

datatype pool = KeyEventPool

record slice =
  arr :: nat
  slen :: nat
  scap :: nat

definition nil_slice :: slice where
  "nil_slice = \<lparr>arr = 0, slen = 0, scap = 0\<rparr>"

text \<open>
  \<open>'h\<close> is the type of handlers; a nil interface value is \<^const>\<open>None\<close>. Array \<open>i < next_arr\<close> is
  allocated; array 0 is that of nil slices and is empty. A missing key of the Go maps reads as
  the nil slice and as the nil pool.
\<close>

record 'h event_manager =
  workerCount :: nat
  handlers :: "string \<Rightarrow> slice"
  arrays :: "nat \<Rightarrow> 'h option list"
  next_arr :: nat
  eventChan :: "event list"
  chanSize :: nat
  objPools :: "string \<Rightarrow> pool option"

section \<open>Slices\<close>

definition elems :: "(nat \<Rightarrow> 'h option list) \<Rightarrow> slice \<Rightarrow> 'h option list" where
  "elems as s = take (slen s) (as (arr s))"

text \<open>
  \<open>append(s, x)\<close>: in place when the capacity allows it, else into a new array whose capacity the
  run-time chooses: \<open>extra n\<close> slots beyond the \<open>n\<close> needed.
\<close>

definition append1 ::
  "(nat \<Rightarrow> nat) \<Rightarrow> slice \<Rightarrow> 'h option \<Rightarrow> 'h event_manager \<Rightarrow> slice \<times> 'h event_manager" where
  "append1 extra s x em =
     (if slen s < scap s then
        (s\<lparr>slen := slen s + 1\<rparr>,
         em\<lparr>arrays := (arrays em)(arr s := (arrays em (arr s))[slen s := x])\<rparr>)
      else
        let n = slen s + 1; i = next_arr em
        in (\<lparr>arr = i, slen = n, scap = n + extra n\<rparr>,
            em\<lparr>arrays := (arrays em)(i := elems (arrays em) s @ [x] @ replicate (extra n) None),
               next_arr := i + 1\<rparr>))"

text \<open>
  \<open>append(s[:i], s[i+1:]...)\<close>: it always fits, so the tail is moved down one place in the same
  array and the last slot keeps its old value.
\<close>

definition delete_at :: "slice \<Rightarrow> nat \<Rightarrow> 'h event_manager \<Rightarrow> slice \<times> 'h event_manager" where
  "delete_at s i em =
     (let a = arrays em (arr s);
          a' = take i a @ take (slen s - i - 1) (drop (i + 1) a) @ drop (slen s - 1) a
      in (s\<lparr>slen := slen s - 1\<rparr>, em\<lparr>arrays := (arrays em)(arr s := a')\<rparr>))"

section \<open>Operations\<close>

text \<open>
  \<open>GetMgrInstance\<close> and \<open>GetMgrInstanceWithParam\<close>: a manager with no handlers, an empty channel
  and no pools, made once per process. \<open>once.Do\<close>: the state of the \<open>sync.Once\<close> and its variable
  is the optional instance.
\<close>

definition new_manager :: "nat \<Rightarrow> nat \<Rightarrow> 'h event_manager" where
  "new_manager wc cap =
     \<lparr>workerCount = wc, handlers = (\<lambda>_. nil_slice), arrays = (\<lambda>_. []), next_arr = 1,
      eventChan = [], chanSize = cap, objPools = (\<lambda>_. None)\<rparr>"

definition GetMgrInstanceWithParam ::
  "nat \<Rightarrow> nat \<Rightarrow> 'h event_manager option \<Rightarrow> 'h event_manager \<times> 'h event_manager option" where
  "GetMgrInstanceWithParam wc cap inst =
     (case inst of
        Some em \<Rightarrow> (em, inst)
      | None \<Rightarrow> let em = new_manager wc cap in (em, Some em))"

definition GetMgrInstance :: "'h event_manager option \<Rightarrow> 'h event_manager \<times> 'h event_manager option" where
  "GetMgrInstance = GetMgrInstanceWithParam 1000 10000000"

definition createNewPool :: "string \<Rightarrow> pool option" where
  "createNewPool poolname = (if poolname = KEYEVENT then Some KeyEventPool else None)"

definition GetPool :: "string \<Rightarrow> 'h event_manager \<Rightarrow> pool option \<times> 'h event_manager" where
  "GetPool poolname em =
     (case objPools em poolname of
        Some p \<Rightarrow> (Some p, em)
      | None \<Rightarrow>
          let p = createNewPool poolname
          in (p, em\<lparr>objPools := (objPools em)(poolname := p)\<rparr>))"

definition RegisterHandler :: "(nat \<Rightarrow> nat) \<Rightarrow> string \<Rightarrow> 'h \<Rightarrow> 'h event_manager \<Rightarrow> 'h event_manager" where
  "RegisterHandler extra routekey h em =
     (let (s, em) = append1 extra (handlers em routekey) (Some h) em
      in em\<lparr>handlers := (handlers em)(routekey := s)\<rparr>)"

text \<open>The loop of \<open>UnRegisterHandler\<close>: the first index that holds the handler.\<close>

fun find_index :: "'a \<Rightarrow> 'a list \<Rightarrow> nat option" where
  "find_index x [] = None"
| "find_index x (y # ys) = (if y = x then Some 0 else map_option Suc (find_index x ys))"

definition UnRegisterHandler :: "string \<Rightarrow> 'h \<Rightarrow> 'h event_manager \<Rightarrow> 'h event_manager" where
  "UnRegisterHandler routekey h em =
     (let s = handlers em routekey
      in case find_index (Some h) (elems (arrays em) s) of
           None \<Rightarrow> em
         | Some i \<Rightarrow>
             let (s, em) = delete_at s i em
             in em\<lparr>handlers := (handlers em)(routekey := s)\<rparr>)"

definition Publish :: "event \<Rightarrow> 'h event_manager \<Rightarrow> bool \<times> 'h event_manager" where
  "Publish e em =
     (case chan_send (chanSize em) (eventChan em) e of
        Some q \<Rightarrow> (True, em\<lparr>eventChan := q\<rparr>)
      | None \<Rightarrow> (False, em))"

text \<open>
  One turn of a worker: take an event, take the slice of its route, call each handler (the calls
  are the result), put the event back. The pool of a route the manager does not know is nil, and
  \<open>Put\<close> on it panics. \<^const>\<open>None\<close>: the channel is empty and the worker waits.
\<close>

definition worker_turn ::
  "'h event_manager \<Rightarrow> ((('h option \<times> event) list \<times> 'h event_manager) \<times> panic option) option" where
  "worker_turn em =
     (case chan_recv (eventChan em) of
        None \<Rightarrow> None
      | Some (e, q) \<Rightarrow>
          let em = em\<lparr>eventChan := q\<rparr>;
              hs = elems (arrays em) (handlers em (GetRoute e));
              (p, em) = GetPool (GetRoute e) em
          in Some ((map (\<lambda>h. (h, e)) hs, em),
                   case p of Some _ \<Rightarrow> None | None \<Rightarrow> Some NilDereference))"

text \<open>
  A worker: turns until the channel is empty (it then waits), a panic, or \<open>n\<close> turns. All the
  workers of a manager run this loop; the model follows one.
\<close>

fun worker_run ::
  "('m \<Rightarrow> ((('h option \<times> event) list \<times> 'm) \<times> panic option) option) \<Rightarrow> nat \<Rightarrow> 'm \<Rightarrow>
   ('h option \<times> event) list \<times> 'm \<times> panic option" where
  "worker_run turn 0 m = ([], m, None)"
| "worker_run turn (Suc n) m =
     (case turn m of
        None \<Rightarrow> ([], m, None)
      | Some ((calls, m'), Some p) \<Rightarrow> (calls, m', Some p)
      | Some ((calls, m'), None) \<Rightarrow>
          (let rest = worker_run turn n m' in (calls @ fst rest, snd rest)))"

section \<open>Well-formedness and abstraction\<close>

definition handlers_of :: "'h event_manager \<Rightarrow> string \<Rightarrow> 'h option list" where
  "handlers_of em r = elems (arrays em) (handlers em r)"

text \<open>
  Every slice lies in an allocated array of its capacity, and slices with room are in arrays of
  their own, so that writing through one is not seen through another.
\<close>

definition mgr_ok :: "'h event_manager \<Rightarrow> bool" where
  "mgr_ok em \<longleftrightarrow>
     (\<forall>r. slen (handlers em r) \<le> scap (handlers em r) \<and>
          length (arrays em (arr (handlers em r))) = scap (handlers em r) \<and>
          arr (handlers em r) < next_arr em) \<and>
     (\<forall>r r'. r \<noteq> r' \<longrightarrow> 0 < scap (handlers em r) \<longrightarrow>
          arr (handlers em r) \<noteq> arr (handlers em r'))"

lemma new_manager_ok [simp]: "mgr_ok (new_manager wc cap)"
  by (simp add: mgr_ok_def new_manager_def nil_slice_def)

lemma handlers_of_new [simp]: "handlers_of (new_manager wc cap) r = []"
  by (simp add: handlers_of_def new_manager_def nil_slice_def elems_def)

lemma mgr_okD:
  assumes "mgr_ok em"
  shows "slen (handlers em r) \<le> scap (handlers em r)"
    and "length (arrays em (arr (handlers em r))) = scap (handlers em r)"
    and "arr (handlers em r) \<noteq> next_arr em"
    and "0 < scap (handlers em r) \<Longrightarrow> r' \<noteq> r \<Longrightarrow> arr (handlers em r') \<noteq> arr (handlers em r)"
    and "length (elems (arrays em) (handlers em r)) = slen (handlers em r)"
proof -
  show "slen (handlers em r) \<le> scap (handlers em r)"
    and len: "length (arrays em (arr (handlers em r))) = scap (handlers em r)"
    and "length (elems (arrays em) (handlers em r)) = slen (handlers em r)"
    using assms by (simp_all add: mgr_ok_def elems_def)
  show "arr (handlers em r) \<noteq> next_arr em"
    using assms by (simp add: mgr_ok_def less_imp_neq)
  show "arr (handlers em r') \<noteq> arr (handlers em r)" if "0 < scap (handlers em r)" "r' \<noteq> r"
    using assms that unfolding mgr_ok_def by metis
qed

text \<open>Registering appends to the route's list and to no other.\<close>

lemma RegisterHandler_ok:
  assumes "mgr_ok em"
  shows "mgr_ok (RegisterHandler extra r h em)"
    and "handlers_of (RegisterHandler extra r h em) =
         (handlers_of em)(r := handlers_of em r @ [Some h])"
proof -
  let ?s = "handlers em r"
  note ok = mgr_okD [OF assms, of r] and ok' = mgr_okD [OF assms]
  have "mgr_ok (RegisterHandler extra r h em) \<and>
        handlers_of (RegisterHandler extra r h em) =
          (handlers_of em)(r := handlers_of em r @ [Some h])"
  proof (cases "slen ?s < scap ?s")
    case True
    then have "arr (handlers em r') \<noteq> arr ?s" if "r' \<noteq> r" for r'
      using ok(4) [OF _ that] by simp
    with True ok assms show ?thesis
      by (auto simp: mgr_ok_def fun_eq_iff handlers_of_def RegisterHandler_def append1_def
          elems_def take_Suc_conv_app_nth)
  next
    case False
    with ok ok'(3) assms show ?thesis
      by (auto simp: mgr_ok_def fun_eq_iff handlers_of_def RegisterHandler_def append1_def
          elems_def Let_def less_Suc_eq)
  qed
  then show "mgr_ok (RegisterHandler extra r h em)"
    and "handlers_of (RegisterHandler extra r h em) =
         (handlers_of em)(r := handlers_of em r @ [Some h])" by simp_all
qed

lemma find_index_Some:
  "find_index x xs = Some i \<Longrightarrow> i < length xs \<and> xs ! i = x \<and> remove1 x xs = take i xs @ drop (Suc i) xs"
  by (induction xs arbitrary: i) (auto split: if_splits)

lemma find_index_None: "find_index x xs = None \<longleftrightarrow> x \<notin> set xs"
  by (induction xs) auto

text \<open>Unregistering removes the first occurrence from the route's list and from no other.\<close>

lemma delete_at_elems:
  assumes "i < slen s" and "slen s \<le> length (arrays em (arr s))"
    and "delete_at s i em = (s', em')"
  shows "elems (arrays em') s' = take i (elems (arrays em) s) @ drop (Suc i) (elems (arrays em) s)"
    and "length (arrays em' (arr s')) = length (arrays em (arr s))"
proof -
  define m where "m = slen s - Suc i"
  have n: "slen s = Suc (i + m)" using assms(1) by (simp add: m_def)
  show "elems (arrays em') s' = take i (elems (arrays em) s) @ drop (Suc i) (elems (arrays em) s)"
    using assms(2,3) by (auto simp: delete_at_def elems_def Let_def drop_take n)
  show "length (arrays em' (arr s')) = length (arrays em (arr s))"
    using assms(2,3) by (auto simp: delete_at_def Let_def n)
qed

lemma UnRegisterHandler_ok:
  assumes "mgr_ok em"
  shows "mgr_ok (UnRegisterHandler r h em)"
    and "handlers_of (UnRegisterHandler r h em) =
         (handlers_of em)(r := remove1 (Some h) (handlers_of em r))"
proof -
  let ?s = "handlers em r"
  note ok = mgr_okD [OF assms, of r]
  have "mgr_ok (UnRegisterHandler r h em) \<and>
        handlers_of (UnRegisterHandler r h em) =
          (handlers_of em)(r := remove1 (Some h) (handlers_of em r))"
  proof (cases "find_index (Some h) (elems (arrays em) ?s)")
    case None
    then show ?thesis
      using assms find_index_None [of "Some h" "elems (arrays em) ?s"]
      by (simp add: UnRegisterHandler_def handlers_of_def fun_eq_iff remove1_idem)
  next
    case (Some i)
    obtain s' em' where d: "delete_at ?s i em = (s', em')" by (cases "delete_at ?s i em")
    note f = find_index_Some [OF Some]
    then have i: "i < slen ?s" using ok(5) by simp
    then have alone: "arr (handlers em r') \<noteq> arr ?s" if "r' \<noteq> r" for r'
      using ok(1,4) that by simp
    have fields: "arr s' = arr ?s" "slen s' = slen ?s - 1" "scap s' = scap ?s"
        "handlers em' = handlers em" "next_arr em' = next_arr em"
        "\<And>j. j \<noteq> arr ?s \<Longrightarrow> arrays em' j = arrays em j"
      using d by (auto simp: delete_at_def Let_def)
    have un: "UnRegisterHandler r h em = em'\<lparr>handlers := (handlers em)(r := s')\<rparr>"
      using d fields(4) Some by (simp add: UnRegisterHandler_def)
    note del = delete_at_elems [OF i _ d]
    have "slen ?s - 1 \<le> scap ?s" using ok(1) by simp
    then have "mgr_ok (UnRegisterHandler r h em)"
      using assms ok(2) del(2) fields alone by (auto simp: un mgr_ok_def)
    moreover have "handlers_of (UnRegisterHandler r h em) r' =
        ((handlers_of em)(r := remove1 (Some h) (handlers_of em r))) r'" for r'
      using del(1) ok(1,2) f fields(6) alone by (cases "r' = r") (simp_all add: un handlers_of_def elems_def)
    ultimately show ?thesis by (simp add: fun_eq_iff)
  qed
  then show "mgr_ok (UnRegisterHandler r h em)"
    and "handlers_of (UnRegisterHandler r h em) =
         (handlers_of em)(r := remove1 (Some h) (handlers_of em r))" by simp_all
qed

section \<open>The interface of the bus\<close>

text \<open>
  What the store relies on: registration changes the list of one route, publishing queues or
  refuses, and a worker's turn hands the oldest event to the handlers of its route.
\<close>

locale event_bus =
  fixes hs :: "'m \<Rightarrow> string \<Rightarrow> 'h option list"
    and queue :: "'m \<Rightarrow> event list"
    and reg :: "string \<Rightarrow> 'h \<Rightarrow> 'm \<Rightarrow> 'm"
    and unreg :: "string \<Rightarrow> 'h \<Rightarrow> 'm \<Rightarrow> 'm"
    and pub :: "event \<Rightarrow> 'm \<Rightarrow> bool \<times> 'm"
    and turn :: "'m \<Rightarrow> ((('h option \<times> event) list \<times> 'm) \<times> panic option) option"
    and ok :: "'m \<Rightarrow> bool"
  assumes reg_hs: "ok m \<Longrightarrow> hs (reg r h m) = (hs m)(r := hs m r @ [Some h])"
    and unreg_hs: "ok m \<Longrightarrow> hs (unreg r h m) = (hs m)(r := remove1 (Some h) (hs m r))"
    and reg_ok: "ok m \<Longrightarrow> ok (reg r h m)"
    and unreg_ok: "ok m \<Longrightarrow> ok (unreg r h m)"
    and pub_accept: "pub e m = (True, m') \<Longrightarrow> queue m' = queue m @ [e]"
    and pub_refuse: "pub e m = (False, m') \<Longrightarrow> m' = m"
    and pub_hs: "hs (snd (pub e m)) = hs m"
    and turn_None: "turn m = None \<longleftrightarrow> queue m = []"
    and turn_queue: "turn m = Some ((calls, m'), p) \<Longrightarrow> queue m = hd (queue m) # queue m'"
    and turn_calls: "turn m = Some ((calls, m'), p) \<Longrightarrow>
        calls = map (\<lambda>h. (h, hd (queue m))) (hs m (GetRoute (hd (queue m))))"
    and turn_hs: "turn m = Some ((calls, m'), p) \<Longrightarrow> hs m' = hs m"
    and turn_pool: "turn m = Some ((calls, m'), p) \<Longrightarrow> GetRoute (hd (queue m)) = KEYEVENT \<Longrightarrow>
        p = None"
begin

lemma unreg_after_reg:
  assumes "ok m" and "Some h \<notin> set (hs m r)"
  shows "hs (unreg r h (reg r h m)) = hs m"
  using assms by (simp add: unreg_hs reg_ok reg_hs remove1_append fun_eq_iff)

text \<open>A worker hands every queued key event, in order, to every handler of its route.\<close>

lemma run_delivers:
  assumes "length (queue m) \<le> n" and "\<forall>e \<in> set (queue m). GetRoute e = KEYEVENT"
  shows "fst (worker_run turn n m) =
           concat (map (\<lambda>e. map (\<lambda>h. (h, e)) (hs m KEYEVENT)) (queue m)) \<and>
         queue (fst (snd (worker_run turn n m))) = [] \<and>
         snd (snd (worker_run turn n m)) = None"
  using assms
proof (induction n arbitrary: m)
  case 0
  then show ?case by simp
next
  case (Suc n)
  show ?case
  proof (cases "turn m")
    case None
    then have "queue m = []" using turn_None [of m] by (rule iffD1 [rotated])
    with None show ?thesis by simp
  next
    case (Some t)
    obtain calls m' p where t: "turn m = Some ((calls, m'), p)"
      using Some by (metis prod.collapse)
    obtain e where q: "queue m = e # queue m'" using turn_queue [OF t] by blast
    have e: "GetRoute e = KEYEVENT" using Suc.prems(2) q by simp
    have "p = None" using turn_pool [OF t] e q by simp
    moreover have "length (queue m') \<le> n" and "\<forall>e \<in> set (queue m'). GetRoute e = KEYEVENT"
      using Suc.prems q by simp_all
    moreover have "calls = map (\<lambda>h. (h, e)) (hs m KEYEVENT)" and "hs m' = hs m"
      using turn_calls [OF t] turn_hs [OF t] e q by simp_all
    ultimately show ?thesis
      using Suc.IH [of m'] t q by (simp add: Let_def)
  qed
qed

end

interpretation mgr: event_bus handlers_of eventChan "RegisterHandler extra" UnRegisterHandler
  Publish worker_turn mgr_ok
proof unfold_locales
  fix m :: "'a event_manager" and e m' calls p
  show "Publish e m = (True, m') \<Longrightarrow> eventChan m' = eventChan m @ [e]"
    by (auto simp: Publish_def chan_send_def split: if_splits)
  show "Publish e m = (False, m') \<Longrightarrow> m' = m"
    by (auto simp: Publish_def split: option.splits)
  show "handlers_of (snd (Publish e m)) = handlers_of m"
    by (auto simp: Publish_def handlers_of_def fun_eq_iff split: option.splits)
  show "worker_turn m = None \<longleftrightarrow> eventChan m = []"
    by (auto simp: worker_turn_def chan_recv_def Let_def split: option.splits list.splits prod.splits)
  assume t: "worker_turn m = Some ((calls, m'), p)"
  then obtain e q where c: "eventChan m = e # q"
    by (auto simp: worker_turn_def chan_recv_def split: option.splits list.splits)
  show "eventChan m = hd (eventChan m) # eventChan m'"
    and "calls = map (\<lambda>h. (h, hd (eventChan m))) (handlers_of m (GetRoute (hd (eventChan m))))"
    and "handlers_of m' = handlers_of m"
    and "GetRoute (hd (eventChan m)) = KEYEVENT \<Longrightarrow> p = None"
    using t c
    by (auto simp: worker_turn_def chan_recv_def GetPool_def createNewPool_def handlers_of_def
        Let_def fun_eq_iff split: option.splits)
qed (simp_all add: RegisterHandler_ok UnRegisterHandler_ok)

section \<open>Properties of the bus\<close>

text \<open>
  C39: the registry over shared arrays refines a list of handlers per route: registering appends
  to the list of the route, unregistering removes the first occurrence from it, no other route
  is affected, and the slices stay well-formed.
\<close>

theorem registry_refines_lists:
  assumes "mgr_ok em"
  shows "mgr_ok (RegisterHandler extra r h em) \<and> mgr_ok (UnRegisterHandler r h em) \<and>
         handlers_of (RegisterHandler extra r h em) =
           (handlers_of em)(r := handlers_of em r @ [Some h]) \<and>
         handlers_of (UnRegisterHandler r h em) =
           (handlers_of em)(r := remove1 (Some h) (handlers_of em r))"
  using assms by (simp add: mgr.reg_ok mgr.unreg_ok mgr.reg_hs mgr.unreg_hs)

theorem registry_refines_lists_witness:
  "handlers_of (RegisterHandler (\<lambda>_. 0) KEYEVENT (7 :: nat) (new_manager 1 1)) =
     (handlers_of (new_manager 1 1))(KEYEVENT := [Some 7])"
  using registry_refines_lists [of "new_manager 1 1" "\<lambda>_. 0" KEYEVENT "7 :: nat"] by simp

text \<open>
  \<open>Publish\<close> never waits and never loses an accepted event: it accepts exactly when the channel
  has room, the event then is the last of the queue, and a refusal leaves the manager as it was.
\<close>

theorem Publish_accepts_iff_room:
  "(case Publish e em of (accepted, em') \<Rightarrow>
      accepted = (length (eventChan em) < chanSize em) \<and>
      eventChan em' = (if accepted then eventChan em @ [e] else eventChan em) \<and>
      em' = em\<lparr>eventChan := eventChan em'\<rparr> \<and>
      length (eventChan em') \<le> max (chanSize em) (length (eventChan em)))"
  by (auto simp: Publish_def chan_send_def split: option.splits if_splits)

text \<open>
  a worker that is given enough turns hands every queued key event, in the order it was
  published, to every handler registered for key events, in the order of registration, without
  a panic, and then waits on an empty channel.
\<close>

theorem worker_delivers_in_order:
  assumes "length (eventChan em) \<le> n" and "\<forall>e \<in> set (eventChan em). \<exists>ke. e = KeyEv ke"
  shows "fst (worker_run worker_turn n em) =
           concat (map (\<lambda>e. map (\<lambda>h. (h, e)) (handlers_of em KEYEVENT)) (eventChan em)) \<and>
         eventChan (fst (snd (worker_run worker_turn n em))) = [] \<and>
         snd (snd (worker_run worker_turn n em)) = None"
  using assms by (intro mgr.run_delivers) auto

theorem worker_delivers_in_order_witness:
  "length (fst (worker_run worker_turn 1
     (snd (Publish (KeyEv \<lparr>ke_Key = ''k'', ke_Count = 1, ke_Time = 0, ke_Allowed = True\<rparr>)
       (RegisterHandler (\<lambda>_. 0) KEYEVENT (7 :: nat) (new_manager 1 1)))))) = 1"
  using worker_delivers_in_order
    [of "snd (Publish (KeyEv \<lparr>ke_Key = ''k'', ke_Count = 1, ke_Time = 0, ke_Allowed = True\<rparr>)
       (RegisterHandler (\<lambda>_. 0) KEYEVENT (7 :: nat) (new_manager 1 1)))" 1]
  by (simp add: Publish_def chan_send_def mgr.reg_hs mgr.pub_hs RegisterHandler_def append1_def
      new_manager_def nil_slice_def handlers_of_def elems_def)

text \<open>
  an event of a route the manager does not know panics its worker: the pool of the route is
  nil, and the event is put into it.
\<close>

theorem unknown_route_panics:
  assumes "eventChan em = OtherEv r # q" and "r \<noteq> KEYEVENT" and "objPools em r = None"
  shows "\<exists>calls em'. worker_turn em = Some ((calls, em'), Some NilDereference)"
  using assms by (simp add: worker_turn_def chan_recv_def GetPool_def createNewPool_def Let_def)

theorem unknown_route_panics_witness:
  "\<exists>calls em'. worker_turn ((new_manager 1 1 :: nat event_manager)\<lparr>eventChan := [OtherEv ''x'']\<rparr>) =
     Some ((calls, em'), Some NilDereference)"
  by (rule unknown_route_panics [where r = "''x''" and q = "[]"])
    (simp_all add: new_manager_def KEYEVENT_def)

text \<open>
  C40: a worker copies the slice header under the read lock and reads its elements after it, and
  \<open>UnRegisterHandler\<close> shifts them in place: through the old header the worker then sees the
  removed handler gone but the last one twice, so one event can reach a handler two times.
\<close>

theorem unregister_shifts_under_snapshot:
  assumes "mgr_ok em" and "Some h \<in> set (handlers_of em r)"
  shows "elems (arrays (UnRegisterHandler r h em)) (handlers em r) =
         remove1 (Some h) (handlers_of em r) @ [last (handlers_of em r)]"
proof -
  let ?s = "handlers em r"
  note ok = mgr_okD [OF assms(1), of r]
  obtain i where Some: "find_index (Some h) (elems (arrays em) ?s) = Some i"
    using assms(2) find_index_None [of "Some h" "elems (arrays em) ?s"]
    by (auto simp: handlers_of_def)
  note f = find_index_Some [OF Some]
  define m where "m = slen ?s - Suc i"
  have n: "slen ?s = Suc (i + m)" using f ok(5) by (simp add: m_def)
  have a: "arrays (UnRegisterHandler r h em) (arr ?s) =
      take i (arrays em (arr ?s)) @ take m (drop (Suc i) (arrays em (arr ?s))) @
      drop (i + m) (arrays em (arr ?s))"
    using Some by (simp add: UnRegisterHandler_def delete_at_def Let_def n)
  have d: "drop (i + m) (arrays em (arr ?s)) =
      arrays em (arr ?s) ! (i + m) # drop (Suc (i + m)) (arrays em (arr ?s))"
    using ok(1,2) n by (intro Cons_nth_drop_Suc [symmetric]) simp
  have len: "i \<le> length (arrays em (arr ?s))" "m \<le> length (arrays em (arr ?s)) - Suc i"
    using ok(1,2) n by simp_all
  have "elems (arrays (UnRegisterHandler r h em)) ?s =
      take i (arrays em (arr ?s)) @ take m (drop (Suc i) (arrays em (arr ?s))) @
      [arrays em (arr ?s) ! (i + m)]"
    using len by (simp add: elems_def a n d)
  moreover have "last (handlers_of em r) = arrays em (arr ?s) ! (i + m)"
  proof -
    have "take (Suc (i + m)) (arrays em (arr ?s)) =
        take (i + m) (arrays em (arr ?s)) @ [arrays em (arr ?s) ! (i + m)]"
      using ok(1,2) n by (intro take_Suc_conv_app_nth) simp
    then show ?thesis by (simp add: handlers_of_def elems_def n)
  qed
  moreover have "remove1 (Some h) (handlers_of em r) =
      take i (arrays em (arr ?s)) @ take m (drop (Suc i) (arrays em (arr ?s)))"
    using f by (simp add: handlers_of_def elems_def n drop_take)
  ultimately show ?thesis by simp
qed

theorem unregister_shifts_under_snapshot_witness:
  "elems (arrays (UnRegisterHandler KEYEVENT (1 :: nat)
      (RegisterHandler (\<lambda>_. 0) KEYEVENT 2 (RegisterHandler (\<lambda>_. 0) KEYEVENT 1 (new_manager 1 1)))))
      (handlers (RegisterHandler (\<lambda>_. 0) KEYEVENT (2 :: nat)
        (RegisterHandler (\<lambda>_. 0) KEYEVENT 1 (new_manager 1 1))) KEYEVENT) = [Some 2, Some 2]"
  by (subst unregister_shifts_under_snapshot) (simp_all add: mgr.reg_ok mgr.reg_hs)

end
