(* ===== verification/Strconv.thy ===== *)
theory Strconv
  imports Prelude
begin

text \<open>
  What the code uses of Go's strings and strconv packages: \<open>strconv.Atoi\<close>, \<open>strconv.Itoa\<close>,
  \<open>strings.Split(s, ",")\<close> and the test \<open>strings.TrimSpace(s) == ""\<close>. A Go string is a byte
  string: a \<open>char list\<close>.
\<close>

section \<open>Decimal numbers\<close>

definition digit_char :: "nat \<Rightarrow> char" where
  "digit_char d = char_of (48 + d)"

definition digit_val :: "char \<Rightarrow> nat option" where
  "digit_val c = (let n = of_char c in if 48 \<le> n \<and> n \<le> 57 then Some (n - 48) else None)"

fun parse_digits :: "nat \<Rightarrow> string \<Rightarrow> nat option" where
  "parse_digits acc [] = Some acc"
| "parse_digits acc (c # cs) =
     (case digit_val c of None \<Rightarrow> None | Some d \<Rightarrow> parse_digits (acc * 10 + d) cs)"

text \<open>
  An optional sign, at least one digit, nothing else, and a value that fits \<open>int\<close>; everything
  else is an error, \<^const>\<open>None\<close> (the callers ignore the value that comes with an error).
\<close>

definition Atoi :: "string \<Rightarrow> i64 option" where
  "Atoi s =
     (let (neg, ds) =
        (case s of
           [] \<Rightarrow> (False, [])
         | c # cs \<Rightarrow>
             if c = CHR ''-'' then (True, cs) else if c = CHR ''+'' then (False, cs) else (False, s))
      in if ds = [] then None
         else case parse_digits 0 ds of
                None \<Rightarrow> None
              | Some n \<Rightarrow>
                  let z = (if neg then - int n else int n)
                  in if - 9223372036854775808 \<le> z \<and> z \<le> 9223372036854775807
                     then Some (word_of_int z) else None)"

fun show_nat :: "nat \<Rightarrow> string" where
  "show_nat n = (if n < 10 then [digit_char n] else show_nat (n div 10) @ [digit_char (n mod 10)])"

declare show_nat.simps [simp del]

definition Itoa :: "i64 \<Rightarrow> string" where
  "Itoa n = (if n <s 0 then CHR ''-'' # show_nat (nat (- sint n)) else show_nat (nat (sint n)))"

lemma digit_val_char [simp]: "d < 10 \<Longrightarrow> digit_val (digit_char d) = Some d"
  by (simp add: digit_val_def digit_char_def Let_def)

lemma parse_digits_append:
  "parse_digits acc (xs @ ys) = Option.bind (parse_digits acc xs) (\<lambda>a. parse_digits a ys)"
  by (induction xs arbitrary: acc) (auto split: option.splits)

lemma parse_show_nat: "parse_digits acc (show_nat n) = Some (acc * 10 ^ length (show_nat n) + n)"
proof (induction n arbitrary: acc rule: show_nat.induct)
  case (1 n)
  show ?case
  proof (cases "n < 10")
    case True
    then show ?thesis by (simp add: show_nat.simps [of n])
  next
    case False
    then have "parse_digits acc (show_nat (n div 10)) =
        Some (acc * 10 ^ length (show_nat (n div 10)) + n div 10)" by (rule 1)
    with False show ?thesis
      by (simp add: show_nat.simps [of n] parse_digits_append algebra_simps)
  qed
qed

lemma show_nat_hd:
  "\<exists>c cs. show_nat n = c # cs \<and> c \<noteq> CHR ''-'' \<and> c \<noteq> CHR ''+''"
proof (induction n rule: show_nat.induct)
  case (1 n)
  have c: "digit_char d \<noteq> CHR ''-'' \<and> digit_char d \<noteq> CHR ''+''" if "d < 10" for d
  proof -
    have "digit_val (digit_char d) \<noteq> digit_val (CHR ''-'')"
      and "digit_val (digit_char d) \<noteq> digit_val (CHR ''+'')"
      using that by (simp_all add: digit_val_def [of "CHR ''-''"] digit_val_def [of "CHR ''+''"])
    then show ?thesis by auto
  qed
  show ?case
  proof (cases "n < 10")
    case True
    then show ?thesis using c by (simp add: show_nat.simps [of n])
  next
    case False
    with 1 show ?thesis by (auto simp: show_nat.simps [of n])
  qed
qed

text \<open>
  the two conversions are inverse on every 64-bit integer: the port that the main program
  turns into text is the one that is read back.
\<close>

theorem Atoi_Itoa: "Atoi (Itoa n) = Some n"
proof -
  obtain c cs where s: "show_nat (nat \<bar>sint n\<bar>) = c # cs" and c: "c \<noteq> CHR ''-''" "c \<noteq> CHR ''+''"
    using show_nat_hd by blast
  have p: "parse_digits 0 (c # cs) = Some (nat \<bar>sint n\<bar>)"
    using parse_show_nat [of 0 "nat \<bar>sint n\<bar>"] by (simp only: s mult_zero_left add_0)
  show ?thesis
  proof (cases "n <s 0")
    case True
    then have "Itoa n = CHR ''-'' # c # cs" and "nat \<bar>sint n\<bar> = nat (- sint n)"
      using s by (simp_all add: Itoa_def signed_less)
    then show ?thesis
      using p True sint64_bounds [of n] by (simp add: Atoi_def signed_less del: parse_digits.simps)
  next
    case False
    then have "Itoa n = c # cs" and "nat \<bar>sint n\<bar> = nat (sint n)"
      using s by (simp_all add: Itoa_def signed_less)
    then show ?thesis
      using p c False sint64_bounds [of n] by (simp add: Atoi_def signed_less del: parse_digits.simps)
  qed
qed

section \<open>Splitting at commas\<close>

fun split_comma :: "string \<Rightarrow> string list" where
  "split_comma [] = [[]]"
| "split_comma (c # cs) =
     (if c = CHR '','' then [] # split_comma cs
      else case split_comma cs of [] \<Rightarrow> [[c]] | w # ws \<Rightarrow> (c # w) # ws)"

lemma split_comma_nonempty [simp]: "split_comma s \<noteq> []"
  by (induction s) (auto split: list.splits)

lemma split_comma_length: "length (split_comma s) = Suc (count_list s (CHR '',''))"
  by (induction s) (auto split: list.splits)

section \<open>Blank strings\<close>

text \<open>
  \<open>TrimSpace(s) == ""\<close>: the string is a sequence of UTF-8 encodings of white space (U+0009 to
  U+000D, U+0020, U+0085, U+00A0, U+1680, U+2000 to U+200A, U+2028, U+2029, U+202F, U+205F,
  U+3000). A byte that starts none of them is a rune that is kept.
\<close>

definition byte :: "char \<Rightarrow> nat" where
  "byte c = of_char c"

fun blank :: "string \<Rightarrow> bool" where
  "blank [] = True"
| "blank (a # s) =
     (if 9 \<le> byte a \<and> byte a \<le> 13 \<or> byte a = 32 then blank s
      else case s of
             [] \<Rightarrow> False
           | b # s' \<Rightarrow>
               if byte a = 194 then (byte b = 133 \<or> byte b = 160) \<and> blank s'
               else case s' of
                      [] \<Rightarrow> False
                    | c # s'' \<Rightarrow>
                        (byte a = 225 \<and> byte b = 154 \<and> byte c = 128 \<or>
                         byte a = 226 \<and> byte b = 128 \<and>
                           (128 \<le> byte c \<and> byte c \<le> 138 \<or> byte c = 168 \<or> byte c = 169 \<or> byte c = 175) \<or>
                         byte a = 226 \<and> byte b = 129 \<and> byte c = 159 \<or>
                         byte a = 227 \<and> byte b = 128 \<and> byte c = 128) \<and> blank s'')"

end
