(* ===== verification/Options.thy ===== *)
theory Options
  imports Clock Strconv
begin

text \<open>
  The options of a store (store/store.go): the record, its defaults, the functional options and
  the loop of \<open>NewStore\<close> that applies them; and the part of the main program (golimitV3.go) that
  turns a configuration file into options and chooses the HTTP listener.

  A Go \<open>int\<close> is an \<^typ>\<open>i64\<close>, a \<open>float32\<close> is its bit pattern, a pointer that may be nil is an
  \<^typ>\<open>'a option\<close>. \<open>'tc\<close> and \<open>'rp\<close> are the types of TChannels and of Ringpops, which are not the
  repository's. \<open>hostname\<close> is what \<open>os.Hostname\<close> gave at package initialisation.
\<close>

section \<open>Store options\<close>

record ('tc, 'rp) options =
  clusterName :: "string"
  nodeId :: "string"
  tchannelport :: "string"
  hostAddr :: "string"
  seed :: "string"
  syncBuffer :: "i64"
  buckets :: "i64"
  statsDEnabled :: "bool"
  httpPort :: "string"
  unixSocks :: "string option"
  httpOnUnixSocks :: "bool"
  unsyncedCtrLimit :: "i32"
  unsyncedTimeLimit :: "i64"
  statsDHostPort :: "string"
  statsDSampleRate :: "u32"
  statsDBucket :: "string"
  gcInterval :: "i64"
  apiSecret :: "string"
  gcGrace :: "i64"
  tchannel :: "'tc option"
  ringpop :: "'rp option"
  opt_clock :: "clock"
  configDir :: "string"

definition defaultOptions :: "string \<Rightarrow> clock \<Rightarrow> ('tc, 'rp) options" where
  "defaultOptions hostname realClock =
     \<lparr>clusterName = ''golimit'', nodeId = [], tchannelport = ''2479'', hostAddr = ''0.0.0.0'',
      seed = hostname @ '':2479'', syncBuffer = 1000000, buckets = 1000, statsDEnabled = False,
      httpPort = ''7289'', unixSocks = None, httpOnUnixSocks = False, unsyncedCtrLimit = 10,
      unsyncedTimeLimit = 30000, statsDHostPort = [], statsDSampleRate = 953267991,
      statsDBucket = ''golimit'', gcInterval = 1800000, apiSecret = ''pingpong'', gcGrace = 1800000,
      tchannel = None, ringpop = None, opt_clock = realClock, configDir = []\<rparr>"

type_synonym ('tc, 'rp) Option = "('tc, 'rp) options \<Rightarrow> ('tc, 'rp) options"

definition WithRingpop :: "'rp \<Rightarrow> ('tc, 'rp) Option" where
  "WithRingpop x o' = o'\<lparr>ringpop := Some x\<rparr>"

definition WithTChannel :: "'tc \<Rightarrow> ('tc, 'rp) Option" where
  "WithTChannel x o' = o'\<lparr>tchannel := Some x\<rparr>"

definition WithClock :: "clock \<Rightarrow> ('tc, 'rp) Option" where
  "WithClock x o' = o'\<lparr>opt_clock := x\<rparr>"

definition WithApiSecret :: "string \<Rightarrow> ('tc, 'rp) Option" where
  "WithApiSecret x o' = o'\<lparr>apiSecret := x\<rparr>"

definition WithGcGrace :: "i64 \<Rightarrow> ('tc, 'rp) Option" where
  "WithGcGrace x o' = o'\<lparr>gcGrace := x\<rparr>"

definition WithGcInterval :: "i64 \<Rightarrow> ('tc, 'rp) Option" where
  "WithGcInterval x o' = o'\<lparr>gcInterval := x\<rparr>"

definition WithStatsDBucket :: "string \<Rightarrow> ('tc, 'rp) Option" where
  "WithStatsDBucket x o' = o'\<lparr>statsDBucket := x\<rparr>"

definition WithStatsDSampleRate :: "u32 \<Rightarrow> ('tc, 'rp) Option" where
  "WithStatsDSampleRate x o' = o'\<lparr>statsDSampleRate := x\<rparr>"

definition WithStatsDHostPort :: "string \<Rightarrow> ('tc, 'rp) Option" where
  "WithStatsDHostPort x o' = o'\<lparr>statsDHostPort := x\<rparr>"

definition WithUnsyncedTimeLimit :: "i64 \<Rightarrow> ('tc, 'rp) Option" where
  "WithUnsyncedTimeLimit x o' = o'\<lparr>unsyncedTimeLimit := x\<rparr>"

definition WithUnsyncedCtrLimit :: "i32 \<Rightarrow> ('tc, 'rp) Option" where
  "WithUnsyncedCtrLimit x o' = o'\<lparr>unsyncedCtrLimit := x\<rparr>"

definition WithHttpPort :: "string \<Rightarrow> ('tc, 'rp) Option" where
  "WithHttpPort x o' = o'\<lparr>httpPort := x\<rparr>"

definition WithEnableHttpOnUnixSocket :: "bool \<Rightarrow> ('tc, 'rp) Option" where
  "WithEnableHttpOnUnixSocket x o' = o'\<lparr>httpOnUnixSocks := x\<rparr>"

definition WithUnixSocket :: "string \<Rightarrow> ('tc, 'rp) Option" where
  "WithUnixSocket x o' = o'\<lparr>unixSocks := Some x\<rparr>"

definition WithStatDEnabled :: "bool \<Rightarrow> ('tc, 'rp) Option" where
  "WithStatDEnabled x o' = o'\<lparr>statsDEnabled := x\<rparr>"

definition WithBucketSize :: "i64 \<Rightarrow> ('tc, 'rp) Option" where
  "WithBucketSize x o' = o'\<lparr>buckets := x\<rparr>"

definition WithSyncBuffer :: "i64 \<Rightarrow> ('tc, 'rp) Option" where
  "WithSyncBuffer x o' = o'\<lparr>syncBuffer := x\<rparr>"

definition WithSeed :: "string \<Rightarrow> ('tc, 'rp) Option" where
  "WithSeed x o' = o'\<lparr>seed := x\<rparr>"

definition WithTChannelPort :: "string \<Rightarrow> ('tc, 'rp) Option" where
  "WithTChannelPort x o' = o'\<lparr>tchannelport := x\<rparr>"

definition WithHostAddr :: "string \<Rightarrow> ('tc, 'rp) Option" where
  "WithHostAddr x o' = o'\<lparr>hostAddr := x\<rparr>"

definition WithClusterName :: "string \<Rightarrow> ('tc, 'rp) Option" where
  "WithClusterName x o' = o'\<lparr>clusterName := x\<rparr>"

definition WithNodeId :: "string \<Rightarrow> ('tc, 'rp) Option" where
  "WithNodeId x o' = o'\<lparr>nodeId := x\<rparr>"

definition WithConfigDir :: "string \<Rightarrow> ('tc, 'rp) Option" where
  "WithConfigDir x o' = o'\<lparr>configDir := x\<rparr>"

lemmas With_defs =
  WithRingpop_def WithTChannel_def WithClock_def WithApiSecret_def
  WithGcGrace_def WithGcInterval_def WithStatsDBucket_def WithStatsDSampleRate_def
  WithStatsDHostPort_def WithUnsyncedTimeLimit_def WithUnsyncedCtrLimit_def WithHttpPort_def
  WithEnableHttpOnUnixSocket_def WithUnixSocket_def WithStatDEnabled_def WithBucketSize_def
  WithSyncBuffer_def WithSeed_def WithTChannelPort_def WithHostAddr_def
  WithClusterName_def WithNodeId_def WithConfigDir_def

text \<open>The loop at the start of \<open>NewStore\<close>: later options win.\<close>

definition apply_options :: "('tc, 'rp) Option list \<Rightarrow> ('tc, 'rp) options \<Rightarrow> ('tc, 'rp) options" where
  "apply_options opt opts = fold (\<lambda>f o'. f o') opt opts"

section \<open>From the configuration file to options\<close>

record StoreConfig =
  ClusterName :: "string option"
  HostName :: "string option"
  TChannelPort :: "string option"
  Seed :: "string option"
  SyncBuffer :: "i64 option"
  NodeId :: "string option"
  Buckets :: "i64 option"
  StatsDEnabled :: "bool option"
  HttpPort :: "i64 option"
  UnixSocket :: "string option"
  UnixSocketEnable :: "bool option"
  UnsyncedCtrLimit :: "i32 option"
  UnsyncedTimeLimit :: "i64 option"
  StatsDHostPort :: "string option"
  StatsDSampleRate :: "u32 option"
  StatsDBucket :: "string option"
  GcInterval :: "i64 option"
  ApiSecret :: "string option"
  GcGrace :: "i64 option"

text \<open>\<open>if p != nil { opt = append(opt, With(*p)) }\<close>.\<close>

definition add_option :: "('a \<Rightarrow> 'o) \<Rightarrow> 'a option \<Rightarrow> 'o list \<Rightarrow> 'o list" where
  "add_option With p opt = (case p of None \<Rightarrow> opt | Some x \<Rightarrow> opt @ [With x])"

definition configured_options ::
  "StoreConfig \<Rightarrow> ('tc, 'rp) Option list \<Rightarrow> ('tc, 'rp) Option list" where
  "configured_options cfg opt =
     (let opt = add_option WithClusterName (ClusterName cfg) opt;
          opt = add_option WithSeed (Seed cfg) opt;
          opt = add_option WithTChannelPort (TChannelPort cfg) opt;
          opt = add_option (\<lambda>p. WithHttpPort (Itoa p)) (HttpPort cfg) opt;
          opt = add_option WithApiSecret (ApiSecret cfg) opt;
          opt = add_option WithBucketSize (Buckets cfg) opt;
          opt = add_option WithGcGrace (GcGrace cfg) opt;
          opt = add_option WithGcInterval (GcInterval cfg) opt;
          opt = add_option WithStatsDBucket (StatsDBucket cfg) opt;
          opt = add_option WithStatsDHostPort (StatsDHostPort cfg) opt;
          opt = add_option WithStatDEnabled (StatsDEnabled cfg) opt;
          opt = add_option WithStatsDSampleRate (StatsDSampleRate cfg) opt;
          opt = add_option WithSyncBuffer (SyncBuffer cfg) opt;
          opt = add_option WithUnsyncedCtrLimit (UnsyncedCtrLimit cfg) opt;
          opt = add_option WithUnsyncedTimeLimit (UnsyncedTimeLimit cfg) opt;
          opt = add_option WithEnableHttpOnUnixSocket (UnixSocketEnable cfg) opt;
          opt = add_option WithUnixSocket (UnixSocket cfg) opt
      in add_option WithNodeId (NodeId cfg) opt)"

text \<open>
  The option list of the main program. Its first test asks for the seed but dereferences the
  TChannel port.
\<close>

definition main_options :: "StoreConfig \<Rightarrow> panic + ('tc, 'rp) Option list" where
  "main_options cfg =
     (case Seed cfg of
        None \<Rightarrow> Inr (configured_options cfg [])
      | Some _ \<Rightarrow>
          (case TChannelPort cfg of
             None \<Rightarrow> Inl NilDereference
           | Some port \<Rightarrow> Inr (configured_options cfg [WithTChannelPort port])))"

text \<open>
  The host name of the configuration: the file's, unless it is missing or blank, else the
  system's; an error of \<open>os.Hostname\<close> (\<^const>\<open>None\<close>) panics.
\<close>

definition main_hostname :: "string option \<Rightarrow> StoreConfig \<Rightarrow> panic + StoreConfig" where
  "main_hostname os_hostname cfg =
     (if (case HostName cfg of None \<Rightarrow> True | Some h \<Rightarrow> blank h) then
        (case os_hostname of
           None \<Rightarrow> Inl (Panic ''hostname'')
         | Some h \<Rightarrow> Inr (cfg\<lparr>HostName := Some h\<rparr>))
      else Inr cfg)"

text \<open>The HTTP listener: on the Unix socket if that is enabled, else on the TCP port.\<close>

datatype listener = OnUnixSocket string | OnTcp i64 string

definition main_listener :: "StoreConfig \<Rightarrow> panic + listener" where
  "main_listener cfg =
     (if UnixSocketEnable cfg = Some True then
        (case UnixSocket cfg of None \<Rightarrow> Inl NilDereference | Some f \<Rightarrow> Inr (OnUnixSocket f))
      else
        (case HttpPort cfg of
           None \<Rightarrow> Inl NilDereference
         | Some p \<Rightarrow>
             (case HostName cfg of None \<Rightarrow> Inl NilDereference | Some h \<Rightarrow> Inr (OnTcp p h))))"

section \<open>Properties\<close>

lemma apply_options_Nil [simp]: "apply_options [] o' = o'"
  by (simp add: apply_options_def)

lemma apply_options_append [simp]:
  "apply_options (fs @ gs) o' = apply_options gs (apply_options fs o')"
  by (simp add: apply_options_def)

lemma apply_options_single [simp]: "apply_options [f] o' = f o'"
  by (simp add: apply_options_def)

lemma apply_add_option:
  "apply_options (add_option W p opt) o' =
     (case p of None \<Rightarrow> apply_options opt o' | Some x \<Rightarrow> W x (apply_options opt o'))"
  by (simp add: add_option_def split: option.splits)

text \<open>The value of an option, or what stands without it.\<close>

definition or_default :: "'a \<Rightarrow> 'a option \<Rightarrow> 'a" where
  "or_default d p = (case p of None \<Rightarrow> d | Some x \<Rightarrow> x)"

lemma default_simps [simp]: "or_default d None = d" "or_default d (Some x) = x"
  by (simp_all add: or_default_def)

text \<open>What each conditional option of the main program does to the options.\<close>

lemma apply_add_With:
  "apply_options (add_option WithTChannelPort ps opt) o' =
     tchannelport_update (\<lambda>v. or_default v ps) (apply_options opt o')"
  "apply_options (add_option WithClusterName ps opt) o' =
     clusterName_update (\<lambda>v. or_default v ps) (apply_options opt o')"
  "apply_options (add_option WithSeed ps opt) o' =
     seed_update (\<lambda>v. or_default v ps) (apply_options opt o')"
  "apply_options (add_option WithApiSecret ps opt) o' =
     apiSecret_update (\<lambda>v. or_default v ps) (apply_options opt o')"
  "apply_options (add_option WithBucketSize pl opt) o' =
     buckets_update (\<lambda>v. or_default v pl) (apply_options opt o')"
  "apply_options (add_option WithGcGrace pl opt) o' =
     gcGrace_update (\<lambda>v. or_default v pl) (apply_options opt o')"
  "apply_options (add_option WithGcInterval pl opt) o' =
     gcInterval_update (\<lambda>v. or_default v pl) (apply_options opt o')"
  "apply_options (add_option WithStatsDBucket ps opt) o' =
     statsDBucket_update (\<lambda>v. or_default v ps) (apply_options opt o')"
  "apply_options (add_option WithStatsDHostPort ps opt) o' =
     statsDHostPort_update (\<lambda>v. or_default v ps) (apply_options opt o')"
  "apply_options (add_option WithStatDEnabled pb opt) o' =
     statsDEnabled_update (\<lambda>v. or_default v pb) (apply_options opt o')"
  "apply_options (add_option WithStatsDSampleRate pu opt) o' =
     statsDSampleRate_update (\<lambda>v. or_default v pu) (apply_options opt o')"
  "apply_options (add_option WithSyncBuffer pl opt) o' =
     syncBuffer_update (\<lambda>v. or_default v pl) (apply_options opt o')"
  "apply_options (add_option WithUnsyncedCtrLimit pi opt) o' =
     unsyncedCtrLimit_update (\<lambda>v. or_default v pi) (apply_options opt o')"
  "apply_options (add_option WithUnsyncedTimeLimit pl opt) o' =
     unsyncedTimeLimit_update (\<lambda>v. or_default v pl) (apply_options opt o')"
  "apply_options (add_option WithEnableHttpOnUnixSocket pb opt) o' =
     httpOnUnixSocks_update (\<lambda>v. or_default v pb) (apply_options opt o')"
  "apply_options (add_option WithNodeId ps opt) o' =
     nodeId_update (\<lambda>v. or_default v ps) (apply_options opt o')"
  "apply_options (add_option (\<lambda>p. WithHttpPort (Itoa p)) q opt) o' =
     httpPort_update (\<lambda>v. or_default v (map_option Itoa q)) (apply_options opt o')"
  "apply_options (add_option WithUnixSocket u opt) o' =
     unixSocks_update (\<lambda>v. or_default v (map_option Some u)) (apply_options opt o')"
  by (simp_all add: apply_add_option With_defs or_default_def split: option.splits)

lemma apply_configured_options:
  fixes opt :: "('tc, 'rp) Option list" and o' :: "('tc, 'rp) options" and cfg :: StoreConfig
  defines "opts \<equiv> apply_options opt o'"
  shows "apply_options (configured_options cfg opt) o' = opts\<lparr>
     clusterName := or_default (clusterName opts) (ClusterName cfg),
     seed := or_default (seed opts) (Seed cfg),
     tchannelport := or_default (tchannelport opts) (TChannelPort cfg),
     httpPort := or_default (httpPort opts) (map_option Itoa (HttpPort cfg)),
     apiSecret := or_default (apiSecret opts) (ApiSecret cfg),
     buckets := or_default (buckets opts) (Buckets cfg),
     gcGrace := or_default (gcGrace opts) (GcGrace cfg),
     gcInterval := or_default (gcInterval opts) (GcInterval cfg),
     statsDBucket := or_default (statsDBucket opts) (StatsDBucket cfg),
     statsDHostPort := or_default (statsDHostPort opts) (StatsDHostPort cfg),
     statsDEnabled := or_default (statsDEnabled opts) (StatsDEnabled cfg),
     statsDSampleRate := or_default (statsDSampleRate opts) (StatsDSampleRate cfg),
     syncBuffer := or_default (syncBuffer opts) (SyncBuffer cfg),
     unsyncedCtrLimit := or_default (unsyncedCtrLimit opts) (UnsyncedCtrLimit cfg),
     unsyncedTimeLimit := or_default (unsyncedTimeLimit opts) (UnsyncedTimeLimit cfg),
     httpOnUnixSocks := or_default (httpOnUnixSocks opts) (UnixSocketEnable cfg),
     unixSocks := or_default (unixSocks opts) (map_option Some (UnixSocket cfg)),
     nodeId := or_default (nodeId opts) (NodeId cfg)\<rparr>"
proof -
  obtain r where r: "apply_options opt o' = r" by blast
  show ?thesis
    unfolding configured_options_def Let_def apply_add_With opts_def r
    by (cases r) simp
qed

text \<open>
  the main program passes its configuration on unchanged: when the options can be built, the
  store's options are the defaults with exactly the configured fields replaced (the host name
  and what only a Go program can set keep their defaults).
\<close>

theorem main_options_pass_configuration:
  fixes opts :: "('tc, 'rp) options"
  assumes "main_options cfg = Inr (fs :: ('tc, 'rp) Option list)"
  shows "apply_options fs opts = opts\<lparr>
     clusterName := or_default (clusterName opts) (ClusterName cfg),
     seed := or_default (seed opts) (Seed cfg),
     tchannelport := or_default (tchannelport opts) (TChannelPort cfg),
     httpPort := or_default (httpPort opts) (map_option Itoa (HttpPort cfg)),
     apiSecret := or_default (apiSecret opts) (ApiSecret cfg),
     buckets := or_default (buckets opts) (Buckets cfg),
     gcGrace := or_default (gcGrace opts) (GcGrace cfg),
     gcInterval := or_default (gcInterval opts) (GcInterval cfg),
     statsDBucket := or_default (statsDBucket opts) (StatsDBucket cfg),
     statsDHostPort := or_default (statsDHostPort opts) (StatsDHostPort cfg),
     statsDEnabled := or_default (statsDEnabled opts) (StatsDEnabled cfg),
     statsDSampleRate := or_default (statsDSampleRate opts) (StatsDSampleRate cfg),
     syncBuffer := or_default (syncBuffer opts) (SyncBuffer cfg),
     unsyncedCtrLimit := or_default (unsyncedCtrLimit opts) (UnsyncedCtrLimit cfg),
     unsyncedTimeLimit := or_default (unsyncedTimeLimit opts) (UnsyncedTimeLimit cfg),
     httpOnUnixSocks := or_default (httpOnUnixSocks opts) (UnixSocketEnable cfg),
     unixSocks := or_default (unixSocks opts) (map_option Some (UnixSocket cfg)),
     nodeId := or_default (nodeId opts) (NodeId cfg)\<rparr>"
proof (cases "Seed cfg")
  case None
  with assms have "fs = configured_options cfg []" by (simp add: main_options_def)
  then show ?thesis by (simp add: apply_configured_options)
next
  case (Some sd)
  with assms obtain p where p: "TChannelPort cfg = Some p"
      "fs = configured_options cfg [WithTChannelPort p]"
    by (auto simp: main_options_def split: option.splits)
  then show ?thesis
    by (simp add: apply_configured_options WithTChannelPort_def)
qed

theorem main_options_pass_configuration_witness:
  "\<exists>fs. main_options \<lparr>ClusterName = Some ''c'', HostName = None, TChannelPort = Some ''1'',
       Seed = Some ''s'', SyncBuffer = None, NodeId = None, Buckets = Some 8, StatsDEnabled = None,
       HttpPort = Some 80, UnixSocket = None, UnixSocketEnable = None, UnsyncedCtrLimit = Some 5,
       UnsyncedTimeLimit = None, StatsDHostPort = None, StatsDSampleRate = None,
       StatsDBucket = None, GcInterval = None, ApiSecret = None, GcGrace = None\<rparr> = Inr fs \<and>
     buckets (apply_options fs (defaultOptions ''h'' (UnReal \<lparr>current = 0\<rparr>) ::
       (unit, unit) options)) = 8"
  (is "\<exists>fs. main_options ?cfg = Inr fs \<and> _ fs")
proof -
  obtain fs :: "(unit, unit) Option list" where fs: "main_options ?cfg = Inr fs"
    by (simp add: main_options_def)
  show ?thesis
    using main_options_pass_configuration [OF fs, of "defaultOptions ''h'' (UnReal \<lparr>current = 0\<rparr>)"] fs
    by simp
qed

text \<open>
  building the options fails in exactly one case: a seed without a TChannel port, which is
  a nil dereference at start-up.
\<close>

theorem main_options_panics_iff:
  "main_options cfg = (Inl e :: panic + ('tc, 'rp) Option list) \<longleftrightarrow>
     Seed cfg \<noteq> None \<and> TChannelPort cfg = None \<and> e = NilDereference"
  by (auto simp: main_options_def split: option.splits)

end
