(* ===== verification/SyncWorker.thy ===== *)
theory SyncWorker
  imports Prelude "HOL-Library.AList" "HOL-Library.Multiset"
begin

text \<open>
  The synchroniser of store/store.go (\<open>startSyncWorker\<close>): a goroutine that aggregates the
  \<open>SyncCommand\<close>s of the store's channel per key and hands a batch to the cluster when a forced
  command arrives, a pending count passes the limit, the timer fires or the channel is closed.

  This theory has the commands as values; that they are pointers into a pool, and what comes of
  that, is in theory \<open>SyncPool\<close>. The order in which Go ranges over the pending map is not
  determined: it is the parameter \<open>ro\<close>, of which only that it permutes is ever assumed.
\<close>

section \<open>State and one turn\<close>

record SyncCommand =
  sc_Key :: string
  sc_Count :: i32
  sc_Expiry :: i64
  sc_Force :: bool

type_synonym pending = "(string \<times> SyncCommand) list"

text \<open>What wakes the worker: a command or the close of the channel, or the timer.\<close>

datatype sync_event = Received SyncCommand | ChannelClosed | TimerFired

text \<open>The aggregation of one command into the pending map.\<close>

definition aggregate :: "SyncCommand \<Rightarrow> pending \<Rightarrow> pending" where
  "aggregate sCmd m =
     (case map_of m (sc_Key sCmd) of
        None \<Rightarrow> AList.update (sc_Key sCmd) sCmd m
      | Some old \<Rightarrow>
          if sc_Expiry sCmd = sc_Expiry old
          then AList.update (sc_Key sCmd) (old\<lparr>sc_Count := sc_Count old + sc_Count sCmd\<rparr>) m
          else AList.update (sc_Key sCmd) sCmd m)"

text \<open>
  One turn of the loop: the new pending map, the batch handed to \<open>sendSyncCommandToNodes\<close> if
  any, and whether the loop ends.
\<close>

definition sync_turn ::
  "(pending \<Rightarrow> pending) \<Rightarrow> i32 \<Rightarrow> pending \<Rightarrow> sync_event \<Rightarrow> pending \<times> SyncCommand list option \<times> bool" where
  "sync_turn ro ctrLimit m ev =
     (let (m, send, close) =
        (case ev of
           Received sCmd \<Rightarrow>
             let send = sc_Force sCmd;
                 m = aggregate sCmd m;
                 send = (if ctrLimit <s sc_Count (the (map_of m (sc_Key sCmd))) \<or> send
                         then True else send)
             in (m, send, False)
         | ChannelClosed \<Rightarrow> (m, True, True)
         | TimerFired \<Rightarrow> (m, True, False))
      in if send \<and> 0 < length m then ([], Some (map snd (ro m)), close) else (m, None, close))"

text \<open>The loop, over the events that wake it; it ends at the close of the channel.\<close>

fun sync_loop ::
  "('m \<Rightarrow> sync_event \<Rightarrow> 'm \<times> SyncCommand list option \<times> bool) \<Rightarrow> 'm \<Rightarrow> sync_event list \<Rightarrow>
   'm \<times> SyncCommand list list" where
  "sync_loop turn m [] = (m, [])"
| "sync_loop turn m (ev # evs) =
     (case turn m ev of
        (m', batch, close) \<Rightarrow>
          (let out = (case batch of None \<Rightarrow> [] | Some b \<Rightarrow> [b])
           in if close then (m', out)
              else let rest = sync_loop turn m' evs in (fst rest, out @ snd rest)))"

definition startSyncWorker ::
  "(pending \<Rightarrow> pending) \<Rightarrow> i32 \<Rightarrow> sync_event list \<Rightarrow> pending \<times> SyncCommand list list" where
  "startSyncWorker ro ctrLimit evs = sync_loop (sync_turn ro ctrLimit) [] evs"

section \<open>The pending map\<close>

text \<open>One entry per key, filed under its own key, and no count beyond the limit.\<close>

definition filed :: "pending \<Rightarrow> bool" where
  "filed m \<longleftrightarrow> distinct (map fst m) \<and> (\<forall>(k, c) \<in> set m. sc_Key c = k)"

definition pending_ok :: "i32 \<Rightarrow> pending \<Rightarrow> bool" where
  "pending_ok ctrLimit m \<longleftrightarrow> filed m \<and> (\<forall>c \<in> set (map snd m). sc_Count c \<le>s ctrLimit)"

definition permutes_pending :: "(pending \<Rightarrow> pending) \<Rightarrow> bool" where
  "permutes_pending ro \<longleftrightarrow> (\<forall>m. mset (ro m) = mset m)"

lemma permutes_pendingD: "permutes_pending ro \<Longrightarrow> mset (ro m) = mset m"
  by (simp add: permutes_pending_def)

lemma pending_ok_Nil [simp]: "pending_ok ctrLimit []"
  by (simp add: pending_ok_def filed_def)

text \<open>\<open>aggregate\<close> changes one entry; which one it becomes.\<close>

definition merged :: "SyncCommand \<Rightarrow> pending \<Rightarrow> SyncCommand" where
  "merged sCmd m =
     (case map_of m (sc_Key sCmd) of
        Some old \<Rightarrow>
          if sc_Expiry sCmd = sc_Expiry old
          then old\<lparr>sc_Count := sc_Count old + sc_Count sCmd\<rparr> else sCmd
      | None \<Rightarrow> sCmd)"

lemma aggregate_eq: "aggregate sCmd m = AList.update (sc_Key sCmd) (merged sCmd m) m"
  by (simp add: aggregate_def merged_def split: option.splits)

lemma map_of_aggregate: "map_of (aggregate sCmd m) = (map_of m)(sc_Key sCmd \<mapsto> merged sCmd m)"
  by (simp add: aggregate_eq update_conv')

lemma distinct_aggregate: "distinct (map fst m) \<Longrightarrow> distinct (map fst (aggregate sCmd m))"
  by (simp add: aggregate_eq distinct_update)

lemma aggregate_nonempty [simp]: "aggregate sCmd m \<noteq> []"
  using fun_cong [OF map_of_aggregate [of sCmd m], of "sc_Key sCmd"]
  by (cases "aggregate sCmd m") auto

lemma merged_key: "filed m \<Longrightarrow> sc_Key (merged sCmd m) = sc_Key sCmd"
  using map_of_SomeD [of m "sc_Key sCmd"]
  by (fastforce simp: merged_def filed_def split: option.splits)

lemma set_aggregate:
  assumes "filed m" and "(k, c) \<in> set (aggregate sCmd m)"
  shows "(k, c) = (sc_Key sCmd, merged sCmd m) \<or> k \<noteq> sc_Key sCmd \<and> (k, c) \<in> set m"
proof -
  have "map_of (aggregate sCmd m) k = Some c"
    using assms by (simp add: filed_def distinct_aggregate)
  then show ?thesis
    using map_of_SomeD [of m k c] by (auto simp: map_of_aggregate split: if_splits)
qed

lemma filed_aggregate: "filed m \<Longrightarrow> filed (aggregate sCmd m)"
  using set_aggregate [of m _ _ sCmd] merged_key [of m sCmd]
  by (fastforce simp: filed_def distinct_aggregate)

lemma set_snd_aggregate:
  "filed m \<Longrightarrow> c \<in> snd ` set (aggregate sCmd m) \<Longrightarrow> c = merged sCmd m \<or> c \<in> snd ` set m"
  using set_aggregate [of m _ _ sCmd] by force

text \<open>Every turn keeps the map well-formed.\<close>

lemma sync_turn_ok:
  assumes "pending_ok ctrLimit m"
  shows "pending_ok ctrLimit (fst (sync_turn ro ctrLimit m ev))"
proof (cases ev)
  case (Received sCmd)
  have "pending_ok ctrLimit (aggregate sCmd m)" if "\<not> ctrLimit <s sc_Count (merged sCmd m)"
    unfolding pending_ok_def
  proof (intro conjI ballI)
    show "filed (aggregate sCmd m)" using assms filed_aggregate by (simp add: pending_ok_def)
    fix c assume "c \<in> set (map snd (aggregate sCmd m))"
    then have "c = merged sCmd m \<or> c \<in> snd ` set m"
      using assms set_snd_aggregate [of m c sCmd] by (simp add: pending_ok_def)
    then show "sc_Count c \<le>s ctrLimit"
      using that assms by (auto simp: pending_ok_def signed_less)
  qed
  then show ?thesis
    using Received by (simp add: sync_turn_def Let_def map_of_aggregate)
qed (use assms in \<open>simp_all add: sync_turn_def\<close>)

lemma turn_batch:
  assumes "permutes_pending ro" and "sync_turn ro ctrLimit m ev = (m', Some b, close)"
  shows "m' = []"
    and "mset b = mset (map snd (case ev of Received c \<Rightarrow> aggregate c m | _ \<Rightarrow> m))"
  using assms(2) by (cases ev; auto simp: sync_turn_def Let_def permutes_pendingD [OF assms(1)]
      split: if_split_asm)+

lemma turn_no_batch:
  assumes "sync_turn ro ctrLimit m ev = (m', None, close)"
  shows "m' = (case ev of Received c \<Rightarrow> aggregate c m | _ \<Rightarrow> m)"
  using assms by (cases ev) (auto simp: sync_turn_def Let_def split: if_split_asm)

section \<open>Conservation of counts\<close>

text \<open>The count of a key in a list of commands, in a batch, and in an event (as words).\<close>

definition count_in :: "string \<Rightarrow> SyncCommand list \<Rightarrow> i32" where
  "count_in k cs = (\<Sum>c\<leftarrow>cs. if sc_Key c = k then sc_Count c else 0)"

lemma count_in_simps [simp]:
  "count_in k [] = 0"
  "count_in k (c # cs) = (if sc_Key c = k then sc_Count c else 0) + count_in k cs"
  "count_in k (cs @ ds) = count_in k cs + count_in k ds"
  by (simp_all add: count_in_def)

lemma count_in_mset: "mset cs = mset ds \<Longrightarrow> count_in k cs = count_in k ds"
  by (simp add: count_in_def flip: sum_mset_sum_list)

fun arriving :: "sync_event \<Rightarrow> SyncCommand list" where
  "arriving (Received c) = [c]"
| "arriving _ = []"

text \<open>The commands that reach the loop before it ends.\<close>

fun arrivals :: "sync_event list \<Rightarrow> SyncCommand list" where
  "arrivals [] = []"
| "arrivals (ChannelClosed # evs) = []"
| "arrivals (ev # evs) = arriving ev @ arrivals evs"

text \<open>
  The interface of an aggregating worker for the counts of one key in one window: what a turn
  is given it holds or sends, as long as all of it is of the same window.
\<close>

locale conserving_worker =
  fixes turn :: "'m \<Rightarrow> sync_event \<Rightarrow> 'm \<times> SyncCommand list option \<times> bool"
    and held :: "'m \<Rightarrow> SyncCommand list"
    and ok :: "'m \<Rightarrow> bool"
  assumes turn_ok: "ok m \<Longrightarrow> ok (fst (turn m ev))"
    and turn_close: "snd (snd (turn m ev)) \<longleftrightarrow> ev = ChannelClosed"
    and turn_keeps: "ok m \<Longrightarrow> turn m ev = (m', b, close) \<Longrightarrow>
        (\<forall>c \<in> set (held m @ arriving ev). sc_Key c = k \<longrightarrow> sc_Expiry c = x) \<Longrightarrow>
        count_in k (held m' @ (case b of None \<Rightarrow> [] | Some b \<Rightarrow> b)) =
          count_in k (held m @ arriving ev) \<and>
        (\<forall>c \<in> set (held m' @ (case b of None \<Rightarrow> [] | Some b \<Rightarrow> b)).
           sc_Key c = k \<longrightarrow> sc_Expiry c = x)"
begin

lemma loop_conserves:
  assumes "ok m" and "\<forall>c \<in> set (held m @ arrivals evs). sc_Key c = k \<longrightarrow> sc_Expiry c = x"
  shows "count_in k (held (fst (sync_loop turn m evs)) @ concat (snd (sync_loop turn m evs))) =
         count_in k (held m @ arrivals evs)"
  using assms
proof (induction evs arbitrary: m)
  case Nil
  then show ?case by simp
next
  case (Cons ev evs)
  obtain m' b close where t: "turn m ev = (m', b, close)" by (metis prod_cases3)
  let ?b = "case b of None \<Rightarrow> [] | Some b \<Rightarrow> b"
  have all: "\<forall>c \<in> set (held m @ arriving ev). sc_Key c = k \<longrightarrow> sc_Expiry c = x"
    using Cons.prems(2) by (cases ev) auto
  note keeps = turn_keeps [OF Cons.prems(1) t all]
  have ok': "ok m'" using turn_ok [OF Cons.prems(1), of ev] t by simp
  have close: "close \<longleftrightarrow> ev = ChannelClosed" using turn_close [of m ev] t by simp
  have out: "concat (case b of None \<Rightarrow> [] | Some b \<Rightarrow> [b]) = ?b" by (cases b) simp_all
  show ?case
  proof (cases "ev = ChannelClosed")
    case True
    then show ?thesis using keeps t close out by (simp add: ac_simps)
  next
    case False
    then have "arrivals (ev # evs) = arriving ev @ arrivals evs" by (cases ev) simp_all
    moreover have "count_in k (held (fst (sync_loop turn m' evs)) @
        concat (snd (sync_loop turn m' evs))) = count_in k (held m' @ arrivals evs)"
      using Cons.prems(2) keeps False by (intro Cons.IH [OF ok']) (cases ev, auto)
    ultimately show ?thesis
      using keeps t close out False by (simp add: Let_def algebra_simps)
  qed
qed

end

text \<open>One turn of the program's worker satisfies the interface.\<close>

lemma count_in_pending:
  "filed m \<Longrightarrow> count_in k (map snd m) = (case map_of m k of None \<Rightarrow> 0 | Some c \<Rightarrow> sc_Count c)"
proof (induction m)
  case (Cons kc m)
  obtain k' c where kc: "kc = (k', c)" by (cases kc)
  have "filed m" and "map_of m k' = None"
    using Cons.prems kc by (simp_all add: filed_def map_of_eq_None_iff)
  then show ?case
    using Cons.IH Cons.prems kc by (auto simp: filed_def)
qed simp

text \<open>What a turn works on: the pending map with the arriving command aggregated.\<close>

definition next_pending :: "pending \<Rightarrow> sync_event \<Rightarrow> pending" where
  "next_pending m ev = (case ev of Received c \<Rightarrow> aggregate c m | _ \<Rightarrow> m)"

lemma turn_splits:
  assumes "permutes_pending ro" and "sync_turn ro ctrLimit m ev = (m', b, close)"
  shows "mset (map snd m' @ (case b of None \<Rightarrow> [] | Some b \<Rightarrow> b)) = mset (map snd (next_pending m ev))"
proof (cases b)
  case None
  then show ?thesis using turn_no_batch [of ro ctrLimit m ev m' close] assms(2)
    by (simp add: next_pending_def)
next
  case (Some b')
  then show ?thesis using turn_batch [OF assms(1), of ctrLimit m ev m' b' close] assms(2)
    by (simp add: next_pending_def)
qed

lemma count_in_aggregate:
  assumes "filed m" and "\<forall>c \<in> snd ` set m. sc_Key c = k \<longrightarrow> sc_Expiry c = x"
    and "sc_Key sCmd = k \<Longrightarrow> sc_Expiry sCmd = x"
  shows "count_in k (map snd (aggregate sCmd m)) = count_in k (sCmd # map snd m)"
proof (cases "sc_Key sCmd = k")
  case False
  then show ?thesis
    by (simp add: count_in_pending filed_aggregate assms(1) map_of_aggregate)
next
  case True
  have "sc_Expiry old = x" if "map_of m k = Some old" for old
  proof -
    have "(k, old) \<in> set m" using that by (rule map_of_SomeD)
    then show ?thesis using assms(1,2) by (force simp: filed_def)
  qed
  then show ?thesis
    using True assms(3)
    by (simp add: count_in_pending filed_aggregate assms(1) map_of_aggregate merged_def
        split: option.splits)
qed

lemma expiry_aggregate:
  assumes "filed m" and "\<forall>c \<in> snd ` set m. sc_Key c = k \<longrightarrow> sc_Expiry c = x"
    and "sc_Key sCmd = k \<Longrightarrow> sc_Expiry sCmd = x" and "c \<in> snd ` set (aggregate sCmd m)"
    and "sc_Key c = k"
  shows "sc_Expiry c = x"
  using assms set_snd_aggregate [OF assms(1,4)] merged_key [OF assms(1), of sCmd]
  by (auto simp: merged_def split: option.splits if_splits)

lemma sync_turn_filed: "filed m \<Longrightarrow> filed (fst (sync_turn ro ctrLimit m ev))"
  by (cases ev) (auto simp: sync_turn_def Let_def filed_aggregate filed_def [of "[]"])

interpretation worker: conserving_worker "sync_turn ro ctrLimit" "map snd"
    "\<lambda>m. filed m \<and> permutes_pending ro" for ro ctrLimit
proof unfold_locales
  fix m ev m' b close k x
  show "filed m \<and> permutes_pending ro \<Longrightarrow>
      filed (fst (sync_turn ro ctrLimit m ev)) \<and> permutes_pending ro"
    by (simp add: sync_turn_filed)
  show "snd (snd (sync_turn ro ctrLimit m ev)) \<longleftrightarrow> ev = ChannelClosed"
    by (cases ev) (auto simp: sync_turn_def Let_def)
  assume ok: "filed m \<and> permutes_pending ro" and t: "sync_turn ro ctrLimit m ev = (m', b, close)"
    and all: "\<forall>c \<in> set (map snd m @ arriving ev). sc_Key c = k \<longrightarrow> sc_Expiry c = x"
  have split: "mset (map snd m' @ (case b of None \<Rightarrow> [] | Some b \<Rightarrow> b)) =
      mset (map snd (next_pending m ev))"
    by (rule turn_splits [OF conjunct2 [OF ok] t])
  have "count_in k (map snd (next_pending m ev)) = count_in k (map snd m @ arriving ev)"
    using ok all count_in_aggregate [of m k x]
    by (cases ev) (auto simp: next_pending_def ac_simps)
  moreover have "\<forall>c \<in> snd ` set (next_pending m ev). sc_Key c = k \<longrightarrow> sc_Expiry c = x"
    using ok all expiry_aggregate [of m k x]
    by (cases ev) (auto simp: next_pending_def)
  ultimately show "count_in k (map snd m' @ (case b of None \<Rightarrow> [] | Some b \<Rightarrow> b)) =
        count_in k (map snd m @ arriving ev) \<and>
      (\<forall>c \<in> set (map snd m' @ (case b of None \<Rightarrow> [] | Some b \<Rightarrow> b)). sc_Key c = k \<longrightarrow> sc_Expiry c = x)"
    using count_in_mset [OF split, of k] mset_eq_setD [OF split] by simp
qed

section \<open>Properties\<close>

lemma sync_loop_ok:
  "pending_ok ctrLimit m \<Longrightarrow> pending_ok ctrLimit (fst (sync_loop (sync_turn ro ctrLimit) m evs))"
proof (induction evs arbitrary: m)
  case (Cons ev evs)
  obtain m' b close where t: "sync_turn ro ctrLimit m ev = (m', b, close)" by (metis prod_cases3)
  have "pending_ok ctrLimit m'" using sync_turn_ok [OF Cons.prems, of ro ev] t by simp
  then show ?case using Cons.IH [of m'] t by (simp add: Let_def)
qed simp

text \<open>
  whatever arrives, and however the map is ranged over, between two turns the worker holds
  at most one unsynced command per key, filed under that key, and no unsynced count is above
  the option \<open>unsyncedCtrLimit\<close>.
\<close>

theorem sync_worker_bounds_unsynced:
  "pending_ok ctrLimit (fst (startSyncWorker ro ctrLimit evs))"
  by (simp add: startSyncWorker_def sync_loop_ok)

text \<open>
  when the worker sends. A turn sends a batch exactly when something is unsynced and the
  turn was woken by the timer, by the close of the channel, by a forced command, or by one that
  took its key's count over the limit; the batch then is all that is unsynced, one command per
  key, and nothing stays behind. Otherwise nothing is sent and the arriving command is
  aggregated. Only the close of the channel ends the loop.
\<close>

theorem sync_turn_flushes_all_or_nothing:
  assumes "permutes_pending ro" and "filed m"
  shows "case sync_turn ro ctrLimit m ev of (m', batch, close) \<Rightarrow>
     (batch \<noteq> None \<longleftrightarrow> next_pending m ev \<noteq> [] \<and>
        (case ev of
           Received c \<Rightarrow>
             sc_Force c \<or> ctrLimit <s sc_Count (the (map_of (next_pending m ev) (sc_Key c)))
         | _ \<Rightarrow> True)) \<and>
     (case batch of
        None \<Rightarrow> m' = next_pending m ev
      | Some b \<Rightarrow> m' = [] \<and> mset b = mset (map snd (next_pending m ev)) \<and>
          distinct (map sc_Key b)) \<and>
     close = (ev = ChannelClosed)"
proof -
  obtain m' b close where t: "sync_turn ro ctrLimit m ev = (m', b, close)" by (metis prod_cases3)
  have "filed (next_pending m ev)"
    using assms(2) filed_aggregate by (cases ev) (simp_all add: next_pending_def)
  then have keys: "map sc_Key (map snd (next_pending m ev)) = map fst (next_pending m ev)"
    and "distinct (map fst (next_pending m ev))"
    by (auto simp: filed_def)
  then have dist: "distinct (map sc_Key bs)" if "mset bs = mset (map snd (next_pending m ev))" for bs
  proof -
    have "mset (map sc_Key bs) = mset (map fst (next_pending m ev))"
      by (simp only: that mset_map flip: keys)
    then show ?thesis
      using mset_eq_imp_distinct_iff \<open>distinct (map fst (next_pending m ev))\<close> by blast
  qed
  have "b \<noteq> None \<longleftrightarrow> next_pending m ev \<noteq> [] \<and>
        (case ev of
           Received c \<Rightarrow>
             sc_Force c \<or> ctrLimit <s sc_Count (the (map_of (next_pending m ev) (sc_Key c)))
         | _ \<Rightarrow> True)"
    using t by (cases ev) (auto simp: sync_turn_def next_pending_def Let_def split: if_splits)
  moreover have "case b of
        None \<Rightarrow> m' = next_pending m ev
      | Some bs \<Rightarrow> m' = [] \<and> mset bs = mset (map snd (next_pending m ev)) \<and> distinct (map sc_Key bs)"
    using t turn_batch [OF assms(1), of ctrLimit m ev m'] turn_no_batch [of ro ctrLimit m ev m'] dist
    by (cases b) (auto simp: next_pending_def)
  moreover have "close = (ev = ChannelClosed)"
    using worker.turn_close [of ro ctrLimit m ev] t by simp
  ultimately show ?thesis using t by simp
qed

theorem sync_turn_flushes_all_or_nothing_witness:
  "case sync_turn rev 3 [(''a'', \<lparr>sc_Key = ''a'', sc_Count = 3, sc_Expiry = 9, sc_Force = False\<rparr>)]
      (Received \<lparr>sc_Key = ''a'', sc_Count = 1, sc_Expiry = 9, sc_Force = False\<rparr>)
   of (m', batch, close) \<Rightarrow> batch \<noteq> None \<and> m' = [] \<and> \<not> close"
  using sync_turn_flushes_all_or_nothing
    [where ro = rev and ctrLimit = 3
      and m = "[(''a'', \<lparr>sc_Key = ''a'', sc_Count = 3, sc_Expiry = 9, sc_Force = False\<rparr>)]"
      and ev = "Received \<lparr>sc_Key = ''a'', sc_Count = 1, sc_Expiry = 9, sc_Force = False\<rparr>"]
  by (simp add: permutes_pending_def filed_def next_pending_def aggregate_def signed_less
      split: prod.splits option.splits)

text \<open>
  C13: conservation. If the commands of a key that reach the worker are all of one window, then
  at every moment what it has sent for the key and what it still holds add up to what it was
  given (modulo \<open>2 ^ 32\<close>): no count is lost or sent twice, whatever other keys do.
\<close>

theorem sync_worker_conserves_counts:
  assumes "permutes_pending ro"
    and "\<forall>c \<in> set (arrivals evs). sc_Key c = k \<longrightarrow> sc_Expiry c = x"
  shows "count_in k (concat (snd (startSyncWorker ro ctrLimit evs))) +
         count_in k (map snd (fst (startSyncWorker ro ctrLimit evs))) =
         count_in k (arrivals evs)"
  using worker.loop_conserves [of "[]" ro evs k x ctrLimit] assms
  by (simp add: startSyncWorker_def filed_def ac_simps)

theorem sync_worker_conserves_counts_witness:
  "let evs = [Received \<lparr>sc_Key = ''a'', sc_Count = 1, sc_Expiry = 9, sc_Force = False\<rparr>,
              Received \<lparr>sc_Key = ''b'', sc_Count = 5, sc_Expiry = 7, sc_Force = True\<rparr>,
              Received \<lparr>sc_Key = ''a'', sc_Count = 2, sc_Expiry = 9, sc_Force = False\<rparr>]
   in count_in ''a'' (concat (snd (startSyncWorker rev 10 evs))) +
      count_in ''a'' (map snd (fst (startSyncWorker rev 10 evs))) = 3"
  using sync_worker_conserves_counts
    [of rev "[Received \<lparr>sc_Key = ''a'', sc_Count = 1, sc_Expiry = 9, sc_Force = False\<rparr>,
              Received \<lparr>sc_Key = ''b'', sc_Count = 5, sc_Expiry = 7, sc_Force = True\<rparr>,
              Received \<lparr>sc_Key = ''a'', sc_Count = 2, sc_Expiry = 9, sc_Force = False\<rparr>]" "''a''" 9 10]
  by (simp add: permutes_pending_def Let_def)

text \<open>The commands of a key, latest first, and those of them of the latest one's window.\<close>

definition latest_first :: "string \<Rightarrow> SyncCommand list \<Rightarrow> SyncCommand list" where
  "latest_first k cs = rev (filter (\<lambda>c. sc_Key c = k) cs)"

definition current_window :: "string \<Rightarrow> SyncCommand list \<Rightarrow> (i64 \<times> i32) option" where
  "current_window k cs =
     (case latest_first k cs of
        [] \<Rightarrow> None
      | c # _ \<Rightarrow> Some (sc_Expiry c,
          \<Sum>d\<leftarrow>takeWhile (\<lambda>d. sc_Expiry d = sc_Expiry c) (latest_first k cs). sc_Count d))"

lemma latest_first_snoc:
  "latest_first k (cs @ [c]) = (if sc_Key c = k then c # latest_first k cs else latest_first k cs)"
  by (simp add: latest_first_def)

lemma aggregate_current_window:
  "map_option (\<lambda>c. (sc_Expiry c, sc_Count c)) (map_of (fold aggregate cs []) k) = current_window k cs"
proof (induction cs rule: rev_induct)
  case Nil
  then show ?case by (simp add: current_window_def latest_first_def)
next
  case (snoc c cs)
  let ?m = "fold aggregate cs []"
  show ?case
  proof (cases "sc_Key c = k")
    case False
    then show ?thesis using snoc.IH
      by (cases "latest_first k cs") (simp_all add: map_of_aggregate current_window_def latest_first_snoc)
  next
    case True
    then show ?thesis using snoc.IH
      by (cases "map_of ?m k"; cases "latest_first k cs")
         (auto simp: map_of_aggregate merged_def current_window_def latest_first_snoc ac_simps)
  qed
qed

lemma silent_loop:
  "snd (sync_loop (sync_turn ro ctrLimit) m (map Received cs)) = [] \<Longrightarrow>
   fst (sync_loop (sync_turn ro ctrLimit) m (map Received cs)) = fold aggregate cs m"
proof (induction cs arbitrary: m)
  case (Cons c cs)
  obtain m' b close where t: "sync_turn ro ctrLimit m (Received c) = (m', b, close)"
    by (metis prod_cases3)
  then have "\<not> close" using worker.turn_close [of ro ctrLimit m "Received c"] by simp
  then have "b = None" using Cons.prems t by (cases b) (simp_all add: Let_def)
  then have "m' = aggregate c m" using turn_no_batch [of ro ctrLimit m "Received c" m' close] t by simp
  then show ?case using Cons t \<open>\<not> close\<close> \<open>b = None\<close> by (simp add: Let_def)
qed simp

text \<open>
  what is unsynced for a key, whatever windows its commands are of. As long as no batch has
  gone out, the pending command of a key carries the window of the command that came last and
  the sum of the counts that came since the window last changed: a change of window drops what
  the previous window had unsynced, which is then never sent.
\<close>

theorem sync_worker_holds_current_window:
  assumes "snd (startSyncWorker ro ctrLimit (map Received cs)) = []"
  shows "map_option (\<lambda>c. (sc_Expiry c, sc_Count c))
           (map_of (fst (startSyncWorker ro ctrLimit (map Received cs))) k) = current_window k cs"
  using assms aggregate_current_window [of cs k] silent_loop [of ro ctrLimit "[]" cs]
  by (simp add: startSyncWorker_def)

theorem sync_worker_holds_current_window_witness:
  "let c = \<lambda>n x. \<lparr>sc_Key = ''a'', sc_Count = n, sc_Expiry = x, sc_Force = False\<rparr>
   in map_option (\<lambda>c. (sc_Expiry c, sc_Count c))
        (map_of (fst (startSyncWorker rev 10 (map Received [c 4 7, c 1 9, c 2 9]))) ''a'') =
      Some (9, 3)"
proof -
  let ?c = "\<lambda>n x. \<lparr>sc_Key = ''a'', sc_Count = n, sc_Expiry = x, sc_Force = False\<rparr>"
  have "snd (startSyncWorker rev 10 (map Received [?c 4 7, ?c 1 9, ?c 2 9])) = []"
    by code_simp
  note held = sync_worker_holds_current_window [OF this, of "''a''"]
  have "current_window ''a'' [?c 4 7, ?c 1 9, ?c 2 9] = Some (9, 3)"
    by (simp add: current_window_def latest_first_def)
  then show ?thesis
    unfolding Let_def held .
qed

end
