(* ===== verification/SyncPool.thy ===== *)
theory SyncPool
  imports SyncWorker
begin

text \<open>
  The synchroniser of store/store.go once more, with its \<open>SyncCommand\<close>s as objects: \<open>Incr\<close> takes
  one from \<open>syncPool\<close>, fills it and sends its address; the worker aggregates through addresses,
  hands a batch of addresses to one goroutine per node (store/cluster.go) and puts the objects
  back into the pool. The goroutines read the objects when they serialise the batch.

  Theory \<open>SyncWorker\<close> has the same code on values. Here it is shown that the worker itself may be
  read that way, and that the goroutines may not.
\<close>

section \<open>State and operations\<close>

record pooled =
  heap :: "nat \<Rightarrow> SyncCommand"
  syncPool :: "nat list"
  sync_chan :: "nat list"
  pending_map :: "(string \<times> nat) list"
  senders :: "(string \<times> nat list) list"
  handed :: "(string \<times> SyncCommand list) list"
  serialised :: "(string \<times> SyncCommand list) list"

text \<open>
  \<open>senders\<close> are the goroutines that have not serialised their batch yet, \<open>serialised\<close> what went
  to the network; \<open>handed\<close> is a ghost field: the batches as they were when they were handed over.
\<close>

text \<open>\<open>Incr\<close> fills the object at \<open>a\<close> and sends it; \<open>free\<close> is the pool without it.\<close>

definition pooled_incr ::
  "nat \<Rightarrow> nat list \<Rightarrow> string \<Rightarrow> i32 \<Rightarrow> i64 \<Rightarrow> bool \<Rightarrow> pooled \<Rightarrow> pooled" where
  "pooled_incr a free key cnt expires dosync S =
     S\<lparr>heap := (heap S)(a := (heap S a)\<lparr>sc_Key := key, sc_Count := cnt, sc_Expiry := expires,
          sc_Force := dosync\<rparr>),
       syncPool := free, sync_chan := sync_chan S @ [a]\<rparr>"

definition pooled_aggregate :: "nat \<Rightarrow> pooled \<Rightarrow> pooled" where
  "pooled_aggregate a S =
     (let sCmd = heap S a
      in case map_of (pending_map S) (sc_Key sCmd) of
           None \<Rightarrow> S\<lparr>pending_map := AList.update (sc_Key sCmd) a (pending_map S)\<rparr>
         | Some old \<Rightarrow>
             if sc_Expiry sCmd = sc_Expiry (heap S old)
             then S\<lparr>heap := (heap S)(old := (heap S old)
                      \<lparr>sc_Count := sc_Count (heap S old) + sc_Count sCmd\<rparr>),
                    syncPool := a # syncPool S\<rparr>
             else S\<lparr>syncPool := old # syncPool S,
                    pending_map := AList.update (sc_Key sCmd) a (pending_map S)\<rparr>)"

text \<open>The end of a turn: hand the batch to the nodes' goroutines, put its objects back.\<close>

definition pooled_flush ::
  "((string \<times> nat) list \<Rightarrow> (string \<times> nat) list) \<Rightarrow> string list \<Rightarrow> bool \<Rightarrow> pooled \<Rightarrow> pooled" where
  "pooled_flush ro nodes send S =
     (if send \<and> 0 < length (pending_map S) then
        let slice = map snd (ro (pending_map S))
        in S\<lparr>pending_map := [],
             senders := map (\<lambda>n. (n, slice)) nodes @ senders S,
             handed := map (\<lambda>n. (n, map (heap S) slice)) nodes @ handed S,
             syncPool := slice @ syncPool S\<rparr>
      else S)"

definition pooled_receive ::
  "((string \<times> nat) list \<Rightarrow> (string \<times> nat) list) \<Rightarrow> i32 \<Rightarrow> string list \<Rightarrow> nat \<Rightarrow> pooled \<Rightarrow> pooled" where
  "pooled_receive ro ctrLimit nodes a S =
     (let key = sc_Key (heap S a);
          send = sc_Force (heap S a);
          S = pooled_aggregate a S;
          send = (if ctrLimit <s sc_Count (heap S (the (map_of (pending_map S) key))) \<or> send
                  then True else send)
      in pooled_flush ro nodes send S)"

text \<open>The addresses some part of the program still refers to.\<close>

definition live :: "pooled \<Rightarrow> nat set" where
  "live S = set (syncPool S) \<union> set (sync_chan S) \<union> snd ` set (pending_map S) \<union>
     (\<Union>(n, b) \<in> set (senders S). set b)"

text \<open>
  The steps: an \<open>Incr\<close> with an object of the pool or a new one; the worker receiving or its timer;
  a goroutine serialising its batch; the run-time emptying the pool.
\<close>

inductive pool_step ::
  "((string \<times> nat) list \<Rightarrow> (string \<times> nat) list) \<Rightarrow> i32 \<Rightarrow> string list \<Rightarrow> pooled \<Rightarrow> pooled \<Rightarrow> bool"
  for ro ctrLimit nodes where
  incr_pooled: "a \<in> set (syncPool S) \<Longrightarrow>
     pool_step ro ctrLimit nodes S (pooled_incr a (remove1 a (syncPool S)) key cnt expires dosync S)"
| incr_new: "a \<notin> live S \<Longrightarrow>
     pool_step ro ctrLimit nodes S (pooled_incr a (syncPool S) key cnt expires dosync S)"
| receive: "chan_recv (sync_chan S) = Some (a, q) \<Longrightarrow>
     pool_step ro ctrLimit nodes S (pooled_receive ro ctrLimit nodes a (S\<lparr>sync_chan := q\<rparr>))"
| timer: "pool_step ro ctrLimit nodes S (pooled_flush ro nodes True S)"
| serialise: "senders S = xs @ (n, b) # ys \<Longrightarrow>
     pool_step ro ctrLimit nodes S
       (S\<lparr>senders := xs @ ys, serialised := (n, map (heap S) b) # serialised S\<rparr>)"
| empty: "a \<in> set (syncPool S) \<Longrightarrow>
     pool_step ro ctrLimit nodes S (S\<lparr>syncPool := remove1 a (syncPool S)\<rparr>)"

definition pool_init :: "pooled \<Rightarrow> bool" where
  "pool_init S \<longleftrightarrow> syncPool S = [] \<and> sync_chan S = [] \<and> pending_map S = [] \<and> senders S = [] \<and>
     handed S = [] \<and> serialised S = []"

section \<open>Ownership\<close>

text \<open>
  An object is in the channel, in the pending map or in the pool, in one place only, and the
  pending map has one object per key, filed under the key it carries. Nothing is said of the
  goroutines: their objects are in the pool.
\<close>

definition owned :: "pooled \<Rightarrow> bool" where
  "owned S \<longleftrightarrow>
     distinct (sync_chan S @ map snd (pending_map S) @ syncPool S) \<and>
     distinct (map fst (pending_map S)) \<and>
     (\<forall>(k, a) \<in> set (pending_map S). sc_Key (heap S a) = k)"

lemma pool_init_owned: "pool_init S \<Longrightarrow> owned S"
  by (simp add: pool_init_def owned_def)

lemma owned_pending:
  assumes "owned S" and "map_of (pending_map S) k = Some a"
  shows "(k, a) \<in> set (pending_map S)" and "sc_Key (heap S a) = k"
    and "a \<notin> set (sync_chan S)" and "a \<notin> set (syncPool S)"
proof -
  show *: "(k, a) \<in> set (pending_map S)" using assms(2) by (rule map_of_SomeD)
  then have "a \<in> snd ` set (pending_map S)" by force
  then show "a \<notin> set (sync_chan S)" and "a \<notin> set (syncPool S)"
    using assms(1) by (auto simp: owned_def)
  show "sc_Key (heap S a) = k" using assms(1) * by (auto simp: owned_def)
qed

text \<open>The objects in the three places, as a multiset: the worker only moves them about.\<close>

definition tokens :: "pooled \<Rightarrow> nat multiset" where
  "tokens S = mset (sync_chan S @ map snd (pending_map S) @ syncPool S)"

lemma pending_token: "map_of m k = Some old \<Longrightarrow> old \<in># image_mset snd (mset m)"
  by (force dest: map_of_SomeD)

lemma mset_update:
  "image_mset snd (mset (AList.update k a m)) =
     add_mset a (image_mset snd (mset m) - (case map_of m k of None \<Rightarrow> {#} | Some old \<Rightarrow> {#old#}))"
proof (induction m)
  case (Cons p m)
  then show ?case using pending_token [of m k]
    by (cases p) (auto split: option.splits)
qed simp

text \<open>Ownership depends on the places only through what is in them.\<close>

definition pending_filed :: "pooled \<Rightarrow> bool" where
  "pending_filed S \<longleftrightarrow> distinct (map fst (pending_map S)) \<and>
     (\<forall>(k, a) \<in> set (pending_map S). sc_Key (heap S a) = k)"

lemma owned_if_tokens:
  assumes "owned S" and "tokens S' = tokens S" and "pending_filed S'"
  shows "owned S'"
  using assms mset_eq_imp_distinct_iff [of "sync_chan S @ map snd (pending_map S) @ syncPool S"
      "sync_chan S' @ map snd (pending_map S') @ syncPool S'"]
  by (simp add: owned_def tokens_def pending_filed_def)

lemma owned_filed: "owned S \<Longrightarrow> pending_filed S"
  by (simp add: owned_def pending_filed_def)

lemma set_AList_update:
  "(k', b) \<in> set (AList.update k a m) \<Longrightarrow> (k', b) = (k, a) \<or> (k', b) \<in> set m"
  by (induction m) (auto split: if_splits)

text \<open>An object that is written to is not in the pending map.\<close>

lemma filed_write:
  "pending_filed S \<Longrightarrow> a \<notin> snd ` set (pending_map S) \<Longrightarrow>
   pending_filed (S\<lparr>heap := (heap S)(a := c), syncPool := p, sync_chan := q\<rparr>)"
  by (force simp: pending_filed_def)

lemma incr_pooled_owned:
  assumes "owned S" and "a \<in> set (syncPool S)"
  shows "owned (pooled_incr a (remove1 a (syncPool S)) key cnt expires dosync S)"
proof (rule owned_if_tokens [OF assms(1)])
  show "tokens (pooled_incr a (remove1 a (syncPool S)) key cnt expires dosync S) = tokens S"
    using assms(2) by (simp add: tokens_def pooled_incr_def)
  have "a \<notin> snd ` set (pending_map S)" using assms by (auto simp: owned_def)
  then show "pending_filed (pooled_incr a (remove1 a (syncPool S)) key cnt expires dosync S)"
    using filed_write [OF owned_filed [OF assms(1)]] by (simp add: pooled_incr_def)
qed

lemma incr_new_owned:
  assumes "owned S" and "a \<notin> live S"
  shows "owned (pooled_incr a (syncPool S) key cnt expires dosync S)"
proof -
  have "a \<notin> snd ` set (pending_map S)" "a \<notin> set (sync_chan S)" "a \<notin> set (syncPool S)"
    using assms(2) by (auto simp: live_def)
  then show ?thesis
    using assms(1) filed_write [OF owned_filed [OF assms(1)], of a]
    by (auto simp: pooled_incr_def owned_def pending_filed_def)
qed

text \<open>The places after an address \<open>a\<close> was received, with \<open>a\<close> in the worker's hands.\<close>

definition in_hand :: "nat \<Rightarrow> pooled \<Rightarrow> bool" where
  "in_hand a S \<longleftrightarrow> distinct (a # sync_chan S @ map snd (pending_map S) @ syncPool S) \<and> pending_filed S"

lemma received_in_hand:
  "owned S \<Longrightarrow> chan_recv (sync_chan S) = Some (a, q) \<Longrightarrow> in_hand a (S\<lparr>sync_chan := q\<rparr>)"
  by (cases "sync_chan S") (auto simp: chan_recv_def in_hand_def owned_def pending_filed_def)

lemma aggregate_tokens:
  assumes "in_hand a S"
  shows "tokens (pooled_aggregate a S) = add_mset a (tokens S)"
proof (cases "map_of (pending_map S) (sc_Key (heap S a))")
  case None
  then show ?thesis by (simp add: pooled_aggregate_def Let_def tokens_def mset_update)
next
  case (Some old)
  then have "old \<in># image_mset snd (mset (pending_map S))" by (rule pending_token)
  then show ?thesis
    using Some by (simp add: pooled_aggregate_def Let_def tokens_def mset_update
        del: set_image_mset)
qed

lemma aggregate_filed:
  assumes "in_hand a S"
  shows "pending_filed (pooled_aggregate a S)"
proof (cases "map_of (pending_map S) (sc_Key (heap S a))")
  case None
  then show ?thesis
    using assms by (auto simp: pooled_aggregate_def Let_def in_hand_def pending_filed_def
        distinct_update dest!: set_AList_update)
next
  case (Some old)
  then show ?thesis
    using assms by (auto simp: pooled_aggregate_def Let_def in_hand_def pending_filed_def
        distinct_update dest!: set_AList_update)
qed

lemma aggregate_owned:
  assumes "in_hand a S"
  shows "owned (pooled_aggregate a S)"
proof -
  have "mset (a # sync_chan S @ map snd (pending_map S) @ syncPool S) = tokens (pooled_aggregate a S)"
    using aggregate_tokens [OF assms] by (simp add: tokens_def)
  then have "distinct (sync_chan (pooled_aggregate a S) @ map snd (pending_map (pooled_aggregate a S)) @
      syncPool (pooled_aggregate a S))"
    using assms unfolding in_hand_def tokens_def by (metis mset_eq_imp_distinct_iff)
  then show ?thesis
    using aggregate_filed [OF assms] by (simp add: owned_def pending_filed_def)
qed

text \<open>The order of a range only permutes.\<close>

definition permutes_list :: "('a list \<Rightarrow> 'a list) \<Rightarrow> bool" where
  "permutes_list ro \<longleftrightarrow> (\<forall>xs. mset (ro xs) = mset xs)"

lemma flush_owned:
  assumes "owned S" and "permutes_list ro"
  shows "owned (pooled_flush ro nodes send S)"
proof (rule owned_if_tokens [OF assms(1)])
  show "tokens (pooled_flush ro nodes send S) = tokens S"
    using assms(2) by (simp add: tokens_def pooled_flush_def permutes_list_def Let_def)
  show "pending_filed (pooled_flush ro nodes send S)"
    using owned_filed [OF assms(1)] by (simp add: pooled_flush_def pending_filed_def Let_def)
qed

lemma pool_step_owned:
  assumes "pool_step ro ctrLimit nodes S S'" and "owned S" and "permutes_list ro"
  shows "owned S'"
  using assms(1)
proof cases
  case (incr_pooled a key cnt expires dosync)
  then show ?thesis using incr_pooled_owned [OF assms(2)] by simp
next
  case (incr_new a key cnt expires dosync)
  then show ?thesis using incr_new_owned [OF assms(2)] by simp
next
  case (receive a q)
  then show ?thesis
    using aggregate_owned [OF received_in_hand [OF assms(2)]] flush_owned [OF _ assms(3)]
    by (simp add: pooled_receive_def Let_def)
next
  case timer
  then show ?thesis using flush_owned [OF assms(2,3)] by simp
next
  case (serialise xs n b ys)
  then show ?thesis using assms(2) by (simp add: owned_def)
next
  case (empty a)
  then show ?thesis using assms(2)
    by (auto simp: owned_def distinct_remove1 dest: notin_set_remove1 in_set_remove1 [THEN iffD1])
qed

interpretation pooled: invariant_system "\<lambda>S. pool_init S \<and> permutes_list ro"
    "pool_step ro ctrLimit nodes" "\<lambda>S. owned S \<and> permutes_list ro" for ro ctrLimit nodes
  by unfold_locales (auto intro: pool_init_owned pool_step_owned)

section \<open>The worker on objects is the worker on values\<close>

text \<open>The pending map with the commands its addresses stand for.\<close>

definition pending_values :: "pooled \<Rightarrow> pending" where
  "pending_values S = map (\<lambda>(k, a). (k, heap S a)) (pending_map S)"

lemma map_of_values: "map_of (map (\<lambda>(k, a). (k, f a)) m) k = map_option f (map_of m k)"
  by (induction m) auto

lemma values_update:
  "map (\<lambda>(k, a). (k, f a)) (AList.update k a m) = AList.update k (f a) (map (\<lambda>(k, a). (k, f a)) m)"
  by (induction m) auto

text \<open>Writing to the object of a key changes the value of that key.\<close>

lemma values_write:
  assumes "map_of m k = Some old" and "distinct (map fst m)" and "distinct (map snd m)"
  shows "map (\<lambda>(k, a). (k, (f(old := c)) a)) m = AList.update k c (map (\<lambda>(k, a). (k, f a)) m)"
  using assms
proof (induction m)
  case (Cons p m)
  obtain k' a where p: "p = (k', a)" by (cases p)
  show ?case
  proof (cases "k' = k")
    case True
    then have "a = old" and "old \<notin> snd ` set m" using Cons.prems p by auto
    then show ?thesis using p True by (force intro!: map_cong)
  next
    case False
    then have "map_of m k = Some old" using Cons.prems(1) p by simp
    then have "old \<in> snd ` set m" by (force dest: map_of_SomeD)
    then have "a \<noteq> old" using Cons.prems(3) p by auto
    then show ?thesis using Cons.IH Cons.prems p False \<open>map_of m k = Some old\<close> by simp
  qed
qed simp

lemma pooled_aggregate_refines:
  assumes "in_hand a S"
  shows "pending_values (pooled_aggregate a S) = aggregate (heap S a) (pending_values S)"
proof -
  have dist: "distinct (map fst (pending_map S))" "distinct (map snd (pending_map S))"
    using assms by (auto simp: in_hand_def pending_filed_def)
  have look: "map_of (pending_values S) k = map_option (heap S) (map_of (pending_map S) k)" for k
    unfolding pending_values_def by (rule map_of_values)
  show ?thesis
  proof (cases "map_of (pending_map S) (sc_Key (heap S a))")
    case None
    then show ?thesis
      using look [of "sc_Key (heap S a)"]
      by (simp add: pooled_aggregate_def aggregate_def Let_def pending_values_def values_update)
  next
    case (Some old)
    then show ?thesis
      using look [of "sc_Key (heap S a)"] values_write [OF Some dist, of "heap S"]
      by (simp add: pooled_aggregate_def aggregate_def Let_def pending_values_def values_update)
  qed
qed

lemma pooled_aggregate_frame:
  "senders (pooled_aggregate a S) = senders S" "handed (pooled_aggregate a S) = handed S"
  "sync_chan (pooled_aggregate a S) = sync_chan S" "serialised (pooled_aggregate a S) = serialised S"
  by (simp_all add: pooled_aggregate_def Let_def split: option.splits)

lemma pooled_flush_values:
  assumes "permutes_list ro"
  shows "pending_values (pooled_flush ro nodes send S) =
      (if send \<and> 0 < length (pending_map S) then [] else pending_values S)"
    and "\<exists>b. mset b = mset (map snd (pending_values S)) \<and>
      handed (pooled_flush ro nodes send S) =
        (if send \<and> 0 < length (pending_map S) then map (\<lambda>n. (n, b)) nodes @ handed S else handed S)"
proof -
  show "pending_values (pooled_flush ro nodes send S) =
      (if send \<and> 0 < length (pending_map S) then [] else pending_values S)"
    by (simp add: pooled_flush_def pending_values_def Let_def)
  have "mset (map (heap S) (map snd (ro (pending_map S)))) = mset (map snd (pending_values S))"
    using assms by (simp add: permutes_list_def pending_values_def image_mset.compositionality comp_def
        case_prod_beta)
  moreover have "handed (pooled_flush ro nodes send S) =
        (if send \<and> 0 < length (pending_map S)
         then map (\<lambda>n. (n, map (heap S) (map snd (ro (pending_map S))))) nodes @ handed S else handed S)"
    by (simp add: pooled_flush_def Let_def)
  ultimately show "\<exists>b. mset b = mset (map snd (pending_values S)) \<and>
      handed (pooled_flush ro nodes send S) =
        (if send \<and> 0 < length (pending_map S) then map (\<lambda>n. (n, b)) nodes @ handed S else handed S)"
    by blast
qed

section \<open>Properties\<close>

text \<open>
  the objects are never shared by the worker's side. In every state that can be reached,
  whatever \<open>Incr\<close> calls, worker turns, senders and the emptying of the pool do, an object is at
  most once in the channel, the pending map and the pool together, and each object of the pending
  map carries the key it is filed under: what the worker aggregates is never overwritten by an
  \<open>Incr\<close>.
\<close>

theorem pool_objects_have_one_place:
  assumes "permutes_list ro"
    and "reach (\<lambda>S. pool_init S \<and> permutes_list ro) (pool_step ro ctrLimit nodes) S"
  shows "distinct (sync_chan S @ map snd (pending_map S) @ syncPool S) \<and>
     distinct (map fst (pending_map S)) \<and> (\<forall>(k, a) \<in> set (pending_map S). sc_Key (heap S a) = k)"
  using pooled.reach_inv [OF assms(2)] by (simp add: owned_def)

theorem pool_objects_have_one_place_witness:
  "let S = pooled_incr 0 [] ''k'' 1 9 False
     \<lparr>heap = (\<lambda>_. \<lparr>sc_Key = [], sc_Count = 0, sc_Expiry = 0, sc_Force = False\<rparr>), syncPool = [],
       sync_chan = [], pending_map = [], senders = [], handed = [], serialised = []\<rparr>
   in distinct (sync_chan S @ map snd (pending_map S) @ syncPool S)"
proof -
  let ?S0 = "\<lparr>heap = (\<lambda>_. \<lparr>sc_Key = [], sc_Count = 0, sc_Expiry = 0, sc_Force = False\<rparr>), syncPool = [],
       sync_chan = [], pending_map = [], senders = [], handed = [], serialised = []\<rparr>"
  let ?S1 = "pooled_incr 0 (syncPool ?S0) ''k'' 1 9 False ?S0"
  let ?rev = "rev :: (string \<times> nat) list \<Rightarrow> (string \<times> nat) list"
  have perm: "permutes_list ?rev" by (simp add: permutes_list_def)
  have s1: "pool_step ?rev 10 [] ?S0 ?S1" by (rule pool_step.incr_new) (simp add: live_def)
  have r0: "reach (\<lambda>S. pool_init S \<and> permutes_list ?rev) (pool_step ?rev 10 []) ?S0"
    by (rule reach_init) (simp add: perm pool_init_def)
  have "reach (\<lambda>S. pool_init S \<and> permutes_list ?rev) (pool_step ?rev 10 []) ?S1"
    by (rule reach_step [OF r0 s1])
  from pool_objects_have_one_place [OF perm this] show ?thesis by (simp add: Let_def)
qed

text \<open>
  C15: hence a turn of the worker on objects is a turn on values. From a state as above, receiving
  an address does to the commands of the pending map what \<open>sync_turn\<close> does on receiving the
  command, and a batch is handed to every node exactly when \<open>sync_turn\<close> sends one, with the same
  commands in it as they are at that moment.
\<close>

theorem pooled_receive_refines_sync_turn:
  fixes ctrLimit :: i32 and nodes :: "string list"
  assumes "owned S" and "chan_recv (sync_chan S) = Some (a, q)" and "permutes_list ro"
  defines "S' \<equiv> pooled_receive ro ctrLimit nodes a (S\<lparr>sync_chan := q\<rparr>)"
  shows "case sync_turn (\<lambda>m. m) ctrLimit (pending_values S) (Received (heap S a)) of
    (m, batch, close) \<Rightarrow>
      pending_values S' = m \<and>
      (case batch of
         None \<Rightarrow> handed S' = handed S
       | Some b \<Rightarrow> \<exists>b'. mset b' = mset b \<and> handed S' = map (\<lambda>n. (n, b')) nodes @ handed S)"
proof -
  let ?S1 = "S\<lparr>sync_chan := q\<rparr>"
  let ?S2 = "pooled_aggregate a ?S1"
  let ?send = "ctrLimit <s sc_Count (heap ?S2 (the (map_of (pending_map ?S2) (sc_Key (heap S a))))) \<or>
      sc_Force (heap S a)"
  have hand: "in_hand a ?S1" by (rule received_in_hand [OF assms(1,2)])
  have vals: "pending_values ?S2 = aggregate (heap S a) (pending_values S)"
    using pooled_aggregate_refines [OF hand] by (simp add: pending_values_def)
  have nonempty: "pending_map ?S2 \<noteq> []"
    using aggregate_nonempty [of "heap S a" "pending_values S"] vals
    by (metis list.map(1) pending_values_def)
  have "map_of (pending_values ?S2) k = map_option (heap ?S2) (map_of (pending_map ?S2) k)" for k
    unfolding pending_values_def by (rule map_of_values)
  moreover have "map_of (pending_values ?S2) (sc_Key (heap S a)) \<noteq> None"
    unfolding vals by (simp add: map_of_aggregate)
  ultimately have cnt: "sc_Count (heap ?S2 (the (map_of (pending_map ?S2) (sc_Key (heap S a))))) =
      sc_Count (the (map_of (aggregate (heap S a) (pending_values S)) (sc_Key (heap S a))))"
    unfolding vals [symmetric] by (cases "map_of (pending_map ?S2) (sc_Key (heap S a))") auto
  have S': "S' = pooled_flush ro nodes ?send ?S2"
    by (simp add: S'_def pooled_receive_def Let_def)
  show ?thesis
    using pooled_flush_values [OF assms(3), where nodes = nodes and send = ?send and S = ?S2] nonempty vals
    unfolding S' by (auto simp: sync_turn_def Let_def cnt pooled_aggregate_frame)
qed

theorem pooled_receive_refines_sync_turn_witness:
  "pending_values (pooled_receive rev 10 [''n''] 3
     \<lparr>heap = (\<lambda>_. \<lparr>sc_Key = ''k'', sc_Count = 2, sc_Expiry = 9, sc_Force = False\<rparr>), syncPool = [],
       sync_chan = [], pending_map = [(''k'', 4)], senders = [], handed = [], serialised = []\<rparr>) =
   [(''k'', \<lparr>sc_Key = ''k'', sc_Count = 4, sc_Expiry = 9, sc_Force = False\<rparr>)]"
proof -
  let ?S = "\<lparr>heap = (\<lambda>_. \<lparr>sc_Key = ''k'', sc_Count = 2, sc_Expiry = 9, sc_Force = False\<rparr>), syncPool = [],
       sync_chan = [3], pending_map = [(''k'', 4)], senders = [], handed = [], serialised = []\<rparr>"
  have "owned ?S" and "chan_recv (sync_chan ?S) = Some (3, [])" and "permutes_list (rev :: (string \<times> nat) list \<Rightarrow> _)"
    by (simp_all add: owned_def chan_recv_def permutes_list_def)
  from pooled_receive_refines_sync_turn [OF this, where ctrLimit = 10 and nodes = "[''n'']"] show ?thesis
    by (simp add: sync_turn_def aggregate_def pending_values_def signed_less split: prod.splits)
qed


text \<open>
  C16: the senders do share. \<open>startSyncWorker\<close> puts the objects of a batch back into the pool when
  it has started the goroutines, not when they are done. From the empty state, for any two
  commands, the first of which is forced, a state can be reached in which the batch handed over
  for the node is the first command, and what the goroutine sends to it is the second, because an
  \<open>Incr\<close> took the object in between; the second is also in the channel and will be sent again.
  Counts of the first key are lost and those of the second doubled.
\<close>

theorem recycled_objects_corrupt_batches:
  fixes c d :: SyncCommand
  assumes "pool_init S0" and "sc_Force c"
  shows "\<exists>S. reach (\<lambda>S. pool_init S \<and> permutes_list (\<lambda>m :: (string \<times> nat) list. m))
             (pool_step (\<lambda>m. m) 10 [''node'']) S \<and>
           handed S = [(''node'', [c])] \<and> serialised S = [(''node'', [d])] \<and>
           map (heap S) (sync_chan S) = [d]"
proof -
  let ?reach = "reach (\<lambda>S. pool_init S \<and> permutes_list (\<lambda>m :: (string \<times> nat) list. m))
      (pool_step (\<lambda>m. m) 10 [''node''])"
  define S1 where "S1 = pooled_incr 0 (syncPool S0) (sc_Key c) (sc_Count c) (sc_Expiry c) True S0"
  define S2 where "S2 = pooled_receive (\<lambda>m. m) 10 [''node''] 0 (S1\<lparr>sync_chan := []\<rparr>)"
  define S3 where "S3 = pooled_incr 0 (remove1 0 (syncPool S2)) (sc_Key d) (sc_Count d) (sc_Expiry d)
    (sc_Force d) S2"
  define S4 where "S4 = S3\<lparr>senders := [] @ [], serialised := (''node'', map (heap S3) [0]) # serialised S3\<rparr>"
  have init: "syncPool S0 = []" "sync_chan S0 = []" "pending_map S0 = []" "senders S0 = []"
      "handed S0 = []" "serialised S0 = []"
    using assms(1) by (simp_all add: pool_init_def)
  have S1: "heap S1 0 = c" "sync_chan S1 = [0]" "syncPool S1 = []" "pending_map S1 = []"
      "senders S1 = []" "handed S1 = []" "serialised S1 = []"
    using assms(2) init by (cases c; simp add: S1_def pooled_incr_def)+
  have S2: "sync_chan S2 = []" "senders S2 = [(''node'', [0])]" "handed S2 = [(''node'', [c])]"
      "syncPool S2 = [0]" "serialised S2 = []"
    using assms(2) S1 by (simp_all add: S2_def pooled_receive_def pooled_aggregate_def pooled_flush_def Let_def)
  have S3: "heap S3 0 = d" "sync_chan S3 = [0]" "senders S3 = [(''node'', [0])]"
      "handed S3 = [(''node'', [c])]" "serialised S3 = []"
    using S2 by (cases d; simp add: S3_def pooled_incr_def)+
  let ?step = "pool_step (\<lambda>m. m) 10 [''node'']"
  have r0: "?reach S0" by (rule reach_init) (simp add: assms(1) permutes_list_def)
  have s1: "?step S0 S1"
    unfolding S1_def by (rule pool_step.incr_new) (simp add: live_def init)
  have s2: "?step S1 S2"
    unfolding S2_def by (rule pool_step.receive) (simp add: chan_recv_def S1)
  have s3: "?step S2 S3"
    unfolding S3_def by (rule pool_step.incr_pooled) (simp add: S2)
  have s4: "?step S3 S4"
    unfolding S4_def
    by (rule pool_step.serialise [where xs = "[]" and ys = "[]" and n = "''node''" and b = "[0]"])
      (simp add: S3(3))
  note step = reach_step [where init = "\<lambda>S. pool_init S \<and> permutes_list (\<lambda>m :: (string \<times> nat) list. m)"
      and step = ?step]
  have "?reach S4" by (rule step [OF step [OF step [OF step [OF r0 s1] s2] s3] s4])
  moreover have "handed S4 = [(''node'', [c])]" "serialised S4 = [(''node'', [d])]"
    "map (heap S4) (sync_chan S4) = [d]"
    using S3 by (simp_all add: S4_def)
  ultimately show ?thesis by (intro exI [of _ S4] conjI)
qed

theorem recycled_objects_corrupt_batches_witness:
  "\<exists>S :: pooled. handed S = [(''node'', [\<lparr>sc_Key = ''a'', sc_Count = 1, sc_Expiry = 9, sc_Force = True\<rparr>])] \<and>
       serialised S = [(''node'', [\<lparr>sc_Key = ''b'', sc_Count = 7, sc_Expiry = 9, sc_Force = False\<rparr>])]"
  using recycled_objects_corrupt_batches
    [of "\<lparr>heap = (\<lambda>_. \<lparr>sc_Key = [], sc_Count = 0, sc_Expiry = 0, sc_Force = False\<rparr>), syncPool = [],
       sync_chan = [], pending_map = [], senders = [], handed = [], serialised = []\<rparr>"
      "\<lparr>sc_Key = ''a'', sc_Count = 1, sc_Expiry = 9, sc_Force = True\<rparr>"
      "\<lparr>sc_Key = ''b'', sc_Count = 7, sc_Expiry = 9, sc_Force = False\<rparr>"]
  by (auto simp: pool_init_def)

end
