(* ===== verification/SyncTimer.thy ===== *)
theory SyncTimer
  imports SyncWorker
begin

text \<open>
  The synchroniser in time (\<open>startSyncWorker\<close> of store/store.go). Its loop waits for a command or
  for the timer, and at the end of every turn it stops the timer and starts it anew, whatever
  woke it. Times are in milliseconds; the goroutine is taken to be idle when something happens, so
  that a turn takes place at the time of its command or of the timer.
\<close>

section \<open>The worker with its timer\<close>

text \<open>The pending map, and when the timer will fire. A turn at time \<open>t\<close>; \<open>limit\<close> is \<open>unsyncedTimeLimit\<close>.\<close>

type_synonym timed_worker = "pending \<times> int"

definition start_timer :: "int \<Rightarrow> int \<Rightarrow> timed_worker" where
  "start_timer limit t = ([], t + limit)"

definition timed_turn ::
  "(pending \<Rightarrow> pending) \<Rightarrow> i32 \<Rightarrow> int \<Rightarrow> int \<Rightarrow> sync_event \<Rightarrow> timed_worker \<Rightarrow>
   timed_worker \<times> (int \<times> SyncCommand list) list" where
  "timed_turn ro ctrLimit limit t ev wk =
     (case sync_turn ro ctrLimit (fst wk) ev of
        (m, batch, _) \<Rightarrow> ((m, t + limit), case batch of None \<Rightarrow> [] | Some b \<Rightarrow> [(t, b)]))"

text \<open>The timer fires until it is set to a time after \<open>t\<close>. (A limit of 0 or less fires without end.)\<close>

function until ::
  "(pending \<Rightarrow> pending) \<Rightarrow> i32 \<Rightarrow> int \<Rightarrow> int \<Rightarrow> timed_worker \<Rightarrow> timed_worker \<times> (int \<times> SyncCommand list) list" where
  "until ro ctrLimit limit t wk =
     (if limit \<le> 0 \<or> t < snd wk then (wk, [])
      else
        let (wk', out) = timed_turn ro ctrLimit limit (snd wk) TimerFired wk;
            (wk'', out') = until ro ctrLimit limit t wk'
        in (wk'', out @ out'))"
  by pat_completeness auto

termination
  by (relation "measure (\<lambda>(_, _, _, t, wk). nat (t - snd wk + 1))")
    (auto simp: timed_turn_def split: prod.splits)

declare until.simps [simp del]

text \<open>Commands arriving at their times.\<close>

fun timed_run ::
  "(pending \<Rightarrow> pending) \<Rightarrow> i32 \<Rightarrow> int \<Rightarrow> (int \<times> SyncCommand) list \<Rightarrow> timed_worker \<Rightarrow>
   timed_worker \<times> (int \<times> SyncCommand list) list" where
  "timed_run ro ctrLimit limit [] wk = (wk, [])"
| "timed_run ro ctrLimit limit ((t, cmd) # cmds) wk =
     (let (wk, out1) = until ro ctrLimit limit t wk;
          (wk, out2) = timed_turn ro ctrLimit limit t (Received cmd) wk;
          (wk, out3) = timed_run ro ctrLimit limit cmds wk
      in (wk, out1 @ out2 @ out3))"

section \<open>What the time limit limits\<close>

text \<open>Commands none of which makes the worker send: not forced, and no count passes the limit.\<close>

fun quiet :: "i32 \<Rightarrow> pending \<Rightarrow> SyncCommand list \<Rightarrow> bool" where
  "quiet ctrLimit m [] \<longleftrightarrow> True"
| "quiet ctrLimit m (cmd # cmds) \<longleftrightarrow>
     \<not> sc_Force cmd \<and> \<not> ctrLimit <s sc_Count (merged cmd m) \<and> quiet ctrLimit (aggregate cmd m) cmds"

text \<open>Times less than the limit apart, starting from a timer set to \<open>d\<close>.\<close>

fun steady :: "int \<Rightarrow> int \<Rightarrow> int list \<Rightarrow> bool" where
  "steady limit d [] \<longleftrightarrow> True"
| "steady limit d (t # ts) \<longleftrightarrow> t < d \<and> steady limit (t + limit) ts"

lemma quiet_turn:
  assumes "\<not> sc_Force cmd" and "\<not> ctrLimit <s sc_Count (merged cmd m)"
  shows "sync_turn ro ctrLimit m (Received cmd) = (aggregate cmd m, None, False)"
  using assms by (simp add: sync_turn_def Let_def map_of_aggregate)

lemma steady_run:
  assumes "steady limit d (map fst cmds)" and "quiet ctrLimit m (map snd cmds)"
  shows "timed_run ro ctrLimit limit cmds (m, d) =
    ((fold aggregate (map snd cmds) m, if cmds = [] then d else fst (last cmds) + limit), [])"
  using assms
proof (induction cmds arbitrary: m d)
  case (Cons c cmds)
  obtain t cmd where c: "c = (t, cmd)" by (cases c)
  have "until ro ctrLimit limit t (m, d) = ((m, d), [])"
    using Cons.prems(1) by (subst until.simps) (simp add: c)
  moreover have "timed_turn ro ctrLimit limit t (Received cmd) (m, d) = ((aggregate cmd m, t + limit), [])"
    using Cons.prems(2) by (simp add: timed_turn_def quiet_turn c)
  moreover have "timed_run ro ctrLimit limit cmds (aggregate cmd m, t + limit) =
      ((fold aggregate (map snd cmds) (aggregate cmd m), if cmds = [] then t + limit else fst (last cmds) + limit), [])"
    by (rule Cons.IH) (use Cons.prems in \<open>simp_all add: c\<close>)
  ultimately show ?case by (simp add: c)
qed simp

lemma TimerFired_turn:
  "sync_turn ro ctrLimit m TimerFired = ([], if m = [] then None else Some (map snd (ro m)), False)"
  by (simp add: sync_turn_def)

lemma until_empty: "fst (fst (until ro ctrLimit limit t ([], d))) = [] \<and>
    snd (until ro ctrLimit limit t ([], d)) = []"
proof (induction "nat (t - d + 1)" arbitrary: d rule: less_induct)
  case less
  show ?case
  proof (cases "limit \<le> 0 \<or> t < d")
    case True
    then show ?thesis by (subst (1 2) until.simps) simp
  next
    case False
    then have "fst (fst (until ro ctrLimit limit t ([], d + limit))) = [] \<and>
        snd (until ro ctrLimit limit t ([], d + limit)) = []"
      by (intro less.hyps) simp
    then show ?thesis
      using False
      by (subst (1 2) until.simps) (simp add: timed_turn_def TimerFired_turn split_beta)
  qed
qed

section \<open>Properties\<close>

text \<open>
  C14: \<open>unsyncedTimeLimit\<close> does not limit the time a count stays unsynchronised. As long as commands
  arrive less than the limit apart and no count passes \<open>unsyncedCtrLimit\<close>, nothing is ever sent,
  however long this goes on: every turn sets the timer anew. All that arrived is still pending.
\<close>

theorem steady_traffic_is_never_sent:
  assumes "steady limit (t0 + limit) (map fst cmds)" and "quiet ctrLimit [] (map snd cmds)"
  shows "case timed_run ro ctrLimit limit cmds (start_timer limit t0) of
    ((m, d), sent) \<Rightarrow> sent = [] \<and> m = fold aggregate (map snd cmds) [] \<and> d = (if cmds = [] then t0 else fst (last cmds)) + limit"
  using steady_run [OF assms, of ro] by (simp add: start_timer_def)

text \<open>Two minutes of a command every half of the time limit of one minute.\<close>

definition every_half_minute :: "nat \<Rightarrow> (int \<times> SyncCommand) list" where
  "every_half_minute n = map (\<lambda>i. (30000 * int i, \<lparr>sc_Key = ''k'', sc_Count = 1, sc_Expiry = 9, sc_Force = False\<rparr>)) [0..<n]"

theorem steady_traffic_is_never_sent_witness:
  "case timed_run rev 5 60000 (every_half_minute 5) (start_timer 60000 0) of
    ((m, d), sent) \<Rightarrow> sent = [] \<and> map sc_Count (map snd m) = [5] \<and> d = 180000"
proof -
  have "steady 60000 (0 + 60000) (map fst (every_half_minute 5))" by code_simp
  moreover have "quiet 5 [] (map snd (every_half_minute 5))" by code_simp
  moreover have "map sc_Count (map snd (fold aggregate (map snd (every_half_minute 5)) [])) = [5]" by code_simp
  moreover have "every_half_minute 5 \<noteq> []" "fst (last (every_half_minute 5)) = 120000" by code_simp+
  ultimately show ?thesis
    using steady_traffic_is_never_sent [of 60000 0 "every_half_minute 5" 5 rev] by (auto split: prod.splits)
qed

text \<open>
  when the traffic pauses, the timer does its work. If nothing arrives until the timer is due,
  all that is pending is sent then, in one batch with one command per key, and until the next
  command arrives nothing more is sent.
\<close>

theorem pause_sends_all:
  assumes "permutes_pending ro" and "0 < limit" and "d \<le> t" and "m \<noteq> []"
  shows "case until ro ctrLimit limit t (m, d) of
    ((m', _), sent) \<Rightarrow> m' = [] \<and>
      (case sent of [(t', batch)] \<Rightarrow> t' = d \<and> mset batch = mset (map snd m) | _ \<Rightarrow> False)"
proof -
  have "mset (map snd (ro m)) = mset (map snd m)" using permutes_pendingD [OF assms(1), of m] by (metis mset_map)
  then show ?thesis
    using assms until_empty [of ro ctrLimit limit t "d + limit"]
    by (subst until.simps) (simp add: timed_turn_def TimerFired_turn split_beta)
qed

theorem pause_sends_all_witness:
  "case until rev 5 60000 200000 ([(''k'', \<lparr>sc_Key = ''k'', sc_Count = 5, sc_Expiry = 9, sc_Force = False\<rparr>)], 180000) of
    ((m', _), sent) \<Rightarrow> m' = [] \<and>
      (case sent of [(t', batch)] \<Rightarrow> t' = 180000 \<and> mset batch = {#\<lparr>sc_Key = ''k'', sc_Count = 5, sc_Expiry = 9, sc_Force = False\<rparr>#}
       | _ \<Rightarrow> False)"
  using pause_sends_all [of rev 60000 180000 200000 "[(''k'', \<lparr>sc_Key = ''k'', sc_Count = 5, sc_Expiry = 9, sc_Force = False\<rparr>)]" 5]
  by (auto simp: permutes_pending_def split: prod.splits list.splits)

end
