(* ===== verification/Files.thy ===== *)
theory Files
  imports Prelude
begin

text \<open>
  The file system as store/store.go uses it: \<open>ioutil.ReadFile\<close> and \<open>ioutil.WriteFile\<close> on paths. Which file a
  path names is the operating system's (\<open>./f\<close> and \<open>f\<close> are one file, two directories can be links to each
  other), and so is what a write leaves: the whole text, a part of it if the disk is full, or, if
  the file cannot be opened, what was there. Both are parameters, kept with the contents.
\<close>

record files =
  resolve :: "string \<Rightarrow> string"
  contents :: "string \<rightharpoonup> string"
  written :: "string \<Rightarrow> string \<Rightarrow> string option"

definition ReadFile :: "string \<Rightarrow> files \<Rightarrow> string option" where
  "ReadFile path fs = contents fs (resolve fs path)"

definition WriteFile :: "string \<Rightarrow> string \<Rightarrow> files \<Rightarrow> files" where
  "WriteFile path data fs =
     (case written fs (resolve fs path) data of
        None \<Rightarrow> fs
      | Some left \<Rightarrow> fs\<lparr>contents := (contents fs)(resolve fs path \<mapsto> left)\<rparr>)"

text \<open>Two paths of one file, and a path to which every text can be written in full.\<close>

definition same_file :: "files \<Rightarrow> string \<Rightarrow> string \<Rightarrow> bool" where
  "same_file fs p q \<longleftrightarrow> resolve fs p = resolve fs q"

definition writable :: "files \<Rightarrow> string \<Rightarrow> bool" where
  "writable fs p \<longleftrightarrow> written fs (resolve fs p) = Some"

lemma WriteFile_frame [simp]:
  "resolve (WriteFile p t fs) = resolve fs" "written (WriteFile p t fs) = written fs"
  "same_file (WriteFile p t fs) q r = same_file fs q r" "writable (WriteFile p t fs) q = writable fs q"
  by (simp_all add: WriteFile_def same_file_def writable_def split: option.split)

lemma ReadFile_WriteFile:
  "writable fs p \<Longrightarrow> ReadFile q (WriteFile p t fs) = (if same_file fs p q then Some t else ReadFile q fs)"
  by (auto simp: ReadFile_def WriteFile_def writable_def same_file_def)

lemma ReadFile_WriteFile_other: "\<not> same_file fs p q \<Longrightarrow> ReadFile q (WriteFile p t fs) = ReadFile q fs"
  by (auto simp: ReadFile_def WriteFile_def same_file_def split: option.split)

text \<open>A disk without directories.\<close>

definition sample_files :: files where
  "sample_files = \<lparr>resolve = id, contents = Map.empty, written = (\<lambda>_. Some)\<rparr>"

lemma sample_files_simps [simp]:
  "same_file sample_files p q = (p = q)" "writable sample_files p" "ReadFile p sample_files = None"
  by (simp_all add: sample_files_def same_file_def writable_def ReadFile_def)

end
