(* ===== verification/Utf8.thy ===== *)
theory Utf8
  imports Strconv
begin

text \<open>
  What ranging over a Go string and \<open>WriteRune\<close> do: a string is bytes, read as UTF-8 with every
  byte that starts no well-formed sequence read as U+FFFD. Bytes and code points are natural
  numbers here; \<^const>\<open>byte\<close> and \<open>of_bytes\<close> go to and from the characters of a \<^typ>\<open>string\<close>.
\<close>

section \<open>Decoding and encoding\<close>

definition cont :: "nat \<Rightarrow> bool" where
  "cont b \<longleftrightarrow> 128 \<le> b \<and> b \<le> 191"

text \<open>The bytes that may follow a first byte.\<close>

definition second_ok :: "nat \<Rightarrow> nat \<Rightarrow> bool" where
  "second_ok b0 b1 \<longleftrightarrow>
     (if b0 = 224 then 160 \<le> b1 else 128 \<le> b1) \<and> b1 \<le> (if b0 = 237 then 159 else 191)"

definition second_ok4 :: "nat \<Rightarrow> nat \<Rightarrow> bool" where
  "second_ok4 b0 b1 \<longleftrightarrow>
     (if b0 = 240 then 144 \<le> b1 else 128 \<le> b1) \<and> b1 \<le> (if b0 = 244 then 143 else 191)"

text \<open>The first code point of a non-empty byte string and the number of bytes after the first.\<close>

definition decode_rune :: "nat \<Rightarrow> nat list \<Rightarrow> nat \<times> nat" where
  "decode_rune b0 bs =
     (if b0 < 128 then (b0, 0)
      else if 194 \<le> b0 \<and> b0 \<le> 223 then
        (case bs of
           b1 # _ \<Rightarrow> if cont b1 then ((b0 - 192) * 64 + (b1 - 128), 1) else (65533, 0)
         | _ \<Rightarrow> (65533, 0))
      else if 224 \<le> b0 \<and> b0 \<le> 239 then
        (case bs of
           b1 # b2 # _ \<Rightarrow>
             if second_ok b0 b1 \<and> cont b2
             then ((b0 - 224) * 4096 + (b1 - 128) * 64 + (b2 - 128), 2) else (65533, 0)
         | _ \<Rightarrow> (65533, 0))
      else if 240 \<le> b0 \<and> b0 \<le> 244 then
        (case bs of
           b1 # b2 # b3 # _ \<Rightarrow>
             if second_ok4 b0 b1 \<and> cont b2 \<and> cont b3
             then ((b0 - 240) * 262144 + (b1 - 128) * 4096 + (b2 - 128) * 64 + (b3 - 128), 3)
             else (65533, 0)
         | _ \<Rightarrow> (65533, 0))
      else (65533, 0))"

fun runes :: "nat list \<Rightarrow> nat list" where
  "runes [] = []"
| "runes (b # bs) = fst (decode_rune b bs) # runes (drop (snd (decode_rune b bs)) bs)"

text \<open>Unicode code points, without the surrogates.\<close>

definition valid_rune :: "nat \<Rightarrow> bool" where
  "valid_rune r \<longleftrightarrow> r < 55296 \<or> 57344 \<le> r \<and> r \<le> 1114111"

definition encode_rune :: "nat \<Rightarrow> nat list" where
  "encode_rune r =
     (if r < 128 then [r]
      else if r < 2048 then [192 + r div 64, 128 + r mod 64]
      else if \<not> valid_rune r then [239, 191, 189]
      else if r < 65536 then [224 + r div 4096, 128 + r div 64 mod 64, 128 + r mod 64]
      else [240 + r div 262144, 128 + r div 4096 mod 64, 128 + r div 64 mod 64, 128 + r mod 64])"

definition of_bytes :: "nat list \<Rightarrow> string" where
  "of_bytes = map char_of"

section \<open>Round trip\<close>

lemma split64:
  obtains q c where "r = 64 * q + c" and "(c :: nat) < 64" and "r div 64 = q" and "r mod 64 = c"
  using that [of "r div 64" "r mod 64"] by simp

lemma decode_encode:
  assumes "valid_rune r"
  obtains b bs where "encode_rune r = b # bs"
    and "\<And>rest. decode_rune b (bs @ rest) = (r, length bs)"
proof -
  obtain q d where r: "r = 64 * q + d" "d < 64" and dr: "r div 64 = q" "r mod 64 = d" by (rule split64)
  obtain p c where q: "q = 64 * p + c" "c < 64" and dq: "q div 64 = p" "q mod 64 = c" by (rule split64)
  obtain n b where p: "p = 64 * n + b" "b < 64" and dp: "p div 64 = n" "p mod 64 = b" by (rule split64)
  have "r div 4096 = p" using dr dq div_mult2_eq [of r 64 64] by simp
  moreover from this have "r div 262144 = n" using dp div_mult2_eq [of r 4096 64] by simp
  ultimately have div: "r div 64 = q" "r div 4096 = p" "r div 262144 = n" "r mod 64 = d"
      "q mod 64 = c" "p mod 64 = b"
    using dr dq dp by simp_all
  consider "r < 128" | "128 \<le> r" "r < 2048" | "2048 \<le> r" "r < 65536" | "65536 \<le> r" by linarith
  then show thesis
  proof cases
    case 1
    then show thesis using that [of r "[]"] by (simp add: encode_rune_def decode_rune_def)
  next
    case 2
    then have "2 \<le> q" "q < 32" using r by linarith+
    with 2 show thesis
      using that [of "192 + q" "[128 + d]"] r
      by (simp add: encode_rune_def decode_rune_def div cont_def)
  next
    case 3
    then have "p < 16" using r q by linarith
    have "32 \<le> c" if "p = 0" using 3 r q that by linarith
    moreover have "c < 32" if "p = 13" using 3 r q that assms by (auto simp: valid_rune_def)
    ultimately have second: "second_ok (224 + p) (128 + c)" using q(2) by (cases "p = 0"; cases "p = 13") (auto simp: second_ok_def)
    have enc: "encode_rune r = (224 + p) # [128 + c, 128 + d]"
      using 3 assms by (simp add: encode_rune_def div)
    have "r = p * 4096 + c * 64 + d" using r q by simp
    then have "decode_rune (224 + p) ([128 + c, 128 + d] @ rest) = (r, 2)" for rest
      using second \<open>p < 16\<close> r(2) by (simp add: decode_rune_def cont_def)
    with enc show thesis using that by simp
  next
    case 4
    then have "n \<le> 4" using r q p assms by (auto simp: valid_rune_def)
    have "16 \<le> b" if "n = 0" using 4 r q p that by linarith
    moreover have "b < 16" if "n = 4" using r q p that 4 assms by (auto simp: valid_rune_def)
    ultimately have second: "second_ok4 (240 + n) (128 + b)" using p(2) by (cases "n = 0"; cases "n = 4") (auto simp: second_ok4_def)
    have enc: "encode_rune r = (240 + n) # [128 + b, 128 + c, 128 + d]"
      using 4 assms by (simp add: encode_rune_def div)
    have "r = n * 262144 + b * 4096 + c * 64 + d" using r q p by simp
    then have "decode_rune (240 + n) ([128 + b, 128 + c, 128 + d] @ rest) = (r, 3)" for rest
      using second \<open>n \<le> 4\<close> r(2) q(2) by (simp add: decode_rune_def cont_def)
    with enc show thesis using that by simp
  qed
qed

lemma runes_encode: "valid_rune r \<Longrightarrow> runes (encode_rune r @ rest) = r # runes rest"
  by (erule decode_encode [where r = r]) simp

lemma runes_encode_all:
  "list_all valid_rune rs \<Longrightarrow> runes (concat (map encode_rune rs)) = rs"
  by (induction rs) (simp_all add: runes_encode)

text \<open>Each well-formed sequence is of a code point that is not a surrogate and not too large.\<close>

lemma two_valid: "b0 \<le> 223 \<Longrightarrow> cont b1 \<Longrightarrow> valid_rune ((b0 - 192) * 64 + (b1 - 128))"
proof -
  assume "b0 \<le> 223" "cont b1"
  then have "b0 - 192 \<le> 31" "b1 - 128 \<le> 63" by (auto simp: cont_def le_diff_conv)
  then have "(b0 - 192) * 64 + (b1 - 128) < 55296" by linarith
  then show ?thesis by (simp add: valid_rune_def)
qed

lemma three_valid:
  assumes "224 \<le> b0" "b0 \<le> 239" "second_ok b0 b1" "cont b2"
  shows "valid_rune ((b0 - 224) * 4096 + (b1 - 128) * 64 + (b2 - 128))"
proof -
  obtain x where "b0 = 224 + x" using assms(1) le_Suc_ex by blast
  moreover obtain y where "b1 = 128 + y"
    using assms(3) le_Suc_ex [of 128 b1] by (auto simp: second_ok_def split: if_splits)
  moreover obtain z where "b2 = 128 + z" using assms(4) le_Suc_ex by (auto simp: cont_def)
  ultimately show ?thesis using assms by (auto simp: valid_rune_def second_ok_def cont_def split: if_splits)
qed

lemma four_valid:
  assumes "240 \<le> b0" "b0 \<le> 244" "second_ok4 b0 b1" "cont b2" "cont b3"
  shows "valid_rune ((b0 - 240) * 262144 + (b1 - 128) * 4096 + (b2 - 128) * 64 + (b3 - 128))"
proof -
  obtain w where "b0 = 240 + w" using assms(1) le_Suc_ex by blast
  moreover obtain x where "b1 = 128 + x"
    using assms(3) le_Suc_ex [of 128 b1] by (auto simp: second_ok4_def split: if_splits)
  moreover obtain y where "b2 = 128 + y" using assms(4) le_Suc_ex by (auto simp: cont_def)
  moreover obtain z where "b3 = 128 + z" using assms(5) le_Suc_ex by (auto simp: cont_def)
  ultimately show ?thesis using assms by (auto simp: valid_rune_def second_ok4_def cont_def split: if_splits)
qed

lemma replacement_valid: "valid_rune 65533" "b < 128 \<Longrightarrow> valid_rune b"
  by (simp_all add: valid_rune_def)

lemma decode_valid: "valid_rune (fst (decode_rune b bs))"
proof -
  consider "b < 128" | "194 \<le> b" "b \<le> 223" | "224 \<le> b" "b \<le> 239" | "240 \<le> b" "b \<le> 244"
    | "\<not> b < 128" "\<not> (194 \<le> b \<and> b \<le> 223)" "\<not> (224 \<le> b \<and> b \<le> 239)" "\<not> (240 \<le> b \<and> b \<le> 244)"
    by linarith
  then show ?thesis
  proof cases
    case 1
    then show ?thesis by (simp add: decode_rune_def replacement_valid)
  next
    case 2
    then have "decode_rune b bs = (case bs of
        b1 # _ \<Rightarrow> if cont b1 then ((b - 192) * 64 + (b1 - 128), 1) else (65533, 0)
      | _ \<Rightarrow> (65533, 0))" by (simp add: decode_rune_def)
    then show ?thesis using 2 two_valid replacement_valid by (auto split: list.split)
  next
    case 3
    then have "decode_rune b bs = (case bs of
        b1 # b2 # _ \<Rightarrow>
          if second_ok b b1 \<and> cont b2
          then ((b - 224) * 4096 + (b1 - 128) * 64 + (b2 - 128), 2) else (65533, 0)
      | _ \<Rightarrow> (65533, 0))" by (simp add: decode_rune_def)
    then show ?thesis using 3 three_valid replacement_valid by (auto split: list.split)
  next
    case 4
    then have "decode_rune b bs = (case bs of
        b1 # b2 # b3 # _ \<Rightarrow>
          if second_ok4 b b1 \<and> cont b2 \<and> cont b3
          then ((b - 240) * 262144 + (b1 - 128) * 4096 + (b2 - 128) * 64 + (b3 - 128), 3)
          else (65533, 0)
      | _ \<Rightarrow> (65533, 0))" by (simp add: decode_rune_def)
    then show ?thesis using 4 four_valid replacement_valid by (auto split: list.split)
  next
    case 5
    then show ?thesis by (simp only: decode_rune_def if_False fst_conv replacement_valid)
  qed
qed

lemma runes_valid: "list_all valid_rune (runes bs)"
  by (induction bs rule: runes.induct) (simp_all add: decode_valid)

lemma encode_small: "b \<in> set (encode_rune r) \<Longrightarrow> b < 128 \<Longrightarrow> b = r"
  by (auto simp: encode_rune_def split: if_splits)

lemma encode_byte: "b \<in> set (encode_rune r) \<Longrightarrow> b < 256"
  by (auto simp: encode_rune_def valid_rune_def div_less_iff_less_mult split: if_splits)

end
