(* ===== verification/Json.thy ===== *)
theory Json
  imports Utf8
begin

text \<open>
  What the code uses of Go's \<open>encoding/json\<close>: the syntax of values (\<open>parse_value\<close>, with the decoding of
  strings) and their writing (\<open>render\<close>, with the escapes of \<open>Marshal\<close>, those for HTML among them). A text is
  a byte string. \<open>parse_render\<close> is their round trip: what was written is read back, with every byte
  that is not UTF-8 replaced by U+FFFD in strings and keys.
\<close>

section \<open>Values\<close>

text \<open>A number is kept as its literal, for it depends on the Go type it is read into.\<close>

datatype json =
    JNull
  | JBool bool
  | JNumber string
  | JString string
  | JArray "json list"
  | JObject "(string \<times> json) list"

section \<open>Strings\<close>

abbreviation quotation :: char where "quotation \<equiv> CHR 0x22"
abbreviation backslash :: char where "backslash \<equiv> CHR 0x5C"

definition hex_val :: "char \<Rightarrow> nat option" where
  "hex_val c =
     (let b = byte c
      in if 48 \<le> b \<and> b \<le> 57 then Some (b - 48)
         else if 97 \<le> b \<and> b \<le> 102 then Some (b - 87)
         else if 65 \<le> b \<and> b \<le> 70 then Some (b - 55) else None)"

definition hex_char :: "nat \<Rightarrow> char" where
  "hex_char d = char_of (if d < 10 then 48 + d else 87 + d)"

fun hex_digits :: "nat \<Rightarrow> nat \<Rightarrow> string \<Rightarrow> (nat \<times> string) option" where
  "hex_digits 0 acc cs = Some (acc, cs)"
| "hex_digits (Suc n) acc [] = None"
| "hex_digits (Suc n) acc (c # cs) =
     (case hex_val c of None \<Rightarrow> None | Some d \<Rightarrow> hex_digits n (acc * 16 + d) cs)"

text \<open>
  The code point of a \<open>u\<close> escape: the second half of a surrogate pair is taken along, a
  surrogate without its partner is U+FFFD.
\<close>

definition surrogate :: "nat \<Rightarrow> string \<Rightarrow> nat \<times> nat" where
  "surrogate r rest =
     (if 55296 \<le> r \<and> r \<le> 57343 then
        (if take 2 rest = [backslash, CHR ''u''] then
           (case hex_digits 4 0 (drop 2 rest) of
              None \<Rightarrow> (65533, 0)
            | Some (r2, _) \<Rightarrow>
                if r \<le> 56319 \<and> 56320 \<le> r2 \<and> r2 \<le> 57343
                then ((r - 55296) * 1024 + (r2 - 56320) + 65536, 6) else (65533, 0))
         else (65533, 0))
      else (r, 0))"

definition escaped :: "char \<Rightarrow> char option" where
  "escaped e =
     (if e = quotation \<or> e = backslash \<or> e = CHR ''/'' then Some e
      else if e = CHR ''b'' then Some (char_of (8 :: nat)) else if e = CHR ''f'' then Some (char_of (12 :: nat))
      else if e = CHR ''n'' then Some (char_of (10 :: nat)) else if e = CHR ''r'' then Some (char_of (13 :: nat))
      else if e = CHR ''t'' then Some (char_of (9 :: nat)) else None)"

lemma hex_digits_length: "hex_digits n acc cs = Some (r, cs') \<Longrightarrow> length cs' \<le> length cs"
  by (induction n acc cs rule: hex_digits.induct) (auto split: option.splits)

text \<open>
  What follows the opening quotation mark: the string it stands for and what is left after the
  closing one. Escapes are decoded, bytes that are not UTF-8 become U+FFFD.
\<close>

definition push :: "string \<Rightarrow> (string \<times> string) option \<Rightarrow> (string \<times> string) option" where
  "push s = map_option (apfst ((@) s))"

function (sequential) scan_string :: "string \<Rightarrow> (string \<times> string) option" where
  "scan_string [] = None"
| "scan_string (c # cs) =
     (if c = quotation then Some ([], cs)
      else if c = backslash then
        (case cs of
           [] \<Rightarrow> None
         | e # cs' \<Rightarrow>
             if e = CHR ''u'' then
               (case hex_digits 4 0 cs' of
                  None \<Rightarrow> None
                | Some (r, cs'') \<Rightarrow>
                    (case surrogate r cs'' of
                       (r', n) \<Rightarrow> push (of_bytes (encode_rune r')) (scan_string (drop n cs''))))
             else (case escaped e of None \<Rightarrow> None | Some x \<Rightarrow> push [x] (scan_string cs')))
      else if byte c < 32 then None
      else if byte c < 128 then push [c] (scan_string cs)
      else (case decode_rune (byte c) (map byte cs) of
              (r, n) \<Rightarrow> push (of_bytes (encode_rune r)) (scan_string (drop n cs))))"
  by pat_completeness auto
termination by (relation "measure length") (auto dest: hex_digits_length)

declare scan_string.simps(2) [simp del]

lemma push_Some: "push s x = Some (t, r) \<longleftrightarrow> (\<exists>t'. x = Some (t', r) \<and> t = s @ t')"
  by (auto simp: push_def)

lemma scan_string_length: "scan_string s = Some (t, r) \<Longrightarrow> length r < length s"
proof (induction s arbitrary: t rule: length_induct)
  case (1 s)
  have IH: "length u < length s \<Longrightarrow> length r < length u" if "scan_string u = Some (t', r)" for u t'
    using 1(1) that by blast
  show ?case
  proof (cases s)
    case (Cons c cs)
    show ?thesis
      using 1(2) unfolding Cons
      by (auto simp: scan_string.simps(2) push_Some Cons split: if_splits option.splits list.splits prod.splits
          dest!: IH hex_digits_length)
  qed (use 1(2) in simp)
qed

section \<open>Numbers, white space, values\<close>

definition is_digit :: "char \<Rightarrow> bool" where
  "is_digit c \<longleftrightarrow> 48 \<le> byte c \<and> byte c \<le> 57"

text \<open>One or more digits.\<close>

definition scan_digits :: "string \<Rightarrow> (string \<times> string) option" where
  "scan_digits s = (let ds = takeWhile is_digit s in if ds = [] then None else Some (ds, dropWhile is_digit s))"

definition scan_integer :: "string \<Rightarrow> (string \<times> string) option" where
  "scan_integer s =
     (case s of
        [] \<Rightarrow> None
      | c # cs \<Rightarrow> if c = CHR ''0'' then Some ([c], cs) else scan_digits s)"

definition scan_fraction :: "string \<Rightarrow> (string \<times> string) option" where
  "scan_fraction s =
     (case s of
        [] \<Rightarrow> Some ([], [])
      | c # cs \<Rightarrow> if c = CHR ''.'' then push [c] (scan_digits cs) else Some ([], s))"

definition scan_exponent :: "string \<Rightarrow> (string \<times> string) option" where
  "scan_exponent s =
     (case s of
        [] \<Rightarrow> Some ([], [])
      | c # cs \<Rightarrow>
          if c = CHR ''e'' \<or> c = CHR ''E'' then
            (case cs of
               [] \<Rightarrow> None
             | d # ds \<Rightarrow>
                 if d = CHR ''+'' \<or> d = CHR ''-'' then push [c, d] (scan_digits ds)
                 else push [c] (scan_digits cs))
          else Some ([], s))"

definition scan_number :: "string \<Rightarrow> (string \<times> string) option" where
  "scan_number s =
     (let (sign, s1) = (case s of [] \<Rightarrow> ([], []) | c # cs \<Rightarrow> if c = CHR ''-'' then ([c], cs) else ([], s))
      in case scan_integer s1 of
           None \<Rightarrow> None
         | Some (i, s2) \<Rightarrow>
             (case scan_fraction s2 of
                None \<Rightarrow> None
              | Some (f, s3) \<Rightarrow> push (sign @ i @ f) (scan_exponent s3)))"

definition space :: "char \<Rightarrow> bool" where
  "space c \<longleftrightarrow> byte c = 32 \<or> byte c = 9 \<or> byte c = 10 \<or> byte c = 13"

definition skip_ws :: "string \<Rightarrow> string" where
  "skip_ws = dropWhile space"

definition keyword_end :: "string \<Rightarrow> json \<Rightarrow> string \<Rightarrow> (json \<times> string) option" where
  "keyword_end w v s = (if take (length w) s = w then Some (v, drop (length w) s) else None)"

text \<open>A value that is no object or array, from its first character on.\<close>

definition scan_scalar :: "char \<Rightarrow> string \<Rightarrow> (json \<times> string) option" where
  "scan_scalar c r =
     (if c = quotation then map_option (apfst JString) (scan_string r)
      else if c = CHR ''t'' then keyword_end ''rue'' (JBool True) r
      else if c = CHR ''f'' then keyword_end ''alse'' (JBool False) r
      else if c = CHR ''n'' then keyword_end ''ull'' JNull r
      else map_option (apfst JNumber) (scan_number (c # r)))"

lemma skip_ws_length: "skip_ws s = c # r \<Longrightarrow> length r < length s"
  using length_dropWhile_le [of space s] by (simp add: skip_ws_def)

text \<open>
  The value at the start of a text and what follows it. The test of lengths never fails
  (\<open>parse_value_length\<close> below); it makes the recursion visibly end.
\<close>

function (sequential)
  parse_value :: "string \<Rightarrow> (json \<times> string) option" and
  parse_members :: "string \<Rightarrow> ((string \<times> json) list \<times> string) option" and
  parse_elements :: "string \<Rightarrow> (json list \<times> string) option" where
  "parse_value s =
     (case skip_ws s of
        [] \<Rightarrow> None
      | c # r \<Rightarrow>
          if c = CHR ''{'' then
            (case skip_ws r of
               [] \<Rightarrow> None
             | d # r' \<Rightarrow>
                 if d = CHR ''}'' then Some (JObject [], r') else map_option (apfst JObject) (parse_members r))
          else if c = CHR ''['' then
            (case skip_ws r of
               [] \<Rightarrow> None
             | d # r' \<Rightarrow>
                 if d = CHR '']'' then Some (JArray [], r') else map_option (apfst JArray) (parse_elements r))
          else scan_scalar c r)"
| "parse_members s =
     (case skip_ws s of
        [] \<Rightarrow> None
      | c # r \<Rightarrow>
          if c \<noteq> quotation then None
          else
            (case scan_string r of
               None \<Rightarrow> None
             | Some (k, r1) \<Rightarrow>
                 (case skip_ws r1 of
                    [] \<Rightarrow> None
                  | d # r2 \<Rightarrow>
                      if d \<noteq> CHR '':'' then None
                      else
                        (case parse_value r2 of
                           None \<Rightarrow> None
                         | Some (v, r3) \<Rightarrow>
                             if length r2 < length r3 then None
                             else
                               (case skip_ws r3 of
                                  [] \<Rightarrow> None
                                | e # r4 \<Rightarrow>
                                    if e = CHR '','' then map_option (apfst (Cons (k, v))) (parse_members r4)
                                    else if e = CHR ''}'' then Some ([(k, v)], r4) else None)))))"
| "parse_elements s =
     (case parse_value s of
        None \<Rightarrow> None
      | Some (v, r) \<Rightarrow>
          if length s < length r then None
          else
            (case skip_ws r of
               [] \<Rightarrow> None
             | e # r' \<Rightarrow>
                 if e = CHR '','' then map_option (apfst (Cons v)) (parse_elements r')
                 else if e = CHR '']'' then Some ([v], r') else None))"
  by pat_completeness auto
termination
  by (relation "measure (case_sum (\<lambda>s. 2 * length s) (case_sum (\<lambda>s. 2 * length s + 1) (\<lambda>s. 2 * length s + 1)))")
    (auto dest!: skip_ws_length scan_string_length)

declare parse_value.simps [simp del] parse_members.simps [simp del] parse_elements.simps [simp del]

lemma scan_digits_length: "scan_digits s = Some (t, r) \<Longrightarrow> length r < length s"
  by (cases s) (auto simp: scan_digits_def Let_def le_imp_less_Suc length_dropWhile_le split: if_splits)

lemma scan_number_length:
  assumes "scan_number s = Some (t, r)"
  shows "length r < length s"
proof -
  have i: "length r' < length s'" if "scan_integer s' = Some (t', r')" for s' t' r'
    using that by (auto simp: scan_integer_def split: list.splits if_splits dest!: scan_digits_length)
  have f: "length r' \<le> length s'" if "scan_fraction s' = Some (t', r')" for s' t' r'
    using that by (auto simp: scan_fraction_def push_Some split: list.splits if_splits dest!: scan_digits_length)
  have e: "length r' \<le> length s'" if "scan_exponent s' = Some (t', r')" for s' t' r'
    using that by (auto simp: scan_exponent_def push_Some split: list.splits if_splits dest!: scan_digits_length)
  show ?thesis
    using assms
    by (auto simp: scan_number_def Let_def push_Some split: list.splits if_splits option.splits prod.splits
        dest!: i f e)
qed

lemma scan_scalar_length: "scan_scalar c s = Some (v, r) \<Longrightarrow> length r \<le> length s"
  by (auto simp: scan_scalar_def keyword_end_def less_imp_le split: if_splits dest!: scan_string_length scan_number_length)

text \<open>Parsing always takes something away, so its own test of lengths never fails.\<close>

lemma parse_value_length:
  "parse_value s = Some (v, r) \<longrightarrow> length r < length s"
  "parse_members s' = Some (ms, r) \<longrightarrow> length r < length s'"
  "parse_elements s'' = Some (vs, r) \<longrightarrow> length r < length s''"
proof (induction s and s' and s'' arbitrary: v r and ms r and vs r
    rule: parse_value_parse_members_parse_elements.induct)
  case (1 s)
  show ?case
  proof
    assume p: "parse_value s = Some (v, r)"
    then obtain c t where s: "skip_ws s = c # t" by (cases "skip_ws s") (simp_all add: parse_value.simps)
    note len = skip_ws_length [OF s]
    consider "c = CHR ''{''" | "c = CHR ''[''" | "c \<noteq> CHR ''{''" "c \<noteq> CHR ''[''" by blast
    then show "length r < length s"
    proof cases
      case 1
      then obtain d t' where t: "skip_ws t = d # t'"
        using p by (cases "skip_ws t") (simp_all add: parse_value.simps [of s] s)
      have "length r < length t" if "d \<noteq> CHR ''}''" "parse_members t = Some (ms, r)" for ms
        using "1.IH"(1) [OF s 1 t that(1)] that(2) by blast
      with p 1 t skip_ws_length [OF t] len show ?thesis
        by (fastforce simp: parse_value.simps [of s] s split: if_splits)
    next
      case 2
      then obtain d t' where t: "skip_ws t = d # t'"
        using p by (cases "skip_ws t") (simp_all add: parse_value.simps [of s] s)
      have "length r < length t" if "d \<noteq> CHR '']''" "parse_elements t = Some (vs, r)" for vs
        using "1.IH"(2) [OF s _ 2 t that(1)] 2 that(2) by auto
      with p 2 t skip_ws_length [OF t] len show ?thesis
        by (fastforce simp: parse_value.simps [of s] s split: if_splits)
    next
      case 3
      then have "scan_scalar c t = Some (v, r)" using p by (simp add: parse_value.simps [of s] s)
      from scan_scalar_length [OF this] len show ?thesis by simp
    qed
  qed
next
  case (2 s)
  show ?case
  proof
    assume p: "parse_members s = Some (ms, r)"
    then obtain c t where s: "skip_ws s = c # t" "c = quotation"
      by (cases "skip_ws s") (auto simp: parse_members.simps split: if_splits)
    from p obtain k r1 where k: "scan_string t = Some (k, r1)"
      by (auto simp: parse_members.simps [of s] s split: option.splits)
    from p obtain d r2 where d: "skip_ws r1 = d # r2" "d = CHR '':''"
      by (cases "skip_ws r1") (auto simp: parse_members.simps [of s] s k split: if_splits)
    from p obtain w r3 where w: "parse_value r2 = Some (w, r3)" "length r3 \<le> length r2"
      by (auto simp: parse_members.simps [of s] s k d not_less split: option.splits if_splits)
    from p obtain e r4 where e: "skip_ws r3 = e # r4"
      by (cases "skip_ws r3") (auto simp: parse_members.simps [of s] s k d w split: if_splits)
    have len: "length r4 < length s"
      using skip_ws_length [OF s(1)] scan_string_length [OF k] skip_ws_length [OF d(1)] w(2) skip_ws_length [OF e] by simp
    show "length r < length s"
    proof (cases "e = CHR '',''")
      case True
      then obtain ms' where "parse_members r4 = Some (ms', r)"
        using p w by (auto simp: parse_members.simps [of s] s k d e split: if_splits)
      then have "length r < length r4"
        using "2.IH"(2) [OF s(1) _ k refl d(1) _ w(1) refl _ e True] s(2) d(2) w(2) by simp
      then show ?thesis using len by simp
    next
      case False
      then show ?thesis using p w len by (auto simp: parse_members.simps [of s] s k d e split: if_splits)
    qed
  qed
next
  case (3 s)
  show ?case
  proof
    assume p: "parse_elements s = Some (vs, r)"
    then obtain w t where w: "parse_value s = Some (w, t)" "length t \<le> length s"
      by (auto simp: parse_elements.simps [of s] not_less split: option.splits if_splits)
    from p obtain e t' where e: "skip_ws t = e # t'"
      by (cases "skip_ws t") (auto simp: parse_elements.simps [of s] w split: if_splits)
    note len = skip_ws_length [OF e]
    show "length r < length s"
    proof (cases "e = CHR '',''")
      case True
      then obtain vs' where "parse_elements t' = Some (vs', r)"
        using p w by (auto simp: parse_elements.simps [of s] e split: if_splits)
      then have "length r < length t'" using "3.IH"(2) [OF w(1) refl _ e True] w(2) by simp
      then show ?thesis using w(2) len by simp
    next
      case False
      then show ?thesis using p w len by (auto simp: parse_elements.simps [of s] e split: if_splits)
    qed
  qed
qed

section \<open>Writing\<close>

fun commas :: "string list \<Rightarrow> string" where
  "commas [] = []"
| "commas [x] = x"
| "commas (x # y # zs) = x @ CHR '','' # commas (y # zs)"

text \<open>
  A character below 128: quotation mark and backslash get a backslash; control characters and
  the three that matter in HTML become escapes.
\<close>

definition quote_ascii :: "char \<Rightarrow> string" where
  "quote_ascii c =
     (let b = byte c
      in if c = quotation \<or> c = backslash then [backslash, c]
         else if b = 10 then [backslash, CHR ''n'']
         else if b = 13 then [backslash, CHR ''r'']
         else if b = 9 then [backslash, CHR ''t'']
         else if b < 32 \<or> b = 60 \<or> b = 62 \<or> b = 38
         then [backslash, CHR ''u'', CHR ''0'', CHR ''0'', hex_char (b div 16), hex_char (b mod 16)]
         else [c])"

text \<open>Bytes that are not UTF-8 become an escape for U+FFFD, the line separators of JavaScript escapes too.\<close>

function (sequential) quote_chars :: "string \<Rightarrow> string" where
  "quote_chars [] = []"
| "quote_chars (c # cs) =
     (if byte c < 128 then quote_ascii c @ quote_chars cs
      else (case decode_rune (byte c) (map byte cs) of
              (r, n) \<Rightarrow>
                (if r = 65533 \<and> n = 0 then [backslash, CHR ''u'', CHR ''f'', CHR ''f'', CHR ''f'', CHR ''d'']
                 else if r = 8232 \<or> r = 8233
                 then [backslash, CHR ''u'', CHR ''2'', CHR ''0'', CHR ''2'', hex_char (r mod 16)]
                 else c # take n cs) @ quote_chars (drop n cs)))"
  by pat_completeness auto
termination by (relation "measure length") auto

declare quote_chars.simps(2) [simp del]

definition quote :: "string \<Rightarrow> string" where
  "quote s = quotation # quote_chars s @ [quotation]"

fun render :: "json \<Rightarrow> string" where
  "render JNull = ''null''"
| "render (JBool b) = (if b then ''true'' else ''false'')"
| "render (JNumber lit) = lit"
| "render (JString s) = quote s"
| "render (JArray vs) = CHR ''['' # commas (map render vs) @ [CHR '']'']"
| "render (JObject ms) = CHR ''{'' # commas (map (\<lambda>(k, v). quote k @ CHR '':'' # render v) ms) @ [CHR ''}'']"

section \<open>Reading back what was written\<close>

text \<open>The string with every byte that is not UTF-8 replaced by U+FFFD.\<close>

definition as_utf8 :: "string \<Rightarrow> string" where
  "as_utf8 s = of_bytes (concat (map encode_rune (runes (map byte s))))"

lemma as_utf8_Nil [simp]: "as_utf8 [] = []"
  by (simp add: as_utf8_def of_bytes_def)

lemma as_utf8_Cons:
  "as_utf8 (c # cs) =
     (case decode_rune (byte c) (map byte cs) of (r, n) \<Rightarrow> of_bytes (encode_rune r) @ as_utf8 (drop n cs))"
  by (simp add: as_utf8_def of_bytes_def drop_map split: prod.split)

lemma char_of_byte [simp]: "char_of (byte c) = c"
  by (simp add: byte_def)

lemma byte_char_of: "n < 256 \<Longrightarrow> byte (char_of n) = n"
  by (simp add: byte_def)

lemma as_utf8_ascii: "byte c < 128 \<Longrightarrow> as_utf8 (c # cs) = c # as_utf8 cs"
  by (simp add: as_utf8_Cons decode_rune_def encode_rune_def of_bytes_def)

lemma decode_prefix:
  assumes "decode_rune b bs = (r, n)" and "0 < n"
  shows "n \<le> length bs" and "decode_rune b (take n bs @ ys) = (r, n)"
proof -
  have big: "\<not> b < 128" using assms by (auto simp: decode_rune_def)
  consider "194 \<le> b" "b \<le> 223" | "224 \<le> b" "b \<le> 239" | "240 \<le> b" "b \<le> 244"
    | "b < 194 \<or> 244 < b" by linarith
  then have "n \<le> length bs \<and> decode_rune b (take n bs @ ys) = (r, n)"
  proof cases
    case 1
    have d: "decode_rune b zs = (case zs of
        b1 # _ \<Rightarrow> if cont b1 then ((b - 192) * 64 + (b1 - 128), 1) else (65533, 0)
      | _ \<Rightarrow> (65533, 0))" for zs using 1 by (simp add: decode_rune_def)
    show ?thesis using assms by (cases bs) (auto simp: d split: if_splits)
  next
    case 2
    have d: "decode_rune b zs = (case zs of
        b1 # b2 # _ \<Rightarrow>
          if second_ok b b1 \<and> cont b2
          then ((b - 224) * 4096 + (b1 - 128) * 64 + (b2 - 128), 2) else (65533, 0)
      | _ \<Rightarrow> (65533, 0))" for zs using 2 by (simp add: decode_rune_def)
    obtain b1 b2 bs' where "bs = b1 # b2 # bs'" and ok: "second_ok b b1 \<and> cont b2"
      using assms by (auto simp: d split: list.splits if_splits)
    then have "bs = [b1, b2] @ bs'" "n = 2" using assms by (simp_all add: d)
    then show ?thesis using assms(1) ok by (simp add: d numeral_2_eq_2)
  next
    case 3
    have d: "decode_rune b zs = (case zs of
        b1 # b2 # b3 # _ \<Rightarrow>
          if second_ok4 b b1 \<and> cont b2 \<and> cont b3
          then ((b - 240) * 262144 + (b1 - 128) * 4096 + (b2 - 128) * 64 + (b3 - 128), 3)
          else (65533, 0)
      | _ \<Rightarrow> (65533, 0))" for zs using 3 by (simp add: decode_rune_def)
    obtain b1 b2 b3 bs' where "bs = b1 # b2 # b3 # bs'" and ok: "second_ok4 b b1 \<and> cont b2 \<and> cont b3"
      using assms by (auto simp: d split: list.splits if_splits)
    then have "bs = [b1, b2, b3] @ bs'" "n = 3" using assms by (simp_all add: d)
    then show ?thesis using assms(1) ok by (simp add: d numeral_3_eq_3)
  next
    case 4
    then show ?thesis using assms big by (auto simp: decode_rune_def)
  qed
  then show "n \<le> length bs" and "decode_rune b (take n bs @ ys) = (r, n)" by simp_all
qed

lemma decode_none: "decode_rune b bs = (r, 0) \<Longrightarrow> \<not> b < 128 \<Longrightarrow> r = 65533"
  by (auto simp: decode_rune_def split: if_split_asm list.splits)

lemma hex_val_char [simp]: "d < 16 \<Longrightarrow> hex_val (hex_char d) = Some d"
  by (auto simp: hex_val_def hex_char_def byte_char_of Let_def)

lemma scan_u:
  assumes "hex_digits 4 0 (ds @ rest) = Some (r, rest)" and "\<not> (55296 \<le> r \<and> r \<le> 57343)"
  shows "scan_string (backslash # CHR ''u'' # ds @ rest) = push (of_bytes (encode_rune r)) (scan_string rest)"
  using assms by (auto simp: scan_string.simps(2) surrogate_def)

lemma hex_digits_4: "hex_digits 4 0 (a # b # c # d # rest) =
    Option.bind (hex_val a) (\<lambda>a. Option.bind (hex_val b) (\<lambda>b. Option.bind (hex_val c) (\<lambda>c.
      map_option (\<lambda>d. (((a * 16 + b) * 16 + c) * 16 + d, rest)) (hex_val d))))"
  by (simp add: numeral_eq_Suc split: option.split)

lemma hex_constants [simp]:
  "hex_val (CHR ''0'') = Some 0" "hex_val (CHR ''2'') = Some 2" "hex_val (CHR ''f'') = Some 15" "hex_val (CHR ''d'') = Some 13"
  by (simp_all add: hex_val_def byte_def Let_def)

lemma scan_ascii:
  assumes "byte c < 128"
  shows "scan_string (quote_ascii c @ rest) = push [c] (scan_string rest)"
proof -
  let ?b = "byte c"
  have c: "c = char_of n" if "byte c = n" for n using that char_of_byte [of c] by simp
  consider "c = quotation \<or> c = backslash" | "?b = 10 \<or> ?b = 13 \<or> ?b = 9"
    | "?b < 32 \<or> ?b = 60 \<or> ?b = 62 \<or> ?b = 38" "c \<noteq> quotation" "c \<noteq> backslash" "?b \<noteq> 10" "?b \<noteq> 13" "?b \<noteq> 9"
    | "quote_ascii c = [c]" "32 \<le> ?b" "c \<noteq> quotation" "c \<noteq> backslash"
    unfolding quote_ascii_def Let_def by (cases "?b < 32 \<or> ?b = 60 \<or> ?b = 62 \<or> ?b = 38") auto
  then show ?thesis
  proof cases
    case 1
    then show ?thesis by (auto simp: quote_ascii_def Let_def scan_string.simps(2) escaped_def)
  next
    case 2
    then show ?thesis
      using c [of 10] c [of 13] c [of 9]
      by (auto simp: quote_ascii_def Let_def scan_string.simps(2) escaped_def byte_char_of)
  next
    case 3
    then have q: "quote_ascii c = [backslash, CHR ''u'', CHR ''0'', CHR ''0'', hex_char (?b div 16), hex_char (?b mod 16)]"
      by (auto simp: quote_ascii_def Let_def)
    have "?b div 16 < 16" using assms by simp
    then show ?thesis
      using scan_u [of "[CHR ''0'', CHR ''0'', hex_char (?b div 16), hex_char (?b mod 16)]" rest ?b] assms
      by (simp add: q hex_digits_4 encode_rune_def of_bytes_def)
  next
    case 4
    then show ?thesis using assms by (simp add: scan_string.simps(2))
  qed
qed

lemma push_push: "push s (push t x) = push (s @ t) x"
  by (cases x) (auto simp: push_def)

lemma scan_quoted: "scan_string (quote_chars s @ quotation # rest) = Some (as_utf8 s, rest)"
proof (induction s rule: quote_chars.induct)
  case 1
  then show ?case by (simp add: scan_string.simps(2))
next
  case (2 c cs)
  show ?case
  proof (cases "byte c < 128")
    case True
    then show ?thesis
      using 2(1) by (simp add: quote_chars.simps(2) scan_ascii as_utf8_ascii push_def)
  next
    case False
    obtain r n where d: "decode_rune (byte c) (map byte cs) = (r, n)" by fastforce
    have IH: "scan_string (quote_chars (drop n cs) @ quotation # rest) = Some (as_utf8 (drop n cs), rest)"
      using 2(2) [OF False d [symmetric]] .
    have goal: "as_utf8 (c # cs) = of_bytes (encode_rune r) @ as_utf8 (drop n cs)" by (simp add: as_utf8_Cons d)
    consider "r = 65533" "n = 0" | "r = 8232 \<or> r = 8233" | "r \<noteq> 8232" "r \<noteq> 8233" "0 < n"
      using decode_none [of "byte c" "map byte cs" r] d False by fastforce
    then show ?thesis
    proof cases
      case 1
      then show ?thesis
        using scan_u [of "[CHR ''f'', CHR ''f'', CHR ''f'', CHR ''d'']" "quote_chars cs @ quotation # rest" 65533] IH False d goal
        by (simp add: quote_chars.simps(2) hex_digits_4 push_def)
    next
      case 2
      then have "r mod 16 < 16" "(2 * 16 + 0) * 16 * 16 + 2 * 16 + r mod 16 = r" by auto
      then show ?thesis
        using scan_u [of "[CHR ''2'', CHR ''0'', CHR ''2'', hex_char (r mod 16)]" "quote_chars (drop n cs) @ quotation # rest" r]
          IH False d goal 2
        by (auto simp: quote_chars.simps(2) hex_digits_4 push_def)
    next
      case 3
      note p = decode_prefix [OF d 3(3)]
      have "drop n (take n cs @ quote_chars (drop n cs) @ quotation # rest) = quote_chars (drop n cs) @ quotation # rest"
        using p(1) by simp
      moreover have "decode_rune (byte c) (map byte (take n cs @ quote_chars (drop n cs) @ quotation # rest)) = (r, n)"
        using p(2) by (simp add: take_map)
      moreover have "c \<noteq> quotation" "c \<noteq> backslash" using False by (auto simp: byte_def)
      ultimately have "scan_string (c # take n cs @ quote_chars (drop n cs) @ quotation # rest) =
          push (of_bytes (encode_rune r)) (Some (as_utf8 (drop n cs), rest))"
        using False by (subst scan_string.simps(2)) (simp add: IH)
      then show ?thesis using 3 False d goal by (simp add: quote_chars.simps(2) push_def)
    qed
  qed
qed

text \<open>The recursion without its redundant tests.\<close>

lemma parse_members_eq:
  "parse_members (quotation # r) =
     (case scan_string r of
        None \<Rightarrow> None
      | Some (k, r1) \<Rightarrow>
          (case skip_ws r1 of
             [] \<Rightarrow> None
           | d # r2 \<Rightarrow>
               if d \<noteq> CHR '':'' then None
               else
                 (case parse_value r2 of
                    None \<Rightarrow> None
                  | Some (v, r3) \<Rightarrow>
                      (case skip_ws r3 of
                         [] \<Rightarrow> None
                       | e # r4 \<Rightarrow>
                           if e = CHR '','' then map_option (apfst (Cons (k, v))) (parse_members r4)
                           else if e = CHR ''}'' then Some ([(k, v)], r4) else None))))"
proof -
  have s: "skip_ws (quotation # r) = quotation # r" by (simp add: skip_ws_def space_def byte_def)
  show ?thesis
    unfolding parse_members.simps [of "quotation # r"] s
    using parse_value_length(1) by (fastforce split: option.split list.split)
qed

lemma parse_elements_eq:
  "parse_elements s =
     (case parse_value s of
        None \<Rightarrow> None
      | Some (v, r) \<Rightarrow>
          (case skip_ws r of
             [] \<Rightarrow> None
           | e # r' \<Rightarrow>
               if e = CHR '','' then map_option (apfst (Cons v)) (parse_elements r')
               else if e = CHR '']'' then Some ([v], r') else None))"
  unfolding parse_elements.simps [of s] using parse_value_length(1) [of s] by (fastforce split: option.split list.split)

text \<open>Integer literals.\<close>

definition delimited :: "string \<Rightarrow> bool" where
  "delimited rest \<longleftrightarrow> (case rest of [] \<Rightarrow> True | c # _ \<Rightarrow> c = CHR '','' \<or> c = CHR ''}'' \<or> c = CHR '']'')"

lemma digit_char_digit: "d < 10 \<Longrightarrow> is_digit (digit_char d)"
  by (simp add: is_digit_def digit_char_def byte_def)

lemma show_nat_digits: "c \<in> set (show_nat n) \<Longrightarrow> is_digit c"
proof (induction n rule: show_nat.induct)
  case (1 n)
  then show ?case by (auto simp: show_nat.simps [of n] digit_char_digit split: if_splits)
qed

lemma show_nat_first: "0 < n \<Longrightarrow> \<exists>c cs. show_nat n = c # cs \<and> c \<noteq> CHR ''0''"
proof (induction n rule: show_nat.induct)
  case (1 n)
  have "digit_char d \<noteq> CHR ''0''" if "0 < d" "d < 10" for d
  proof -
    have "byte (digit_char d) \<noteq> byte (CHR ''0'')" using that by (simp add: digit_char_def byte_def)
    then show ?thesis by auto
  qed
  then show ?case
  proof (cases "n < 10")
    case False
    then have "0 < n div 10" by simp
    then obtain c cs where "show_nat (n div 10) = c # cs" "c \<noteq> CHR ''0''" using 1 False by blast
    then show ?thesis using False by (simp add: show_nat.simps [of n])
  qed (use 1 in \<open>simp add: show_nat.simps [of n]\<close>)
qed

lemma delimited_no_digit: "delimited rest \<Longrightarrow> takeWhile is_digit rest = [] \<and> dropWhile is_digit rest = rest"
  by (auto simp: delimited_def is_digit_def byte_def split: list.splits)

lemma scan_show_nat:
  assumes "delimited rest"
  shows "scan_integer (show_nat n @ rest) = Some (show_nat n, rest)"
proof (cases "n = 0")
  case True
  have "digit_char 0 = CHR ''0''" by code_simp
  with True show ?thesis by (simp add: show_nat.simps [of 0] scan_integer_def)
next
  case False
  then obtain c cs where s: "show_nat n = c # cs" "c \<noteq> CHR ''0''" using show_nat_first by blast
  have "takeWhile is_digit (show_nat n @ rest) = show_nat n" "dropWhile is_digit (show_nat n @ rest) = rest"
    using show_nat_digits [of _ n] delimited_no_digit [OF assms] by (simp_all add: takeWhile_append2 dropWhile_append2)
  then show ?thesis using s by (simp add: scan_integer_def scan_digits_def)
qed

lemma scan_end: "delimited rest \<Longrightarrow> scan_fraction rest = Some ([], rest)"
  "delimited rest \<Longrightarrow> scan_exponent rest = Some ([], rest)"
  by (auto simp: delimited_def scan_fraction_def scan_exponent_def split: list.splits)

lemma scan_Itoa: "delimited rest \<Longrightarrow> scan_number (Itoa z @ rest) = Some (Itoa z, rest)"
proof -
  assume r: "delimited rest"
  obtain c cs where s: "show_nat (nat (sint z)) = c # cs" "c \<noteq> CHR ''-''"
    using show_nat_hd [of "nat (sint z)"] by blast
  have i: "scan_integer (c # cs @ rest) = Some (c # cs, rest)"
    using scan_show_nat [OF r, of "nat (sint z)"] by (simp add: s)
  show ?thesis
  proof (cases "z <s 0")
    case True
    then show ?thesis
      using scan_show_nat [OF r, of "nat (- sint z)"] by (simp add: scan_number_def Itoa_def scan_end r push_def)
  next
    case False
    then show ?thesis using s(2) i by (simp add: scan_number_def Itoa_def s(1) scan_end r push_def)
  qed
qed

lemma Itoa_first:
  obtains c cs where "Itoa z = c # cs" and "c = CHR ''-'' \<or> is_digit c"
proof -
  obtain c cs where "show_nat (nat (sint z)) = c # cs" using show_nat_hd [of "nat (sint z)"] by blast
  moreover from this have "is_digit c" using show_nat_digits [of c "nat (sint z)"] by simp
  ultimately show thesis using that by (cases "z <s 0") (simp_all add: Itoa_def)
qed

section \<open>Round trip\<close>

fun utf8_json :: "json \<Rightarrow> json" where
  "utf8_json (JString s) = JString (as_utf8 s)"
| "utf8_json (JArray vs) = JArray (map utf8_json vs)"
| "utf8_json (JObject ms) = JObject (map (\<lambda>(k, v). (as_utf8 k, utf8_json v)) ms)"
| "utf8_json v = v"

text \<open>The values that are written have integer numbers.\<close>

fun integral :: "json \<Rightarrow> bool" where
  "integral (JNumber lit) = (\<exists>z :: i64. lit = Itoa z)"
| "integral (JArray vs) = list_all integral vs"
| "integral (JObject ms) = list_all (\<lambda>(_, v). integral v) ms"
| "integral _ = True"

lemma skip_ws_id: "\<not> space c \<Longrightarrow> skip_ws (c # cs) = c # cs"
  by (simp add: skip_ws_def)

lemma not_space [simp]:
  "\<not> space quotation" "\<not> space (CHR ''{'')" "\<not> space (CHR ''['')" "\<not> space (CHR ''}'')" "\<not> space (CHR '']'')"
  "\<not> space (CHR '','')" "\<not> space (CHR '':'')" "\<not> space (CHR ''n'')" "\<not> space (CHR ''t'')" "\<not> space (CHR ''f'')"
  "\<not> space (CHR ''-'')" "is_digit c \<Longrightarrow> \<not> space c"
  by (auto simp: space_def byte_def is_digit_def)

lemma digit_not [simp]:
  "\<not> is_digit quotation" "\<not> is_digit (CHR ''{'')" "\<not> is_digit (CHR ''['')" "\<not> is_digit (CHR '']'')" "\<not> is_digit (CHR ''n'')"
  "\<not> is_digit (CHR ''t'')" "\<not> is_digit (CHR ''f'')"
  by (simp_all add: is_digit_def byte_def)

lemma render_first:
  assumes "integral v"
  obtains c cs where "render v = c # cs" and "\<not> space c" and "c \<noteq> CHR '']''"
proof (cases v)
  case (JNumber lit)
  then obtain z where z: "lit = Itoa z" using assms by auto
  obtain c cs where "Itoa z = c # cs" "c = CHR ''-'' \<or> is_digit c" by (rule Itoa_first)
  then show thesis using that [of c cs] JNumber z by fastforce
next
  case (JBool b)
  then show thesis using that by (cases b) simp_all
qed (use that in \<open>auto simp: quote_def split: if_splits\<close>)

lemma scan_quote: "scan_string (quote_chars s @ quotation # rest) = Some (as_utf8 s, rest)"
  by (rule scan_quoted)

lemma parse_elements_render:
  assumes "vs \<noteq> []" and "\<And>v rest. v \<in> set vs \<Longrightarrow> delimited rest \<Longrightarrow> parse_value (render v @ rest) = Some (utf8_json v, rest)"
  shows "parse_elements (commas (map render vs) @ CHR '']'' # rest) = Some (map utf8_json vs, rest)"
  using assms
proof (induction vs)
  case (Cons v vs)
  show ?case
  proof (cases vs)
    case Nil
    have "parse_value (render v @ CHR '']'' # rest) = Some (utf8_json v, CHR '']'' # rest)"
      by (rule Cons.prems(2)) (simp_all add: delimited_def)
    then show ?thesis by (simp add: Nil parse_elements_eq skip_ws_id)
  next
    case (Cons w ws)
    let ?t = "commas (map render vs) @ CHR '']'' # rest"
    have "parse_value (render v @ CHR '','' # ?t) = Some (utf8_json v, CHR '','' # ?t)"
      by (rule Cons.prems(2)) (simp_all add: delimited_def)
    moreover have "parse_elements ?t = Some (map utf8_json vs, rest)"
      using Cons.IH Cons.prems(2) Cons by simp
    ultimately show ?thesis by (simp add: Cons parse_elements_eq [of "render v @ _"] skip_ws_id)
  qed
qed simp

definition render_member :: "string \<times> json \<Rightarrow> string" where
  "render_member kv = (case kv of (k, v) \<Rightarrow> quote k @ CHR '':'' # render v)"

lemma parse_members_render:
  assumes "ms \<noteq> []" and "\<And>k v rest. (k, v) \<in> set ms \<Longrightarrow> delimited rest \<Longrightarrow> parse_value (render v @ rest) = Some (utf8_json v, rest)"
  shows "parse_members (commas (map render_member ms) @ CHR ''}'' # rest) =
    Some (map (\<lambda>(k, v). (as_utf8 k, utf8_json v)) ms, rest)"
  using assms
proof (induction ms)
  case (Cons kv ms)
  obtain k v where kv: "kv = (k, v)" by (cases kv)
  have one: "parse_members (render_member kv @ t) =
      (case skip_ws t of
         [] \<Rightarrow> None
       | e # r4 \<Rightarrow>
           if e = CHR '','' then map_option (apfst (Cons (as_utf8 k, utf8_json v))) (parse_members r4)
           else if e = CHR ''}'' then Some ([(as_utf8 k, utf8_json v)], r4) else None)" if "delimited t" for t
  proof -
    have "parse_value (render v @ t) = Some (utf8_json v, t)" using Cons.prems(2) [of k v t] kv that by simp
    then show ?thesis by (simp add: kv render_member_def quote_def parse_members_eq scan_quote skip_ws_id)
  qed
  show ?case
  proof (cases ms)
    case Nil
    then show ?thesis by (simp add: one [unfolded kv] delimited_def skip_ws_id kv)
  next
    case (Cons w ws)
    have "parse_members (commas (map render_member ms) @ CHR ''}'' # rest) =
        Some (map (\<lambda>(k, v). (as_utf8 k, utf8_json v)) ms, rest)"
      using Cons.IH Cons.prems(2) Cons by fastforce
    then show ?thesis by (simp add: Cons one [unfolded kv] delimited_def skip_ws_id kv)
  qed
qed simp

lemma parse_render: "integral v \<Longrightarrow> delimited rest \<Longrightarrow> parse_value (render v @ rest) = Some (utf8_json v, rest)"
proof (induction v arbitrary: rest)
  case JNull
  then show ?case by (simp add: parse_value.simps skip_ws_id scan_scalar_def keyword_end_def)
next
  case (JBool b)
  then show ?case by (simp add: parse_value.simps skip_ws_id scan_scalar_def keyword_end_def)
next
  case (JNumber lit)
  then obtain z where z: "lit = Itoa z" by auto
  obtain c cs where c: "Itoa z = c # cs" "c = CHR ''-'' \<or> is_digit c" by (rule Itoa_first)
  have n: "scan_number (c # cs @ rest) = Some (c # cs, rest)" using scan_Itoa [OF JNumber(2), of z] by (simp add: c(1))
  have "c \<noteq> CHR ''{''" "c \<noteq> CHR ''[''" "c \<noteq> quotation" "c \<noteq> CHR ''t''" "c \<noteq> CHR ''f''" "c \<noteq> CHR ''n''" "\<not> space c"
    using c(2) by auto
  then show ?case by (simp add: z c(1) parse_value.simps skip_ws_id scan_scalar_def n)
next
  case (JString s)
  then show ?case by (simp add: parse_value.simps quote_def skip_ws_id scan_scalar_def scan_quote)
next
  case (JArray vs)
  show ?case
  proof (cases vs)
    case Nil
    then show ?thesis by (simp add: parse_value.simps skip_ws_id)
  next
    case (Cons w ws)
    then obtain c cs where c: "render w = c # cs" "\<not> space c" "c \<noteq> CHR '']''"
      using JArray.prems render_first [of w] by auto
    have "parse_elements (commas (map render vs) @ CHR '']'' # rest) = Some (map utf8_json vs, rest)"
      by (rule parse_elements_render) (use JArray Cons in \<open>auto simp: list_all_iff\<close>)
    moreover obtain t where "commas (map render vs) = c # t"
      using c(1) by (cases ws) (simp_all add: Cons)
    ultimately show ?thesis
      using c by (simp add: parse_value.simps skip_ws_id)
  qed
next
  case (JObject ms)
  have r: "map (\<lambda>(k, v). quote k @ CHR '':'' # render v) ms = map render_member ms"
    by (simp add: render_member_def cong: map_cong)
  show ?case
  proof (cases ms)
    case Nil
    then show ?thesis by (simp add: parse_value.simps skip_ws_id)
  next
    case (Cons w ws)
    have "parse_members (commas (map render_member ms) @ CHR ''}'' # rest) =
        Some (map (\<lambda>(k, v). (as_utf8 k, utf8_json v)) ms, rest)"
    proof (rule parse_members_render)
      fix k v rest assume m: "(k, v) \<in> set ms" and d: "delimited rest"
      then have "integral v" using JObject.prems by (auto simp: list_all_iff)
      then show "parse_value (render v @ rest) = Some (utf8_json v, rest)"
        using JObject.IH [OF m, of v rest] d by simp
    qed (simp add: Cons)
    moreover obtain t where "commas (map render_member ms) = quotation # t"
      by (cases ws; cases w) (auto simp: Cons render_member_def quote_def)
    ultimately show ?thesis unfolding render.simps r by (simp add: parse_value.simps skip_ws_id)
  qed
qed

section \<open>What is read is UTF-8\<close>

lemma as_utf8_encode: "valid_rune r \<Longrightarrow> as_utf8 (of_bytes (encode_rune r) @ s) = of_bytes (encode_rune r) @ as_utf8 s"
proof -
  assume r: "valid_rune r"
  have "map byte (of_bytes (encode_rune r)) = encode_rune r"
    using encode_byte [of _ r] by (simp add: of_bytes_def map_idI byte_char_of)
  then show ?thesis by (simp add: as_utf8_def runes_encode r) (simp add: of_bytes_def)
qed

lemma hex_bound: "hex_digits n acc cs = Some (r, cs') \<Longrightarrow> r < (acc + 1) * 16 ^ n"
proof (induction n acc cs rule: hex_digits.induct)
  case (3 n acc c cs)
  then obtain d where d: "hex_val c = Some d" "hex_digits n (acc * 16 + d) cs = Some (r, cs')" by (auto split: option.splits)
  then have "d < 16" by (auto simp: hex_val_def Let_def split: if_splits)
  have "r < (acc * 16 + d + 1) * 16 ^ n" using 3 d by simp
  also have "\<dots> \<le> ((acc + 1) * 16) * 16 ^ n" using \<open>d < 16\<close> by (intro mult_right_mono) simp_all
  finally show ?case by (simp add: algebra_simps)
qed simp_all

lemma surrogate_valid:
  assumes "hex_digits 4 0 cs = Some (r, rest)" and "surrogate r rest = (r', n)"
  shows "valid_rune r'"
proof -
  have "r < 65536" using hex_bound [OF assms(1)] by simp
  then show ?thesis
    using assms(2) by (auto simp: surrogate_def valid_rune_def split: if_splits option.splits)
qed

lemma scan_string_utf8: "scan_string s = Some (t, r) \<Longrightarrow> as_utf8 t = t"
proof (induction s arbitrary: t rule: length_induct)
  case (1 s)
  have IH: "as_utf8 t' = t'" if "scan_string u = Some (t', r)" "length u < length s" for u t'
    using 1(1) that by blast
  show ?case
  proof (cases s)
    case (Cons c cs)
    note unfold = 1(2) [unfolded Cons scan_string.simps(2)]
    have more: "cs \<noteq> []" if "c = backslash" using unfold that by auto
    consider "c = quotation" | e cs' where "c = backslash" "cs = e # cs'" "e = CHR ''u''"
      | e cs' where "c = backslash" "cs = e # cs'" "e \<noteq> CHR ''u''"
      | "c \<noteq> quotation" "c \<noteq> backslash" "byte c < 128" | "c \<noteq> quotation" "c \<noteq> backslash" "\<not> byte c < 128"
      using more by (cases cs) auto
    then show ?thesis
    proof cases
      case 1
      then show ?thesis using unfold by simp
    next
      case 2
      then obtain q cs'' where h: "hex_digits 4 0 cs' = Some (q, cs'')" using unfold by (auto split: option.splits)
      obtain q' n where q: "surrogate q cs'' = (q', n)" by fastforce
      from unfold 2 h q obtain t' where t': "scan_string (drop n cs'') = Some (t', r)" "t = of_bytes (encode_rune q') @ t'"
        by (auto simp: push_Some)
      have "as_utf8 t' = t'" by (rule IH [OF t'(1)]) (use hex_digits_length [OF h] in \<open>simp add: Cons 2\<close>)
      then show ?thesis using as_utf8_encode [OF surrogate_valid [OF h q]] t'(2) by simp
    next
      case 3
      then obtain x t' where x: "escaped e = Some x" "scan_string cs' = Some (t', r)" "t = x # t'"
        using unfold by (auto simp: push_Some split: option.splits)
      have "as_utf8 t' = t'" by (rule IH [OF x(2)]) (simp add: Cons 3)
      moreover have "byte x < 128" using x(1) by (auto simp: escaped_def byte_def split: if_splits)
      ultimately show ?thesis by (simp add: x(3) as_utf8_ascii)
    next
      case 4
      then obtain t' where t': "scan_string cs = Some (t', r)" "t = c # t'"
        using unfold by (auto simp: push_Some split: if_splits)
      have "as_utf8 t' = t'" by (rule IH [OF t'(1)]) (simp add: Cons)
      then show ?thesis using 4 by (simp add: t'(2) as_utf8_ascii)
    next
      case 5
      obtain q n where q: "decode_rune (byte c) (map byte cs) = (q, n)" by fastforce
      with unfold 5 obtain t' where t': "scan_string (drop n cs) = Some (t', r)" "t = of_bytes (encode_rune q) @ t'"
        by (auto simp: push_Some)
      have "as_utf8 t' = t'" by (rule IH [OF t'(1)]) (simp add: Cons)
      moreover have "valid_rune q" using decode_valid [of "byte c" "map byte cs"] q by simp
      ultimately show ?thesis by (simp add: t'(2) as_utf8_encode)
    qed
  qed (use 1(2) in simp)
qed

lemma scan_scalar_utf8: "scan_scalar c s = Some (v, r) \<Longrightarrow> utf8_json v = v"
  by (auto simp: scan_scalar_def keyword_end_def scan_string_utf8 split: if_splits)

text \<open>So what is read has no byte that is not UTF-8, and would be read back as it is.\<close>

lemma parse_value_utf8:
  "parse_value s = Some (v, r) \<longrightarrow> utf8_json v = v"
  "parse_members s' = Some (ms, r) \<longrightarrow> map (\<lambda>(k, v). (as_utf8 k, utf8_json v)) ms = ms"
  "parse_elements s'' = Some (vs, r) \<longrightarrow> map utf8_json vs = vs"
proof (induction s and s' and s'' arbitrary: v r and ms r and vs r
    rule: parse_value_parse_members_parse_elements.induct)
  case (1 s)
  show ?case
  proof
    assume p: "parse_value s = Some (v, r)"
    then obtain c t where s: "skip_ws s = c # t" by (cases "skip_ws s") (simp_all add: parse_value.simps)
    consider "c = CHR ''{''" | "c = CHR ''[''" | "c \<noteq> CHR ''{''" "c \<noteq> CHR ''[''" by blast
    then show "utf8_json v = v"
    proof cases
      case 1
      then obtain d t' where t: "skip_ws t = d # t'"
        using p by (cases "skip_ws t") (simp_all add: parse_value.simps [of s] s)
      have "map (\<lambda>(k, v). (as_utf8 k, utf8_json v)) ms = ms" if "d \<noteq> CHR ''}''" "parse_members t = Some (ms, r)" for ms
        using "1.IH"(1) [OF s 1 t that(1)] that(2) by blast
      with p 1 t show ?thesis by (fastforce simp: parse_value.simps [of s] s split: if_splits)
    next
      case 2
      then obtain d t' where t: "skip_ws t = d # t'"
        using p by (cases "skip_ws t") (simp_all add: parse_value.simps [of s] s)
      have "map utf8_json vs = vs" if "d \<noteq> CHR '']''" "parse_elements t = Some (vs, r)" for vs
        using "1.IH"(2) [OF s _ 2 t that(1)] 2 that(2) by auto
      with p 2 t show ?thesis by (fastforce simp: parse_value.simps [of s] s split: if_splits)
    next
      case 3
      then have "scan_scalar c t = Some (v, r)" using p by (simp add: parse_value.simps [of s] s)
      then show ?thesis by (rule scan_scalar_utf8)
    qed
  qed
next
  case (2 s)
  show ?case
  proof
    assume p: "parse_members s = Some (ms, r)"
    then obtain c t where s: "skip_ws s = c # t" "c = quotation"
      by (cases "skip_ws s") (auto simp: parse_members.simps split: if_splits)
    from p obtain k r1 where k: "scan_string t = Some (k, r1)"
      by (auto simp: parse_members.simps [of s] s split: option.splits)
    from p obtain d r2 where d: "skip_ws r1 = d # r2" "d = CHR '':''"
      by (cases "skip_ws r1") (auto simp: parse_members.simps [of s] s k split: if_splits)
    from p obtain w r3 where w: "parse_value r2 = Some (w, r3)" "length r3 \<le> length r2"
      by (auto simp: parse_members.simps [of s] s k d not_less split: option.splits if_splits)
    from p obtain e r4 where e: "skip_ws r3 = e # r4"
      by (cases "skip_ws r3") (auto simp: parse_members.simps [of s] s k d w split: if_splits)
    have kw: "as_utf8 k = k" "utf8_json w = w"
      using scan_string_utf8 [OF k] "2.IH"(1) [OF s(1) _ k refl d(1)] s(2) d(2) w(1) by simp_all
    show "map (\<lambda>(k, v). (as_utf8 k, utf8_json v)) ms = ms"
    proof (cases "e = CHR '',''")
      case True
      then obtain ms' where m: "parse_members r4 = Some (ms', r)" "ms = (k, w) # ms'"
        using p w by (auto simp: parse_members.simps [of s] s k d e split: if_splits)
      then have "map (\<lambda>(k, v). (as_utf8 k, utf8_json v)) ms' = ms'"
        using "2.IH"(2) [OF s(1) _ k refl d(1) _ w(1) refl _ e True] s(2) d(2) w(2) by simp
      then show ?thesis using kw by (simp add: m(2))
    next
      case False
      then show ?thesis using p w kw by (auto simp: parse_members.simps [of s] s k d e split: if_splits)
    qed
  qed
next
  case (3 s)
  show ?case
  proof
    assume p: "parse_elements s = Some (vs, r)"
    then obtain w t where w: "parse_value s = Some (w, t)" "length t \<le> length s"
      by (auto simp: parse_elements.simps [of s] not_less split: option.splits if_splits)
    from p obtain e t' where e: "skip_ws t = e # t'"
      by (cases "skip_ws t") (auto simp: parse_elements.simps [of s] w split: if_splits)
    have one: "utf8_json w = w" using "3.IH"(1) w(1) by simp
    show "map utf8_json vs = vs"
    proof (cases "e = CHR '',''")
      case True
      then obtain vs' where v: "parse_elements t' = Some (vs', r)" "vs = w # vs'"
        using p w by (auto simp: parse_elements.simps [of s] e split: if_splits)
      then have "map utf8_json vs' = vs'" using "3.IH"(2) [OF w(1) refl _ e True] w(2) by simp
      then show ?thesis using one by (simp add: v(2))
    next
      case False
      then show ?thesis using p w one by (auto simp: parse_elements.simps [of s] e split: if_splits)
    qed
  qed
qed

end
