(* ===== verification/RateJson.thy ===== *)
theory RateJson
  imports Strconv Json "HOL-Library.Multiset" "HOL-Library.List_Lexorder" "HOL-Library.Char_ord"
begin

text \<open>
  The JSON of rate configurations: the text of the file \<open>rateconfig.json\<close> that store/store.go writes and
  reads, and the body that \<open>PUT /rate\<close> of store/http/server.go decodes, with \<open>encoding/json\<close>'s rules for
  structs (field names regardless of case, values of other types skipped, the last of repeated
  fields). A JSON \<open>null\<close> makes a nil pointer or a nil map.
\<close>

section \<open>Reading Go values\<close>

text \<open>
  A value that does not fit the Go type is an error that \<open>Unmarshal\<close> keeps for its caller, who ignores
  it here; what was there before stays.
\<close>

definition read_int :: "json \<Rightarrow> i64 \<Rightarrow> i64" where
  "read_int v old = (case v of JNumber lit \<Rightarrow> (case Atoi lit of None \<Rightarrow> old | Some n \<Rightarrow> n) | _ \<Rightarrow> old)"

definition read_int32 :: "json \<Rightarrow> i32 \<Rightarrow> i32" where
  "read_int32 v old =
     (case v of
        JNumber lit \<Rightarrow>
          (case Atoi lit of
             None \<Rightarrow> old
           | Some n \<Rightarrow> if - 2147483648 \<le> sint n \<and> sint n \<le> 2147483647 then scast n else old)
      | _ \<Rightarrow> old)"

definition read_bool :: "json \<Rightarrow> bool \<Rightarrow> bool" where
  "read_bool v old = (case v of JBool b \<Rightarrow> b | _ \<Rightarrow> old)"

definition read_string :: "json \<Rightarrow> string \<Rightarrow> string" where
  "read_string v old = (case v of JString s \<Rightarrow> s | _ \<Rightarrow> old)"

text \<open>Field names match without regard to case; the Kelvin sign U+212A counts as a \<open>k\<close>.\<close>

definition upcase :: "char \<Rightarrow> char" where
  "upcase c = (if 97 \<le> byte c \<and> byte c \<le> 122 then char_of (byte c - 32) else c)"

fun fold_key :: "string \<Rightarrow> string" where
  "fold_key [] = []"
| "fold_key [c] = [upcase c]"
| "fold_key [c, d] = [upcase c, upcase d]"
| "fold_key (c # d # e # cs) =
     (if byte c = 226 \<and> byte d = 132 \<and> byte e = 170 then CHR ''K'' # fold_key cs
      else upcase c # fold_key (d # e # cs))"

section \<open>Rate configurations\<close>

record RateConfig =
  Window :: i32
  Limit :: i32
  PeakAveraged :: bool

text \<open>
  The map of the store, \<open>map[string]*RateConfig\<close>: an entry can be a nil pointer, and the map itself can be
  nil (\<^const>\<open>None\<close>). A \<open>*RateConfig\<close> is never written through once it is in the map, so the map holds
  the values.
\<close>

type_synonym rate_map = "(string \<rightharpoonup> RateConfig option) option"

definition json_of_rate :: "RateConfig \<Rightarrow> json" where
  "json_of_rate rc =
     JObject [(''Window'', JNumber (Itoa (scast (Window rc)))), (''Limit'', JNumber (Itoa (scast (Limit rc)))),
       (''PeakAveraged'', JBool (PeakAveraged rc))]"

definition json_of_pointer :: "RateConfig option \<Rightarrow> json" where
  "json_of_pointer p = (case p of None \<Rightarrow> JNull | Some rc \<Rightarrow> json_of_rate rc)"

definition set_rate_field :: "string \<times> json \<Rightarrow> RateConfig \<Rightarrow> RateConfig" where
  "set_rate_field kv rc =
     (case kv of
        (k, v) \<Rightarrow>
          if fold_key k = ''WINDOW'' then rc\<lparr>Window := read_int32 v (Window rc)\<rparr>
          else if fold_key k = ''LIMIT'' then rc\<lparr>Limit := read_int32 v (Limit rc)\<rparr>
          else if fold_key k = ''PEAKAVERAGED'' then rc\<lparr>PeakAveraged := read_bool v (PeakAveraged rc)\<rparr>
          else rc)"

text \<open>A \<open>*RateConfig\<close>: nil for \<open>null\<close>, otherwise a new struct, whatever the value.\<close>

definition rate_of_json :: "json \<Rightarrow> RateConfig option" where
  "rate_of_json v =
     (case v of
        JNull \<Rightarrow> None
      | JObject ms \<Rightarrow> Some (fold set_rate_field ms \<lparr>Window = 0, Limit = 0, PeakAveraged = False\<rparr>)
      | _ \<Rightarrow> Some \<lparr>Window = 0, Limit = 0, PeakAveraged = False\<rparr>)"

section \<open>The file of rate configurations\<close>

text \<open>
  \<open>json.Marshal\<close> of the map writes the keys in order; \<open>ord\<close> is the order in which it ranges over the map.
  \<open>json.Unmarshal\<close> adds to the map that is there, or makes one; the text \<open>null\<close> makes it nil, a text that is
  no object leaves it alone.
\<close>

definition json_of_rates :: "string list \<Rightarrow> (string \<rightharpoonup> RateConfig option) \<Rightarrow> json" where
  "json_of_rates ord m =
     JObject (map (\<lambda>k. (k, case m k of None \<Rightarrow> JNull | Some p \<Rightarrow> json_of_pointer p)) (sort ord))"

definition Marshal_rates :: "string list \<Rightarrow> rate_map \<Rightarrow> string" where
  "Marshal_rates ord m = render (case m of None \<Rightarrow> JNull | Some m \<Rightarrow> json_of_rates ord m)"

definition parse_text :: "string \<Rightarrow> json option" where
  "parse_text s = (case parse_value s of None \<Rightarrow> None | Some (v, r) \<Rightarrow> if skip_ws r = [] then Some v else None)"

definition Unmarshal_rates :: "string \<Rightarrow> rate_map \<Rightarrow> rate_map" where
  "Unmarshal_rates s m =
     (case parse_text s of
        Some (JObject ms) \<Rightarrow>
          Some (fold (\<lambda>(k, v) m. m(k \<mapsto> rate_of_json v)) ms (case m of None \<Rightarrow> Map.empty | Some m \<Rightarrow> m))
      | Some JNull \<Rightarrow> None
      | _ \<Rightarrow> m)"

section \<open>Requests\<close>

text \<open>The struct \<open>PUT /rate\<close> decodes its body into: the first value of the text counts.\<close>

record rate_request =
  rr_Key :: string
  rr_Window :: i64
  rr_Limit :: i64
  rr_PeakAveraged :: bool

definition set_request_field :: "string \<times> json \<Rightarrow> rate_request \<Rightarrow> rate_request" where
  "set_request_field kv rr =
     (case kv of
        (k, v) \<Rightarrow>
          if fold_key k = ''KEY'' then rr\<lparr>rr_Key := read_string v (rr_Key rr)\<rparr>
          else if fold_key k = ''WINDOW'' then rr\<lparr>rr_Window := read_int v (rr_Window rr)\<rparr>
          else if fold_key k = ''LIMIT'' then rr\<lparr>rr_Limit := read_int v (rr_Limit rr)\<rparr>
          else if fold_key k = ''PEAKAVERAGED'' then rr\<lparr>rr_PeakAveraged := read_bool v (rr_PeakAveraged rr)\<rparr>
          else rr)"

definition Decode_rate :: "string \<Rightarrow> rate_request" where
  "Decode_rate s =
     (let zero = \<lparr>rr_Key = [], rr_Window = 0, rr_Limit = 0, rr_PeakAveraged = False\<rparr>
      in case parse_value s of
           Some (JObject ms, _) \<Rightarrow> fold set_request_field ms zero
         | _ \<Rightarrow> zero)"

section \<open>Texts and values\<close>

lemma parse_text_render: "integral v \<Longrightarrow> parse_text (render v) = Some (utf8_json v)"
  using parse_render [of v "[]"] by (simp add: parse_text_def delimited_def skip_ws_def)

lemma utf8_names [simp]:
  "as_utf8 ''Window'' = ''Window''" "as_utf8 ''Limit'' = ''Limit''" "as_utf8 ''PeakAveraged'' = ''PeakAveraged''"
  "as_utf8 ''Key'' = ''Key''"
  by (simp_all add: as_utf8_ascii byte_def)

lemma utf8_rate [simp]: "utf8_json (json_of_rate rc) = json_of_rate rc" "integral (json_of_rate rc)"
  unfolding json_of_rate_def by simp_all blast

lemma upcase_letters:
  "upcase (CHR ''W'') = CHR ''W''" "upcase (CHR ''L'') = CHR ''L''" "upcase (CHR ''P'') = CHR ''P''"
  "upcase (CHR ''A'') = CHR ''A''" "upcase (CHR ''K'') = CHR ''K''" "upcase (CHR ''i'') = CHR ''I''"
  "upcase (CHR ''n'') = CHR ''N''" "upcase (CHR ''d'') = CHR ''D''" "upcase (CHR ''o'') = CHR ''O''"
  "upcase (CHR ''w'') = CHR ''W''" "upcase (CHR ''m'') = CHR ''M''" "upcase (CHR ''t'') = CHR ''T''"
  "upcase (CHR ''e'') = CHR ''E''" "upcase (CHR ''a'') = CHR ''A''" "upcase (CHR ''k'') = CHR ''K''"
  "upcase (CHR ''v'') = CHR ''V''" "upcase (CHR ''r'') = CHR ''R''" "upcase (CHR ''g'') = CHR ''G''"
  "upcase (CHR ''y'') = CHR ''Y''"
  by code_simp+

lemma fold_names [simp]:
  "fold_key ''Window'' = ''WINDOW''" "fold_key ''Limit'' = ''LIMIT''" "fold_key ''PeakAveraged'' = ''PEAKAVERAGED''"
  "fold_key ''Key'' = ''KEY''"
  by (simp_all add: upcase_letters byte_def)

lemma narrow_wide: "(scast (scast (x :: i32) :: i64) :: i32) = x"
  by (simp add: scast_down_scast_id is_down)

lemma read_written [simp]:
  "read_int32 (JNumber (Itoa (scast x))) old = x" "read_int (JNumber (Itoa z)) old' = z" "read_bool (JBool b) old'' = b"
  using sint32_bounds [of x]
  by (simp_all only: read_int32_def read_int_def read_bool_def json.case Atoi_Itoa option.case sint64_scast32 narrow_wide
      simp_thms if_True)

lemma rate_roundtrip: "rate_of_json (json_of_rate rc) = Some rc"
proof -
  have "fold set_rate_field
      [(''Window'', JNumber (Itoa (scast (Window rc)))), (''Limit'', JNumber (Itoa (scast (Limit rc)))),
       (''PeakAveraged'', JBool (PeakAveraged rc))] zero = rc" for zero :: RateConfig
    by (simp only: fold_simps comp_apply id_apply set_rate_field_def prod.case fold_names read_written) simp
  then show ?thesis by (simp only: rate_of_json_def json_of_rate_def json.case)
qed

lemma pointer_roundtrip: "rate_of_json (json_of_pointer p) = p"
  by (cases p) (simp_all add: json_of_pointer_def rate_roundtrip, simp add: rate_of_json_def)

lemma utf8_pointer [simp]: "utf8_json (json_of_pointer p) = json_of_pointer p" "integral (json_of_pointer p)"
  by (cases p; simp add: json_of_pointer_def)+

lemma json_of_rates_reads:
  assumes "set ord \<subseteq> dom m"
  shows "integral (json_of_rates ord m)"
    and "utf8_json (json_of_rates ord m) = JObject (map (\<lambda>k. (as_utf8 k, json_of_pointer (the (m k)))) (sort ord))"
  using assms by (fastforce simp: json_of_rates_def list_all_iff split: option.split)+

lemma Unmarshal_Marshal:
  assumes "set ord \<subseteq> dom m"
  shows "Unmarshal_rates (Marshal_rates ord (Some m)) (Some m0) = Some (fold (\<lambda>k m'. m'(as_utf8 k := m k)) (sort ord) m0)"
proof -
  have "fold (\<lambda>(k, v) m'. m'(k \<mapsto> rate_of_json v)) (map (\<lambda>k. (as_utf8 k, json_of_pointer (the (m k)))) ks) m0 =
      fold (\<lambda>k m'. m'(as_utf8 k := m k)) ks m0" if "set ks \<subseteq> dom m" for ks
    using that by (induction ks arbitrary: m0) (auto simp: pointer_roundtrip)
  from this [of "sort ord"] show ?thesis
    using assms by (simp add: Unmarshal_rates_def Marshal_rates_def parse_text_render json_of_rates_reads)
qed

lemma Unmarshal_null: "Unmarshal_rates (Marshal_rates ord None) m = None"
  using parse_text_render [of JNull] by (simp add: Marshal_rates_def Unmarshal_rates_def)

lemma fold_put:
  "(\<And>k. k \<in> set ks \<Longrightarrow> f k = k) \<Longrightarrow>
   fold (\<lambda>k m'. m'(f k := m k)) ks m0 = (\<lambda>k. if k \<in> set ks then m k else m0 k)"
  by (induction ks arbitrary: m0) (auto simp: fun_eq_iff)


text \<open>A body that gives all four fields.\<close>

definition json_of_request :: "string \<Rightarrow> i64 \<Rightarrow> i64 \<Rightarrow> bool \<Rightarrow> json" where
  "json_of_request k w l p =
     JObject [(''Key'', JString k), (''Window'', JNumber (Itoa w)), (''Limit'', JNumber (Itoa l)), (''PeakAveraged'', JBool p)]"

lemma Decode_request:
  "Decode_rate (render (json_of_request k w l p)) =
     \<lparr>rr_Key = as_utf8 k, rr_Window = w, rr_Limit = l, rr_PeakAveraged = p\<rparr>"
proof -
  let ?ms = "[(''Key'', JString (as_utf8 k)), (''Window'', JNumber (Itoa w)), (''Limit'', JNumber (Itoa l)), (''PeakAveraged'', JBool p)]"
  have "integral (json_of_request k w l p)" unfolding json_of_request_def by simp blast
  moreover have "utf8_json (json_of_request k w l p) = JObject ?ms" by (simp add: json_of_request_def)
  ultimately have v: "parse_value (render (json_of_request k w l p)) = Some (JObject ?ms, [])"
    using parse_render [of "json_of_request k w l p" "[]"] by (simp add: delimited_def)
  have "fold set_request_field ?ms zero = \<lparr>rr_Key = as_utf8 k, rr_Window = w, rr_Limit = l, rr_PeakAveraged = p\<rparr>"
    for zero :: rate_request
    by (simp only: fold_simps comp_apply id_apply set_request_field_def prod.case fold_names read_written read_string_def json.case) simp
  then show ?thesis by (simp only: Decode_rate_def Let_def v option.case prod.case json.case)
qed

text \<open>Whatever the body, the key it sets is UTF-8.\<close>

lemma Decode_key_utf8: "as_utf8 (rr_Key (Decode_rate s)) = rr_Key (Decode_rate s)"
proof -
  have "as_utf8 (rr_Key (fold set_request_field ms rr)) = rr_Key (fold set_request_field ms rr)"
    if "map (\<lambda>(k, v). (as_utf8 k, utf8_json v)) ms = ms" "as_utf8 (rr_Key rr) = rr_Key rr" for ms rr
    using that
  proof (induction ms arbitrary: rr)
    case (Cons kv ms)
    obtain k v where kv: "kv = (k, v)" by (cases kv)
    have "as_utf8 (rr_Key (set_request_field kv rr)) = rr_Key (set_request_field kv rr)"
      using Cons.prems by (cases v) (auto simp: kv set_request_field_def read_string_def)
    then show ?case using Cons by simp
  qed simp
  note key = this
  show ?thesis
  proof (cases "\<exists>ms r. parse_value s = Some (JObject ms, r)")
    case True
    then obtain ms r where v: "parse_value s = Some (JObject ms, r)" by blast
    have "map (\<lambda>(k, v). (as_utf8 k, utf8_json v)) ms = ms"
      using parse_value_utf8(1) [of s "JObject ms" r] v by simp
    then show ?thesis by (simp add: Decode_rate_def v key)
  next
    case False
    then show ?thesis by (auto simp: Decode_rate_def Let_def split: option.split json.split)
  qed
qed

text \<open>A body that is no JSON, or whose first value is no object, sets nothing.\<close>

lemma Decode_no_object:
  assumes "case parse_value s of Some (JObject _, _) \<Rightarrow> False | _ \<Rightarrow> True"
  shows "Decode_rate s = \<lparr>rr_Key = [], rr_Window = 0, rr_Limit = 0, rr_PeakAveraged = False\<rparr>"
  using assms by (auto simp: Decode_rate_def Let_def split: option.splits json.splits)

lemma Marshal_rates_order: "mset ord = mset ord' \<Longrightarrow> Marshal_rates ord m = Marshal_rates ord' m"
proof -
  assume "mset ord = mset ord'"
  then have "sort ord = sort ord'" by (intro properties_for_sort) simp_all
  then show ?thesis by (simp only: Marshal_rates_def json_of_rates_def)
qed

lemma Unmarshal_Marshal_utf8:
  assumes "set ord = dom m" and "list_all (\<lambda>k. as_utf8 k = k) ord"
  shows "Unmarshal_rates (Marshal_rates ord (Some m)) (Some m0) = Some (m0 ++ m)"
proof -
  have "fold (\<lambda>k m'. m'(as_utf8 k := m k)) (sort ord) m0 = (\<lambda>k. if k \<in> set (sort ord) then m k else m0 k)"
    using assms(2) by (intro fold_put) (simp add: list_all_iff)
  also have "\<dots> = m0 ++ m" using assms(1) by (auto simp: fun_eq_iff map_add_def split: option.splits)
  finally show ?thesis using assms(1) by (simp add: Unmarshal_Marshal)
qed

lemma fold_put_dom: "set ks \<subseteq> dom m \<Longrightarrow> dom (fold (\<lambda>k m'. m'(f k := m k)) ks m0) = f ` set ks \<union> dom m0"
  by (induction ks arbitrary: m0) (auto simp: dom_def)

lemma Unmarshal_adds:
  assumes "Unmarshal_rates s (Some Map.empty) = Some m"
  shows "Unmarshal_rates s (Some m0) = Some (m0 ++ m)"
proof -
  have f: "fold (\<lambda>(k, v) m. m(k \<mapsto> rate_of_json v)) ms m0 = m0 ++ fold (\<lambda>(k, v) m. m(k \<mapsto> rate_of_json v)) ms Map.empty" for ms
  proof (induction ms rule: rev_induct)
    case (snoc kv ms)
    then show ?case by (cases kv) (simp del: fun_upd_apply)
  qed simp
  show ?thesis using assms f by (auto simp: Unmarshal_rates_def split: option.splits json.splits)
qed

text \<open>The keys of a map in the order in which they are written.\<close>

definition sorted_keys :: "rate_map \<Rightarrow> string list" where
  "sorted_keys m = (case m of None \<Rightarrow> [] | Some m \<Rightarrow> sorted_list_of_set (dom m))"

section \<open>Properties\<close>

text \<open>
  C25: the file of rate configurations is read back as it was written, up to the encoding of its
  keys. Whatever the configurations and in whatever order Go ranges over them, \<open>json.Unmarshal\<close> makes
  exactly the same map of the text of \<open>json.Marshal\<close> if the keys are UTF-8; otherwise its keys are
  those with the bytes that are not UTF-8 replaced, so that configurations are renamed, or merged,
  by a restart.
\<close>

theorem rate_file_read_back:
  assumes "set ord = dom m"
  shows "case Unmarshal_rates (Marshal_rates ord (Some m)) (Some Map.empty) of
      None \<Rightarrow> False
    | Some m' \<Rightarrow> if list_all (\<lambda>k. as_utf8 k = k) ord then m' = m else dom m' = as_utf8 ` dom m"
proof -
  have r: "Unmarshal_rates (Marshal_rates ord (Some m)) (Some Map.empty) = Some (fold (\<lambda>k m'. m'(as_utf8 k := m k)) (sort ord) Map.empty)"
    by (rule Unmarshal_Marshal) (simp add: assms)
  show ?thesis
  proof (cases "list_all (\<lambda>k. as_utf8 k = k) ord")
    case True
    then show ?thesis using Unmarshal_Marshal_utf8 [OF assms True, of Map.empty] by simp
  next
    case False
    have "set (sort ord) \<subseteq> dom m" by (simp add: assms)
    from fold_put_dom [OF this, of as_utf8 Map.empty] show ?thesis
      unfolding r option.case if_not_P [OF False] by (simp add: assms)
  qed
qed

definition sample_rates :: "string \<rightharpoonup> RateConfig option" where
  "sample_rates = [''k'' \<mapsto> Some \<lparr>Window = 60, Limit = 10, PeakAveraged = True\<rparr>,
     [char_of (255 :: nat)] \<mapsto> None]"

theorem rate_file_read_back_witness:
  "(case Unmarshal_rates (Marshal_rates [''k''] (Some (sample_rates |` {''k''}))) (Some Map.empty) of
     None \<Rightarrow> False
   | Some m' \<Rightarrow> m' = [''k'' \<mapsto> Some \<lparr>Window = 60, Limit = 10, PeakAveraged = True\<rparr>]) \<and>
   (case Unmarshal_rates (Marshal_rates [[char_of (255 :: nat)], ''k''] (Some sample_rates)) (Some Map.empty) of
     None \<Rightarrow> False
   | Some m' \<Rightarrow> dom m' = {of_bytes [239, 191, 189], ''k''})"
proof
  have k: "as_utf8 ''k'' = ''k''" by (simp add: as_utf8_ascii byte_def)
  have b: "as_utf8 [char_of (255 :: nat)] = of_bytes [239, 191, 189]"
    by (simp add: as_utf8_Cons byte_char_of decode_rune_def encode_rune_def valid_rune_def of_bytes_def)
  have "byte (char_of (255 :: nat)) \<noteq> byte (CHR ''k'')" by (simp add: byte_char_of) (simp add: byte_def)
  then have n: "[char_of (255 :: nat)] \<noteq> ''k''" "CHR ''k'' \<noteq> char_of (255 :: nat)" by auto
  let ?rc = "\<lparr>Window = 60, Limit = 10, PeakAveraged = True\<rparr>"
  have m: "sample_rates |` {''k''} = [''k'' \<mapsto> Some ?rc]"
    by (rule ext) (simp add: sample_rates_def restrict_map_def n)
  show "case Unmarshal_rates (Marshal_rates [''k''] (Some (sample_rates |` {''k''}))) (Some Map.empty) of
     None \<Rightarrow> False
   | Some m' \<Rightarrow> m' = [''k'' \<mapsto> Some ?rc]"
    using rate_file_read_back [of "[''k'']" "[''k'' \<mapsto> Some ?rc]"] unfolding m
    by (cases "Unmarshal_rates (Marshal_rates [''k''] (Some [''k'' \<mapsto> Some ?rc])) (Some Map.empty)") (simp_all add: k)
  have d: "set [[char_of (255 :: nat)], ''k''] = dom sample_rates" by (auto simp: sample_rates_def)
  have o3: "of_bytes [239, 191, 189] \<noteq> [char_of (255 :: nat)]" by (simp add: of_bytes_def)
  show "case Unmarshal_rates (Marshal_rates [[char_of (255 :: nat)], ''k''] (Some sample_rates)) (Some Map.empty) of
     None \<Rightarrow> False
   | Some m' \<Rightarrow> dom m' = {of_bytes [239, 191, 189], ''k''}"
    using rate_file_read_back [OF d]
    by (cases "Unmarshal_rates (Marshal_rates [[char_of (255 :: nat)], ''k''] (Some sample_rates)) (Some Map.empty)")
      (simp_all add: k b o3 flip: d)
qed

end
