(* ===== verification/Store.thy ===== *)
theory Store
  imports Limiter PeakRate Options SyncWorker EventMgr Files RateJson
begin

text \<open>
  store/store.go: the store. Keys are spread over an array of buckets by a hash; a rate-limiting
  call counts in the bucket of its key, queues a command for the synchroniser if it counted, and
  publishes an event if statistics are enabled. Rate configurations are kept per key and saved to
  a file; a collector deletes the entries whose windows have ended.

  What is not the repository's is in the record \<open>env\<close>: the hash, the result of a conversion to
  \<open>int32\<close> that Go leaves to the implementation, and what the object pools hand out.
\<close>

section \<open>State\<close>

record env =
  murmur3_Sum32 :: "string \<Rightarrow> u32"
  float64_to_int32 :: "f64 \<Rightarrow> i32"
  pooled_command :: SyncCommand
  pooled_event :: KeyEvent

text \<open>
  The rate configurations are a \<open>rate_map\<close> (theory \<open>RateJson\<close>), which can be nil. The channel is its queue; its capacity is the option \<open>syncBuffer\<close>. \<open>'sd\<close> is the type of statsd
  clients.
\<close>

record ('tc, 'rp, 'sd) store =
  opts :: "('tc, 'rp) options"
  keyBucket :: "KeyBucket list"
  rateConfig :: rate_map
  bucketMask :: u32
  syncChannel :: "SyncCommand list"
  store_tchannel :: "'tc option"
  store_ringpop :: "'rp option"
  store_nodeId :: string
  store_statsd :: "'sd option"

text \<open>
  The store as \<open>NewStore\<close> allocates it from the options, before it joins the cluster and loads the
  saved configurations.
\<close>

definition alloc_store :: "('tc, 'rp) options \<Rightarrow> ('tc, 'rp, 'sd) store" where
  "alloc_store o' =
     \<lparr>opts = o', keyBucket = map (\<lambda>_. NewKeyBucket) [0..<nat (sint (buckets o'))],
      rateConfig = Some Map.empty, bucketMask = ucast (buckets o') - 1, syncChannel = [],
      store_tchannel = None, store_ringpop = None, store_nodeId = nodeId o', store_statsd = None\<rparr>"

section \<open>Buckets\<close>

definition bucket_index :: "env \<Rightarrow> string \<Rightarrow> ('tc, 'rp, 'sd) store \<Rightarrow> nat" where
  "bucket_index E key s = unat (and (murmur3_Sum32 E key) (bucketMask s))"

definition getKeyBucket :: "env \<Rightarrow> string \<Rightarrow> ('tc, 'rp, 'sd) store \<Rightarrow> panic + nat" where
  "getKeyBucket E key s =
     (let i = bucket_index E key s
      in if i < length (keyBucket s) then Inr i else Inl IndexOutOfRange)"

text \<open>The bucket operations, applied to the bucket of the key.\<close>

definition bucket_Incr_at ::
  "env \<Rightarrow> key \<Rightarrow> i32 \<Rightarrow> i32 \<Rightarrow> i32 \<Rightarrow> ('tc, 'rp, 'sd) store \<Rightarrow> clock \<Rightarrow>
   (bool \<times> i64 \<times> bool) \<times> ('tc, 'rp, 'sd) store \<times> clock" where
  "bucket_Incr_at E key cnt limit window s c =
     (let i = bucket_index E key s;
          (r, b, c) = KeyBucket_Incr key cnt limit window (keyBucket s ! i) c
      in (r, s\<lparr>keyBucket := (keyBucket s)[i := b]\<rparr>, c))"

definition bucket_Sync_at ::
  "env \<Rightarrow> key \<Rightarrow> i32 \<Rightarrow> i64 \<Rightarrow> ('tc, 'rp, 'sd) store \<Rightarrow> clock \<Rightarrow> ('tc, 'rp, 'sd) store \<times> clock" where
  "bucket_Sync_at E key cnt expiry s c =
     (let i = bucket_index E key s;
          (b, c) = KeyBucket_Sync key cnt expiry (keyBucket s ! i) c
      in (s\<lparr>keyBucket := (keyBucket s)[i := b]\<rparr>, c))"

section \<open>Rate limiting\<close>

text \<open>
  The send to the synchroniser waits while the channel is full; the call then has counted but not
  replied.
\<close>

datatype reply = Replied bool | WaitingToSync SyncCommand bool

text \<open>
  What is left of \<open>Incr\<close> after the send: publish the event, reply. \<open>mgr\<close> is the process-wide event
  manager (\<open>None\<close> before its first use).
\<close>

definition Incr_finish ::
  "env \<Rightarrow> string \<Rightarrow> i32 \<Rightarrow> bool \<Rightarrow> ('tc, 'rp, 'sd) store \<Rightarrow> clock \<Rightarrow> 'h event_manager option \<Rightarrow>
   reply \<times> ('tc, 'rp, 'sd) store \<times> clock \<times> 'h event_manager option" where
  "Incr_finish E key cnt blocked s c mgr =
     (if statsDEnabled (opts s) then
        let (em, mgr) = GetMgrInstance mgr;
            (_, em) = GetPool KEYEVENT em;
            e = pooled_event E;
            e = e\<lparr>ke_Count := cnt\<rparr>;
            e = e\<lparr>ke_Key := key\<rparr>;
            e = e\<lparr>ke_Allowed := \<not> blocked\<rparr>;
            (now, c) = Now c;
            e = e\<lparr>ke_Time := now\<rparr>;
            (_, em) = Publish (KeyEv e) em
        in (Replied blocked, s, c, Some em)
      else (Replied blocked, s, c, mgr))"

definition Store_Incr ::
  "env \<Rightarrow> string \<Rightarrow> i32 \<Rightarrow> i32 \<Rightarrow> i32 \<Rightarrow> bool \<Rightarrow>
   ('tc, 'rp, 'sd) store \<Rightarrow> clock \<Rightarrow> 'h event_manager option \<Rightarrow>
   panic + reply \<times> ('tc, 'rp, 'sd) store \<times> clock \<times> 'h event_manager option" where
  "Store_Incr E key cnt threshold window peakaveraged s c mgr =
     (let (threshold, window) =
        (if peakaveraged \<and> window \<noteq> 1
         then (peak_threshold (float64_to_int32 E) threshold window, 1) else (threshold, window))
      in case getKeyBucket E key s of
           Inl p \<Rightarrow> Inl p
         | Inr _ \<Rightarrow>
             (let ((blocked, expires, dosync), s, c) = bucket_Incr_at E key cnt threshold window s c
              in Inr
                (if \<not> blocked \<or> dosync then
                   let sCmd = pooled_command E;
                       sCmd = sCmd\<lparr>sc_Key := key\<rparr>;
                       sCmd = sCmd\<lparr>sc_Count := cnt\<rparr>;
                       sCmd = sCmd\<lparr>sc_Expiry := expires\<rparr>;
                       sCmd = sCmd\<lparr>sc_Force := dosync\<rparr>
                   in case chan_send (unat (syncBuffer (opts s))) (syncChannel s) sCmd of
                        Some q \<Rightarrow> Incr_finish E key cnt blocked (s\<lparr>syncChannel := q\<rparr>) c mgr
                      | None \<Rightarrow> (WaitingToSync sCmd blocked, s, c, mgr)
                 else Incr_finish E key cnt blocked s c mgr)))"

text \<open>The pointer to the configuration of a key: nil if the map has none, or has nil, or is nil.\<close>

definition GetRateConfig :: "string \<Rightarrow> ('tc, 'rp, 'sd) store \<Rightarrow> RateConfig option" where
  "GetRateConfig key s =
     (case rateConfig s of None \<Rightarrow> None | Some m \<Rightarrow> (case m key of None \<Rightarrow> None | Some p \<Rightarrow> p))"

definition GetRateConfigAll :: "('tc, 'rp, 'sd) store \<Rightarrow> rate_map" where
  "GetRateConfigAll s = rateConfig s"

definition RateLimitGlobal ::
  "env \<Rightarrow> string \<Rightarrow> i32 \<Rightarrow> ('tc, 'rp, 'sd) store \<Rightarrow> clock \<Rightarrow> 'h event_manager option \<Rightarrow>
   panic + reply \<times> ('tc, 'rp, 'sd) store \<times> clock \<times> 'h event_manager option" where
  "RateLimitGlobal E key cnt s c mgr =
     (case GetRateConfig key s of
        None \<Rightarrow> Inr (Replied False, s, c, mgr)
      | Some rc \<Rightarrow> Store_Incr E key cnt (Limit rc) (Window rc) (PeakAveraged rc) s c mgr)"

section \<open>Rate configurations\<close>

text \<open>
  The file is written as text, under \<open>configDir\<close>, and read as text, from the working directory. The
  errors of both calls and of the JSON functions are dropped.
\<close>

definition rate_path :: "('tc, 'rp, 'sd) store \<Rightarrow> string" where
  "rate_path s = configDir (opts s) @ ''rateconfig.json''"

definition SaveRateConfig :: "('tc, 'rp, 'sd) store \<Rightarrow> files \<Rightarrow> files" where
  "SaveRateConfig s fs = WriteFile (rate_path s) (Marshal_rates (sorted_keys (rateConfig s)) (rateConfig s)) fs"

definition LoadRateConfig :: "files \<Rightarrow> ('tc, 'rp, 'sd) store \<Rightarrow> ('tc, 'rp, 'sd) store" where
  "LoadRateConfig fs s =
     (case ReadFile ''rateconfig.json'' fs of
        None \<Rightarrow> s
      | Some bytes \<Rightarrow> s\<lparr>rateConfig := Unmarshal_rates bytes (rateConfig s)\<rparr>)"

text \<open>The assignment to the map, which panics if the map is nil (with the lock of the store held).\<close>

definition put_config :: "string \<Rightarrow> RateConfig \<Rightarrow> ('tc, 'rp, 'sd) store \<Rightarrow> panic + ('tc, 'rp, 'sd) store" where
  "put_config key rc s =
     (case rateConfig s of
        None \<Rightarrow> Inl (Panic ''assignment to entry in nil map'')
      | Some m \<Rightarrow> Inr (s\<lparr>rateConfig := Some (m(key \<mapsto> Some rc))\<rparr>))"

text \<open>
  \<open>SetRateConfig\<close>: the new store and files, and what is handed to \<open>sendSyncRateConfigToNodes\<close>.
\<close>

definition SetRateConfig ::
  "string \<Rightarrow> RateConfig \<Rightarrow> ('tc, 'rp, 'sd) store \<Rightarrow> files \<Rightarrow>
   panic + ('tc, 'rp, 'sd) store \<times> files \<times> (string \<times> RateConfig)" where
  "SetRateConfig key rc s fs =
     (case put_config key rc s of
        Inl p \<Rightarrow> Inl p
      | Inr s \<Rightarrow> Inr (s, SaveRateConfig s fs, (key, rc)))"

definition IsAuthorised :: "string \<Rightarrow> ('tc, 'rp, 'sd) store \<Rightarrow> bool" where
  "IsAuthorised secret s \<longleftrightarrow> secret = apiSecret (opts s)"

section \<open>The collector\<close>

text \<open>
  One pass of the collector over a bucket, in the order \<open>ks\<close> in which Go happens to range over the
  map, and over all buckets (\<open>ord\<close> gives the order for each).
\<close>

definition gc_entry :: "i64 \<Rightarrow> key \<Rightarrow> KeyBucket \<times> clock \<Rightarrow> KeyBucket \<times> clock" where
  "gc_entry grace k bc =
     (case bc of
        (b, c) \<Rightarrow>
          (case Lookup b k of
             None \<Rightarrow> (b, c)
           | Some e \<Rightarrow>
               let (now, c) = Now c
               in if Expiry e + grace * 1000000 <s now then
                    let (expired, c) = Expired e c
                    in (if expired then b\<lparr>lookup := (lookup b)(k := None)\<rparr> else b, c)
                  else (b, c)))"

definition gc_bucket :: "i64 \<Rightarrow> key list \<Rightarrow> KeyBucket \<Rightarrow> clock \<Rightarrow> KeyBucket \<times> clock" where
  "gc_bucket grace ks b c = fold (gc_entry grace) ks (b, c)"

fun gc_buckets :: "i64 \<Rightarrow> (KeyBucket \<Rightarrow> key list) \<Rightarrow> KeyBucket list \<Rightarrow> clock \<Rightarrow> KeyBucket list \<times> clock" where
  "gc_buckets grace ord [] c = ([], c)"
| "gc_buckets grace ord (b # bs) c =
     (let (b, c) = gc_bucket grace (ord b) b c;
          (bs, c) = gc_buckets grace ord bs c
      in (b # bs, c))"

definition gc_pass ::
  "(KeyBucket \<Rightarrow> key list) \<Rightarrow> ('tc, 'rp, 'sd) store \<Rightarrow> clock \<Rightarrow> ('tc, 'rp, 'sd) store \<times> clock" where
  "gc_pass ord s c =
     (let (bs, c) = gc_buckets (gcGrace (opts s)) ord (keyBucket s) c
      in (s\<lparr>keyBucket := bs\<rparr>, c))"

section \<open>The bucket array\<close>

text \<open>The array is not empty and the mask is one less than its length, as \<open>NewStore\<close> makes them.\<close>

definition store_ok :: "('tc, 'rp, 'sd) store \<Rightarrow> bool" where
  "store_ok s \<longleftrightarrow> keyBucket s \<noteq> [] \<and> bucketMask s = of_nat (length (keyBucket s)) - 1"

lemma unat_mask_less:
  assumes "0 < n"
  shows "unat (of_nat n - 1 :: u32) < n"
proof (cases "n mod 4294967296 = 0")
  case True
  then have "4294967296 \<le> n" using assms by (simp add: dvd_imp_le mod_eq_0_iff_dvd)
  moreover have "unat (of_nat n - 1 :: u32) < 4294967296"
    using unsigned_less [of "of_nat n - 1 :: u32"] by simp
  ultimately show ?thesis by simp
next
  case False
  then have "(of_nat n :: u32) \<noteq> 0"
    by (simp add: word_of_nat_eq_0_iff dvd_eq_mod_eq_0)
  then have "unat (of_nat n - 1 :: u32) = unat (of_nat n :: u32) - 1"
    by (rule unat_minus_one)
  also have "\<dots> < n"
    using False assms by (simp add: unat_of_nat less_imp_diff_less le_imp_less_Suc)
  finally show ?thesis .
qed

lemma bucket_index_less:
  assumes "store_ok s"
  shows "bucket_index E key s < length (keyBucket s)"
proof -
  have "unat (and (murmur3_Sum32 E key) (bucketMask s)) \<le> unat (bucketMask s)"
    using word_and_le1 word_and_le2 by (simp add: word_le_nat_alt)
  also have "\<dots> < length (keyBucket s)"
    using assms unat_mask_less [of "length (keyBucket s)"] by (simp add: store_ok_def)
  finally show ?thesis by (simp add: bucket_index_def)
qed

text \<open>What the array of buckets shows: for each key the window in its own bucket.\<close>

definition store_view :: "env \<Rightarrow> ('tc, 'rp, 'sd) store \<Rightarrow> windows" where
  "store_view E s = (\<lambda>k. abs_bucket (keyBucket s ! bucket_index E k s) k)"

lemma store_upd_simps [simp]:
  "bucket_index E k (s\<lparr>keyBucket := bs\<rparr>) = bucket_index E k s"
  "bucket_index E k (s\<lparr>syncChannel := q\<rparr>) = bucket_index E k s"
  "store_view E (s\<lparr>syncChannel := q\<rparr>) = store_view E s"
  "store_ok (s\<lparr>syncChannel := q\<rparr>) = store_ok s"
  by (simp_all add: bucket_index_def store_view_def store_ok_def)

lemma spec_Incr_local:
  assumes "m k = m' k"
  shows "fst (spec_Incr t now k n l w m) = fst (spec_Incr t now k n l w m')"
    and "snd (spec_Incr t now k n l w m) k = snd (spec_Incr t now k n l w m') k"
  using assms by (simp_all add: spec_Incr_def Let_def split: prod.splits)

lemma spec_Sync_local:
  "m k = m' k \<Longrightarrow> spec_Sync t now k n y m k = spec_Sync t now k n y m' k"
  by (simp add: spec_Sync_def Let_def split: prod.splits)

text \<open>Replacing the bucket of one key, when the new bucket differs from the old at that key only.\<close>

lemma store_view_upd:
  assumes "store_ok s" and "\<And>k'. k' \<noteq> k \<Longrightarrow> abs_bucket b k' = abs_bucket (keyBucket s ! bucket_index E k s) k'"
  shows "store_view E (s\<lparr>keyBucket := (keyBucket s)[bucket_index E k s := b]\<rparr>) =
         (store_view E s)(k := abs_bucket b k)"
  using assms bucket_index_less [OF assms(1), of E k]
  by (fastforce simp: store_view_def nth_list_update fun_eq_iff)

lemma bucket_Incr_at_refines:
  assumes "store_ok s"
  shows "(fst (bucket_Incr_at E k n l w s c), store_view E (fst (snd (bucket_Incr_at E k n l w s c)))) =
         spec_Incr (reading c) (reading (tick c)) k n l w (store_view E s)"
proof -
  let ?b = "keyBucket s ! bucket_index E k s"
  obtain r b c' where i: "KeyBucket_Incr k n l w ?b c = (r, b, c')" by (metis prod_cases3)
  then have r: "(r, abs_bucket b) = spec_Incr (reading c) (reading (tick c)) k n l w (abs_bucket ?b)"
    using KeyBucket_Incr_refines [of k n l w ?b c] by simp
  let ?S = "spec_Incr (reading c) (reading (tick c)) k n l w"
  have same: "abs_bucket ?b k = store_view E s k" by (simp add: store_view_def)
  have fst_r: "r = fst (?S (store_view E s))" and at_k: "abs_bucket b k = snd (?S (store_view E s)) k"
    using r spec_Incr_local [where m = "abs_bucket ?b" and m' = "store_view E s" and k = k, OF same,
        of "reading c" "reading (tick c)" n l w] by (metis fst_conv snd_conv)+
  have "abs_bucket b k' = abs_bucket ?b k'" if "k' \<noteq> k" for k'
    using r spec_Incr_frame [OF that] by (metis snd_conv)
  from store_view_upd [OF assms this]
  have "store_view E (s\<lparr>keyBucket := (keyBucket s)[bucket_index E k s := b]\<rparr>) =
      (store_view E s)(k := snd (?S (store_view E s)) k)" by (simp add: at_k)
  also have "\<dots> = snd (?S (store_view E s))"
    using spec_Incr_frame by (auto simp: fun_eq_iff)
  finally show ?thesis
    using fst_r i by (simp add: bucket_Incr_at_def)
qed

lemma bucket_Sync_at_refines:
  assumes "store_ok s"
  shows "store_view E (fst (bucket_Sync_at E k n y s c)) =
         spec_Sync (reading c) (reading (tick c)) k n y (store_view E s)"
proof -
  let ?b = "keyBucket s ! bucket_index E k s"
  obtain b c' where i: "KeyBucket_Sync k n y ?b c = (b, c')" by fastforce
  let ?S = "spec_Sync (reading c) (reading (tick c)) k n y"
  have r: "abs_bucket b = ?S (abs_bucket ?b)"
    using KeyBucket_Sync_refines [of k n y ?b c] i by simp
  have at_k: "abs_bucket b k = ?S (store_view E s) k"
    unfolding r by (rule spec_Sync_local) (simp add: store_view_def)
  have "store_view E (s\<lparr>keyBucket := (keyBucket s)[bucket_index E k s := b]\<rparr>) =
      (store_view E s)(k := ?S (store_view E s) k)"
    using store_view_upd [OF assms, of k b E] by (simp add: r spec_Sync_frame flip: at_k)
  also have "\<dots> = ?S (store_view E s)"
    by (auto simp: fun_eq_iff spec_Sync_frame)
  finally show ?thesis using i by (simp add: bucket_Sync_at_def)
qed

lemma bucket_at_ok:
  "store_ok (fst (snd (bucket_Incr_at E k n l w s c))) = store_ok s"
  "store_ok (fst (bucket_Sync_at E k n y s c)) = store_ok s"
  by (simp_all add: bucket_Incr_at_def bucket_Sync_at_def store_ok_def Let_def split: prod.splits)

interpretation store: window_counter "bucket_Incr_at E" "bucket_Sync_at E" "store_view E" store_ok
  for E
  by unfold_locales (simp_all add: bucket_Incr_at_refines bucket_Sync_at_refines bucket_at_ok)

section \<open>The collector cannot be noticed\<close>

text \<open>
  Two states of a counter that differ only in windows that have ended by \<open>t\<close> (or are missing)
  cannot be told apart from \<open>t\<close> on.
\<close>

definition ended :: "i64 \<Rightarrow> (i64 \<times> i32) option \<Rightarrow> bool" where
  "ended t w = (case w of None \<Rightarrow> True | Some (x, p) \<Rightarrow> x <s t)"

definition alike_from :: "i64 \<Rightarrow> windows \<Rightarrow> windows \<Rightarrow> bool" where
  "alike_from t m m' \<longleftrightarrow> (\<forall>k. m k = m' k \<or> ended t (m k) \<and> ended t (m' k))"

lemma alike_from_refl [simp]: "alike_from t m m"
  by (simp add: alike_from_def)

lemma alike_from_trans: "alike_from t m m' \<Longrightarrow> alike_from t m' m'' \<Longrightarrow> alike_from t m m''"
  unfolding alike_from_def by metis

lemma alike_from_forget: "ended t (m k) \<Longrightarrow> alike_from t m (m(k := None))"
  by (simp add: alike_from_def ended_def)

lemma open_window_ended: "ended t w \<Longrightarrow> t \<le>s now \<Longrightarrow> open_window now w fresh = (fresh, 0)"
  by (auto simp: ended_def open_window_def signed_less split: option.splits)

lemma open_window_alike:
  "alike_from t m m' \<Longrightarrow> t \<le>s now \<Longrightarrow> open_window now (m k) fresh = open_window now (m' k) fresh"
  unfolding alike_from_def using open_window_ended by metis

lemma spec_Incr_alike:
  assumes "alike_from t m m'" and "t \<le>s now"
  shows "fst (spec_Incr u now k n l w m) = fst (spec_Incr u now k n l w m')"
    and "alike_from t (snd (spec_Incr u now k n l w m)) (snd (spec_Incr u now k n l w m'))"
  using open_window_alike [OF assms, of k "GenExpiry u w"] assms(1)
  by (auto simp: spec_Incr_def Let_def alike_from_def split: prod.splits)

lemma spec_Sync_alike:
  assumes "alike_from t m m'" and "t \<le>s now"
  shows "alike_from t (spec_Sync u now k n y m) (spec_Sync u now k n y m')"
  using open_window_alike [OF assms, of k y] assms(1)
  by (auto simp: spec_Sync_def Let_def alike_from_def split: prod.splits)

context window_counter begin

lemma do_call_alike:
  assumes "wf s" and "wf s'" and "alike_from t (view s) (view s')" and "t \<le>s reading (tick c)"
  shows "fst (do_call incr sync (c, a) s) = fst (do_call incr sync (c, a) s')"
    and "alike_from t (view (snd (do_call incr sync (c, a) s))) (view (snd (do_call incr sync (c, a) s')))"
  using spec_Incr_alike [OF assms(3,4)] spec_Sync_alike [OF assms(3,4)] assms(1,2)
  by (cases a; simp add: do_call_def Let_def incr_result sync_spec)+

lemma run_alike:
  assumes "wf s" and "wf s'" and "alike_from t (view s) (view s')"
    and "\<forall>(c, a) \<in> set cs. t \<le>s reading (tick c)"
  shows "fst (run_calls incr sync cs s) = fst (run_calls incr sync cs s')"
  using assms
proof (induction cs arbitrary: s s')
  case (Cons ca cs)
  obtain c a where ca: "ca = (c, a)" by (cases ca)
  then have "t \<le>s reading (tick c)" using Cons.prems(4) by simp
  note step = do_call_alike [OF Cons.prems(1-3) this, of a]
  show ?case
    using Cons.IH [OF do_call_wf [OF Cons.prems(1)] do_call_wf [OF Cons.prems(2)], of ca ca]
      Cons.prems(4) step ca by (simp add: Let_def)
qed simp

end

text \<open>The next \<open>n\<close> readings of the clock are not after \<open>t\<close>.\<close>

fun upto_reading :: "i64 \<Rightarrow> nat \<Rightarrow> clock \<Rightarrow> bool" where
  "upto_reading t 0 c \<longleftrightarrow> True"
| "upto_reading t (Suc n) c \<longleftrightarrow> reading c \<le>s t \<and> upto_reading t n (tick c)"

lemma upto_reading_less: "upto_reading t n c \<Longrightarrow> m \<le> n \<Longrightarrow> upto_reading t m c"
proof (induction t n c arbitrary: m rule: upto_reading.induct)
  case (2 t n c)
  then show ?case by (cases m) simp_all
qed simp

lemma upto_reading_frozen: "frozen_at t c \<Longrightarrow> upto_reading t n c"
  by (induction n) simp_all

text \<open>A step of the collector deletes at most its entry, and that only if its window has ended.\<close>

lemma gc_entry_step:
  assumes "gc_entry grace k (b, c) = (b', c')" and "upto_reading t (Suc (Suc n)) c"
  shows "alike_from t (abs_bucket b) (abs_bucket b')" and "upto_reading t n c'"
proof -
  have less: "upto_reading t n c" "upto_reading t n (tick c)"
    using assms(2) upto_reading_less [of t "Suc (Suc n)" c n] upto_reading_less [of t "Suc n" "tick c" n]
    by simp_all
  show "upto_reading t n c'"
    using assms less
    by (auto simp: gc_entry_def Lookup_def Now_eq Expired_eq Let_def split: option.splits if_splits)
  show "alike_from t (abs_bucket b) (abs_bucket b')"
  proof (cases "b' = b")
    case False
    then obtain e where e: "lookup b k = Some e" "expires e <s reading (tick c)"
        "b' = b\<lparr>lookup := (lookup b)(k := None)\<rparr>"
      using assms(1)
      by (auto simp: gc_entry_def Lookup_def Now_eq Expired_eq Let_def split: option.splits if_splits)
    then have "ended t (abs_bucket b k)"
      using assms(2) by (simp add: ended_def abs_bucket_def signed_less)
    moreover have "abs_bucket b' = (abs_bucket b)(k := None)"
      using e by (simp add: abs_bucket_def fun_eq_iff)
    ultimately show ?thesis by (simp add: alike_from_forget)
  qed simp
qed

lemma gc_bucket_alike:
  assumes "gc_bucket grace ks b c = (b', c')" and "upto_reading t (2 * length ks + n) c"
  shows "alike_from t (abs_bucket b) (abs_bucket b') \<and> upto_reading t n c'"
  using assms
proof (induction ks arbitrary: b c)
  case Nil
  then show ?case by (simp add: gc_bucket_def)
next
  case (Cons k ks)
  obtain b1 c1 where g: "gc_entry grace k (b, c) = (b1, c1)" by fastforce
  have "upto_reading t (Suc (Suc (2 * length ks + n))) c" using Cons.prems(2) by simp
  note step = gc_entry_step [OF g this]
  have "gc_bucket grace ks b1 c1 = (b', c')" using Cons.prems(1) g by (simp add: gc_bucket_def)
  from Cons.IH [OF this step(2)] show ?case using step(1) alike_from_trans by blast
qed

fun gc_readings :: "(KeyBucket \<Rightarrow> key list) \<Rightarrow> KeyBucket list \<Rightarrow> nat" where
  "gc_readings ord [] = 0"
| "gc_readings ord (b # bs) = 2 * length (ord b) + gc_readings ord bs"

lemma gc_buckets_alike:
  assumes "gc_buckets grace ord bs c = (bs', c')" and "upto_reading t (gc_readings ord bs) c"
  shows "length bs' = length bs \<and>
         (\<forall>i < length bs. alike_from t (abs_bucket (bs ! i)) (abs_bucket (bs' ! i)))"
  using assms
proof (induction bs arbitrary: c bs' c')
  case (Cons b bs)
  obtain b1 c1 where g: "gc_bucket grace (ord b) b c = (b1, c1)" by fastforce
  obtain bs1 c2 where gs: "gc_buckets grace ord bs c1 = (bs1, c2)" by fastforce
  have head: "alike_from t (abs_bucket b) (abs_bucket b1)" and "upto_reading t (gc_readings ord bs) c1"
    using gc_bucket_alike [OF g, of t "gc_readings ord bs"] Cons.prems(2) by simp_all
  with Cons.IH [OF gs] have "length bs1 = length bs"
    and "\<forall>i < length bs. alike_from t (abs_bucket (bs ! i)) (abs_bucket (bs1 ! i))" by simp_all
  moreover have "bs' = b1 # bs1" using Cons.prems(1) g gs by simp
  ultimately show ?case using head by (auto simp: nth_Cons split: nat.splits)
qed simp

lemma gc_pass_alike:
  assumes "store_ok s" and "upto_reading t (gc_readings ord (keyBucket s)) c"
  shows "alike_from t (store_view E s) (store_view E (fst (gc_pass ord s c)))"
    and "store_ok (fst (gc_pass ord s c))"
proof -
  obtain bs c' where g: "gc_buckets (gcGrace (opts s)) ord (keyBucket s) c = (bs, c')" by fastforce
  note each = gc_buckets_alike [OF g assms(2)]
  show "alike_from t (store_view E s) (store_view E (fst (gc_pass ord s c)))"
    using each bucket_index_less [OF assms(1)]
    by (simp add: gc_pass_def g store_view_def alike_from_def)
  show "store_ok (fst (gc_pass ord s c))"
    using each assms(1) by (auto simp: gc_pass_def g store_ok_def)
qed

text \<open>With the clock standing still: exactly what has ended, and been idle long enough, goes.\<close>

definition collectable :: "i64 \<Rightarrow> i64 \<Rightarrow> KeyEntry \<Rightarrow> bool" where
  "collectable grace t e \<longleftrightarrow> expires e + grace * 1000000 <s t \<and> expires e <s t"

lemma gc_bucket_frozen:
  assumes "frozen_at t c" and "distinct ks"
  shows "gc_bucket grace ks b c =
     (b\<lparr>lookup := (\<lambda>k. if k \<in> set ks then Option.bind (lookup b k)
         (\<lambda>e. if collectable grace t e then None else Some e) else lookup b k)\<rparr>, c)"
  using assms(2)
proof (induction ks arbitrary: b)
  case Nil
  then show ?case by (simp add: gc_bucket_def)
next
  case (Cons k ks)
  let ?b = "b\<lparr>lookup := (lookup b)(k := Option.bind (lookup b k)
      (\<lambda>e. if collectable grace t e then None else Some e))\<rparr>"
  have "gc_entry grace k (b, c) = (?b, c)"
    using assms(1)
    by (auto simp: gc_entry_def Lookup_def Now_eq Expired_eq Expiry_def collectable_def Let_def
        fun_upd_idem split: option.splits)
  then have "gc_bucket grace (k # ks) b c = gc_bucket grace ks ?b c"
    by (simp add: gc_bucket_def)
  then show ?case
    using Cons by (auto simp: fun_eq_iff intro!: KeyBucket.equality)
qed

lemma gc_buckets_frozen:
  "frozen_at t c \<Longrightarrow> \<forall>b \<in> set bs. distinct (ord b) \<Longrightarrow>
   gc_buckets grace ord bs c = (map (\<lambda>b. fst (gc_bucket grace (ord b) b c)) bs, c)"
  by (induction bs) (simp_all add: gc_bucket_frozen)

section \<open>Properties\<close>

lemma getKeyBucket_ok: "store_ok s \<Longrightarrow> getKeyBucket E key s = Inr (bucket_index E key s)"
  by (simp add: getKeyBucket_def bucket_index_less)

lemma bucket_at_frame:
  "opts (fst (snd (bucket_Incr_at E k n l w s c))) = opts s"
  "rateConfig (fst (snd (bucket_Incr_at E k n l w s c))) = rateConfig s"
  "syncChannel (fst (snd (bucket_Incr_at E k n l w s c))) = syncChannel s"
  by (simp_all add: bucket_Incr_at_def Let_def split: prod.splits)

text \<open>The limit and the window a call counts with.\<close>

definition effective :: "env \<Rightarrow> i32 \<Rightarrow> i32 \<Rightarrow> bool \<Rightarrow> i32 \<times> i32" where
  "effective E threshold window peakaveraged =
     (if peakaveraged \<and> window \<noteq> 1
      then (peak_threshold (float64_to_int32 E) threshold window, 1) else (threshold, window))"

definition after_publish ::
  "env \<Rightarrow> string \<Rightarrow> i32 \<Rightarrow> bool \<Rightarrow> ('tc, 'rp, 'sd) store \<Rightarrow> clock \<Rightarrow> 'h event_manager option \<Rightarrow>
   clock \<times> 'h event_manager option" where
  "after_publish E key cnt blocked s c mgr = snd (snd (Incr_finish E key cnt blocked s c mgr))"

lemma Incr_finish_eq:
  "Incr_finish E key cnt blocked s c mgr = (Replied blocked, s, after_publish E key cnt blocked s c mgr)"
  by (simp add: after_publish_def Incr_finish_def Let_def split: prod.splits)

lemma command_update:
  "cmd\<lparr>sc_Key := k, sc_Count := n, sc_Expiry := x, sc_Force := f\<rparr> =
   \<lparr>sc_Key = k, sc_Count = n, sc_Expiry = x, sc_Force = f\<rparr>"
  by simp

lemma Store_Incr_cases:
  fixes c :: clock and key :: string and cnt :: i32
  assumes "store_ok s" and "effective E threshold window peak = (l, w)"
  defines "r \<equiv> fst (bucket_Incr_at E key cnt l w s c)"
    and "s1 \<equiv> fst (snd (bucket_Incr_at E key cnt l w s c))"
    and "c1 \<equiv> snd (snd (bucket_Incr_at E key cnt l w s c))"
  defines "cmd \<equiv> \<lparr>sc_Key = key, sc_Count = cnt, sc_Expiry = fst (snd r), sc_Force = snd (snd r)\<rparr>"
  shows "Store_Incr E key cnt threshold window peak s c mgr =
     Inr (if \<not> fst r \<or> snd (snd r) then
            (if length (syncChannel s) < unat (syncBuffer (opts s))
             then Incr_finish E key cnt (fst r) (s1\<lparr>syncChannel := syncChannel s @ [cmd]\<rparr>) c1 mgr
             else (WaitingToSync cmd (fst r), s1, c1, mgr))
          else Incr_finish E key cnt (fst r) s1 c1 mgr)"
proof -
  obtain blocked x dosync s' c' where i: "bucket_Incr_at E key cnt l w s c = ((blocked, x, dosync), s', c')"
    by (metis prod_cases3)
  have frame: "opts s' = opts s" "syncChannel s' = syncChannel s"
    using bucket_at_frame [of E key cnt l w s c] i by simp_all
  have eff: "(if peak \<and> window \<noteq> 1 then (peak_threshold (float64_to_int32 E) threshold window, 1)
      else (threshold, window)) = (l, w)"
    using assms(2) by (simp add: effective_def)
  show ?thesis
    unfolding Store_Incr_def eff using i frame
    by (simp add: getKeyBucket_ok [OF assms(1)] r_def s1_def c1_def cmd_def chan_send_def
        command_update)
qed

text \<open>
  C2: what a rate-limiting call does while the synchroniser's channel has room. For any hash, any
  key, count, limit and window, with peak averaging or without, the call replies, and its reply
  and the windows it leaves, over all buckets, are those of the fixed-window counter with the
  effective limit; one command, with the key, the count, the end of the window counted in and the
  request to force, is queued exactly if the call counted; nothing else of the store changes.
\<close>

theorem Store_Incr_refines_fixed_window:
  assumes "store_ok s" and "length (syncChannel s) < unat (syncBuffer (opts s))"
  shows "case effective E threshold window peak of (l, w) \<Rightarrow>
    (case spec_Incr (reading c) (reading (tick c)) key cnt l w (store_view E s) of
      ((blocked, x, dosync), m) \<Rightarrow>
        (case Store_Incr E key cnt threshold window peak s c mgr of
           Inl _ \<Rightarrow> False
         | Inr (reply, s', _, _) \<Rightarrow>
             reply = Replied blocked \<and> store_view E s' = m \<and> store_ok s' \<and>
             syncChannel s' = syncChannel s @
               (if blocked \<and> \<not> dosync then []
                else [\<lparr>sc_Key = key, sc_Count = cnt, sc_Expiry = x, sc_Force = dosync\<rparr>]) \<and>
             opts s' = opts s \<and> rateConfig s' = rateConfig s))"
proof -
  obtain l w where eff: "effective E threshold window peak = (l, w)" by fastforce
  obtain blocked x dosync m where sp: "spec_Incr (reading c) (reading (tick c)) key cnt l w
      (store_view E s) = ((blocked, x, dosync), m)" by (metis prod_cases3 surj_pair)
  let ?r = "bucket_Incr_at E key cnt l w s c"
  have r: "fst ?r = (blocked, x, dosync)" "store_view E (fst (snd ?r)) = m"
    using bucket_Incr_at_refines [OF assms(1), of E key cnt l w c] sp by simp_all
  show ?thesis
    using r assms(2) bucket_at_frame [of E key cnt l w s c] bucket_at_ok(1) [of E key cnt l w s c]
      assms(1)
    by (simp add: eff sp Store_Incr_cases [OF assms(1) eff] Incr_finish_eq split_beta)
qed

lemma alloc_store_ok:
  assumes "0 < sint (buckets o')"
  shows "store_ok (alloc_store o')"
proof -
  have "(ucast (buckets o') :: u32) = word_of_int (sint (buckets o'))"
    by (rule bit_word_eqI) (auto simp: bit_simps bit_sint_iff)
  then have "(ucast (buckets o') :: u32) = of_nat (nat (sint (buckets o')))"
    using assms by simp
  then show ?thesis
    using assms by (simp add: store_ok_def alloc_store_def)
qed

lemma alloc_store_view [simp]: 
  "0 < sint (buckets o') \<Longrightarrow> store_view E (alloc_store o' :: ('tc, 'rp, 'sd) store) = (\<lambda>_. None)"
proof
  fix k assume "0 < sint (buckets o')"
  let ?s = "alloc_store o' :: ('tc, 'rp, 'sd) store"
  have "bucket_index E k ?s < nat (sint (buckets o'))"
    using bucket_index_less [OF alloc_store_ok, of o' E k] \<open>0 < sint (buckets o')\<close>
    by (simp add: alloc_store_def)
  then have "keyBucket ?s ! bucket_index E k ?s = NewKeyBucket"
    by (simp add: alloc_store_def)
  then show "store_view E ?s k = None"
    by (simp add: store_view_def abs_bucket_def NewKeyBucket_def)
qed

text \<open>Concrete surroundings for the examples.\<close>

definition sample_env :: env where
  "sample_env =
     \<lparr>murmur3_Sum32 = (\<lambda>k. of_nat (length k)), float64_to_int32 = (\<lambda>_. 0),
      pooled_command = \<lparr>sc_Key = [], sc_Count = 0, sc_Expiry = 0, sc_Force = False\<rparr>,
      pooled_event = \<lparr>ke_Key = [], ke_Count = 0, ke_Time = 0, ke_Allowed = False\<rparr>\<rparr>"

definition sample_options :: "(unit, unit) options" where
  "sample_options = defaultOptions ''h'' (UnReal \<lparr>current = 0\<rparr>)"

theorem Store_Incr_refines_fixed_window_witness:
  "case Store_Incr sample_env ''k'' 3 2 1 False
     (alloc_store (sample_options\<lparr>buckets := 4\<rparr>) :: (unit, unit, unit) store)
     (UnReal \<lparr>current = 5\<rparr>) (None :: unit event_manager option)
   of Inl _ \<Rightarrow> False
    | Inr (reply, s', _, _) \<Rightarrow> reply = Replied True \<and>
        syncChannel s' = [\<lparr>sc_Key = ''k'', sc_Count = 3, sc_Expiry = 1000000000, sc_Force = True\<rparr>]"
proof -
  let ?s = "alloc_store (sample_options\<lparr>buckets := 4\<rparr>) :: (unit, unit, unit) store"
  have ok: "store_ok ?s" by (rule alloc_store_ok) simp
  have room: "length (syncChannel ?s) < unat (syncBuffer (opts ?s))"
    by (simp add: alloc_store_def sample_options_def defaultOptions_def)
  have empty: "syncChannel ?s = []" by (simp add: alloc_store_def)
  show ?thesis
    using Store_Incr_refines_fixed_window [OF ok room, where E = sample_env and threshold = 2 and window = 1 and peak = False
        and c = "UnReal \<lparr>current = 5\<rparr>" and key = "''k''" and cnt = 3
        and mgr = "None :: unit event_manager option"]
    by (simp add: effective_def spec_Incr_def GenExpiry_def go_rem64_def signed_less empty
        split: sum.splits prod.splits)
qed

text \<open>
  what a rate-limiting call does while the synchroniser's channel is full. A call that counted
  (it was allowed, or it breached the limit) waits for room: the caller has no reply, though the
  count is already in the bucket and visible to every other call. A call that did not count
  replies as always. Back-pressure of the synchroniser thus stops the admitted traffic only.
\<close>

theorem Store_Incr_waits_when_channel_full:
  assumes "store_ok s" and "unat (syncBuffer (opts s)) \<le> length (syncChannel s)"
  shows "case effective E threshold window peak of (l, w) \<Rightarrow>
    (case spec_Incr (reading c) (reading (tick c)) key cnt l w (store_view E s) of
      ((blocked, x, dosync), m) \<Rightarrow>
        (case Store_Incr E key cnt threshold window peak s c mgr of
           Inl _ \<Rightarrow> False
         | Inr (reply, s', _, _) \<Rightarrow>
             reply = (if blocked \<and> \<not> dosync then Replied True
               else WaitingToSync
                 \<lparr>sc_Key = key, sc_Count = cnt, sc_Expiry = x, sc_Force = dosync\<rparr> blocked) \<and>
             store_view E s' = m \<and> syncChannel s' = syncChannel s))"
proof -
  obtain l w where eff: "effective E threshold window peak = (l, w)" by fastforce
  obtain blocked x dosync m where sp: "spec_Incr (reading c) (reading (tick c)) key cnt l w
      (store_view E s) = ((blocked, x, dosync), m)" by (metis prod_cases3 surj_pair)
  let ?r = "bucket_Incr_at E key cnt l w s c"
  have r: "fst ?r = (blocked, x, dosync)" "store_view E (fst (snd ?r)) = m"
    using bucket_Incr_at_refines [OF assms(1), of E key cnt l w c] sp by simp_all
  show ?thesis
    using r assms(2) bucket_at_frame [of E key cnt l w s c]
    by (simp add: eff sp Store_Incr_cases [OF assms(1) eff] Incr_finish_eq split_beta)
qed

theorem Store_Incr_waits_when_channel_full_witness:
  "case Store_Incr sample_env ''k'' 1 2 1 False
     (alloc_store (sample_options\<lparr>buckets := 4, syncBuffer := 0\<rparr>) :: (unit, unit, unit) store)
     (UnReal \<lparr>current = 5\<rparr>) (None :: unit event_manager option)
   of Inl _ \<Rightarrow> False
    | Inr (reply, s', _, _) \<Rightarrow> store_view sample_env s' ''k'' = Some (1000000000, 1) \<and>
        reply = WaitingToSync
          \<lparr>sc_Key = ''k'', sc_Count = 1, sc_Expiry = 1000000000, sc_Force = False\<rparr> False"
proof -
  let ?s = "alloc_store (sample_options\<lparr>buckets := 4, syncBuffer := 0\<rparr>) :: (unit, unit, unit) store"
  have ok: "store_ok ?s" by (rule alloc_store_ok) simp
  have full: "unat (syncBuffer (opts ?s)) \<le> length (syncChannel ?s)"
    by (simp add: alloc_store_def)
  show ?thesis
    using Store_Incr_waits_when_channel_full [OF ok full, where E = sample_env and threshold = 2 and window = 1 and peak = False
        and c = "UnReal \<lparr>current = 5\<rparr>" and key = "''k''" and cnt = 1
        and mgr = "None :: unit event_manager option"]
    by (simp add: effective_def spec_Incr_def GenExpiry_def go_rem64_def signed_less
        split: sum.splits prod.splits)
qed

text \<open>
  the limit holds for the whole store: keys that share a bucket, or hash anyhow, do not
  disturb each other. Over any sequence of counting and synchronisation steps on the buckets of
  the store, of which those on \<open>k\<close> fall in one window with one limit (and do not overflow), what
  is admitted on \<open>k\<close> is at most what the limit had left.
\<close>

theorem store_admission_bound:
  assumes "store_ok s" and "window_is x (store_view E s k)" and "calls_in_window x l k cs"
    and "sint (total_in x (store_view E s k)) + total_of k cs \<le> 2147483647"
  shows "admitted k (fst (run_calls (bucket_Incr_at E) (bucket_Sync_at E) cs s)) \<le>
         headroom x l (store_view E s k)"
  by (rule store.admission_bound [OF assms(1,2) calls_in_windowD [OF assms(3)] assms(4)])

theorem store_admission_bound_witness:
  "admitted ''k'' (fst (run_calls (bucket_Incr_at sample_env) (bucket_Sync_at sample_env)
     [(UnReal \<lparr>current = 7\<rparr>, CIncr ''k'' 2 3 1), (UnReal \<lparr>current = 8\<rparr>, CIncr ''j'' 9 3 1),
      (UnReal \<lparr>current = 9\<rparr>, CSync ''k'' 1 1000000000), (UnReal \<lparr>current = 10\<rparr>, CIncr ''k'' 1 3 1)]
     (alloc_store (sample_options\<lparr>buckets := 1\<rparr>) :: (unit, unit, unit) store))) \<le> 3"
  using store_admission_bound
    [of "alloc_store (sample_options\<lparr>buckets := 1\<rparr>) :: (unit, unit, unit) store" 1000000000 sample_env
      "''k''" 3 "[(UnReal \<lparr>current = 7\<rparr>, CIncr ''k'' 2 3 1), (UnReal \<lparr>current = 8\<rparr>, CIncr ''j'' 9 3 1),
      (UnReal \<lparr>current = 9\<rparr>, CSync ''k'' 1 1000000000), (UnReal \<lparr>current = 10\<rparr>, CIncr ''k'' 1 3 1)]"]
  by (simp add: alloc_store_ok calls_in_window_def window_is_def GenExpiry_def go_rem64_def
      headroom_def signed_less del: run_calls.simps)

text \<open>
  C19: a pass of the collector cannot be noticed. Whatever the order in which the maps are ranged
  over, whatever the grace period (also a negative one, or one whose product overflows), and
  whatever the clock does during the pass as long as it shows nothing later than \<open>t\<close>: every later
  sequence of calls, made at clock readings from \<open>t\<close> on, gets the answers it would have got
  without the pass.
\<close>

theorem gc_is_invisible:
  assumes "store_ok s" and "upto_reading t (gc_readings ord (keyBucket s)) c"
    and "\<forall>(c, a) \<in> set cs. t \<le>s reading (tick c)"
  shows "fst (run_calls (bucket_Incr_at E) (bucket_Sync_at E) cs (fst (gc_pass ord s c))) =
         fst (run_calls (bucket_Incr_at E) (bucket_Sync_at E) cs s)"
  using store.run_alike [OF assms(1) gc_pass_alike(2) gc_pass_alike(1) assms(3)] assms(1,2) by metis

theorem gc_is_invisible_witness:
  "let s = (alloc_store (sample_options\<lparr>buckets := 1\<rparr>) :: (unit, unit, unit) store)
         \<lparr>keyBucket := [\<lparr>lookup = [''k'' \<mapsto> \<lparr>expires = 3, lastmodified = 0, ecount = 9\<rparr>]\<rparr>]\<rparr>;
       cs = [(UnReal \<lparr>current = 7000000000000\<rparr>, CIncr ''k'' 1 3 1)]
   in fst (run_calls (bucket_Incr_at sample_env) (bucket_Sync_at sample_env) cs
        (fst (gc_pass (\<lambda>_. [''k'']) s (UnReal \<lparr>current = 6000000000000\<rparr>)))) =
      fst (run_calls (bucket_Incr_at sample_env) (bucket_Sync_at sample_env) cs s)"
  unfolding Let_def
  by (rule gc_is_invisible [where t = 6000000000000])
    (simp_all add: store_ok_def alloc_store_def signed_less numeral_2_eq_2)

text \<open>
  what a pass of the collector leaves behind. With the clock at \<open>t\<close>, an entry of any bucket is
  deleted exactly if it is ranged over, its window ended more than the grace period before \<open>t\<close>
  (as an \<open>int64\<close>) and it has expired at \<open>t\<close>; all other entries stay as they are, in their places.
\<close>

theorem gc_collects_exactly:
  assumes "frozen_at t c" and "\<forall>b \<in> set (keyBucket s). distinct (ord b)"
  shows "keyBucket (fst (gc_pass ord s c)) =
    map (\<lambda>b. b\<lparr>lookup := (\<lambda>k. if k \<in> set (ord b) then Option.bind (lookup b k)
        (\<lambda>e. if collectable (gcGrace (opts s)) t e then None else Some e) else lookup b k)\<rparr>)
      (keyBucket s)"
  using assms by (simp add: gc_pass_def gc_buckets_frozen gc_bucket_frozen)

theorem gc_collects_exactly_witness:
  "map (\<lambda>b. (lookup b ''k'', lookup b ''j'' = None)) (keyBucket (fst (gc_pass (\<lambda>_. [''k'', ''j''])
     ((alloc_store sample_options :: (unit, unit, unit) store)
       \<lparr>keyBucket := [\<lparr>lookup = [''k'' \<mapsto> \<lparr>expires = 4300000000000, lastmodified = 0, ecount = 9\<rparr>,
           ''j'' \<mapsto> \<lparr>expires = 4100000000000, lastmodified = 0, ecount = 9\<rparr>]\<rparr>]\<rparr>)
     (UnReal \<lparr>current = 6000000000000\<rparr>)))) =
   [(Some \<lparr>expires = 4300000000000, lastmodified = 0, ecount = 9\<rparr>, True)]"
  by (subst gc_collects_exactly [where t = 6000000000000])
    (simp_all add: alloc_store_def sample_options_def defaultOptions_def collectable_def signed_less)

text \<open>What is queued on the process-wide bus, and its capacity.\<close>

definition queued_events :: "'h event_manager option \<Rightarrow> event list" where
  "queued_events mgr = (case mgr of None \<Rightarrow> [] | Some em \<Rightarrow> eventChan em)"

definition event_capacity :: "'h event_manager option \<Rightarrow> nat" where
  "event_capacity mgr = (case mgr of None \<Rightarrow> 10000000 | Some em \<Rightarrow> chanSize em)"

text \<open>
  statistics. A call that is about to reply publishes one event if statistics are enabled,
  with its key, its count, whether it was allowed and the clock's next reading, unless the event
  channel is full, and none if they are disabled; in every case, the full channel included, the
  reply is the one the bucket gave and the store is as it was.
\<close>

theorem Incr_finish_publishes_iff_enabled:
  "case Incr_finish E key cnt blocked s c mgr of (reply, s', c', mgr') \<Rightarrow>
     reply = Replied blocked \<and> s' = s \<and>
     c' = (if statsDEnabled (opts s) then tick c else c) \<and>
     queued_events mgr' = queued_events mgr @
       (if statsDEnabled (opts s) \<and> length (queued_events mgr) < event_capacity mgr
        then [KeyEv \<lparr>ke_Key = key, ke_Count = cnt, ke_Time = reading c, ke_Allowed = \<not> blocked\<rparr>]
        else [])"
  by (auto simp: Incr_finish_def Let_def Now_eq Publish_def chan_send_def GetPool_def
      GetMgrInstance_def GetMgrInstanceWithParam_def new_manager_def queued_events_def
      event_capacity_def split: option.splits if_splits prod.splits)

lemma put_config_simps [simp]:
  "put_config key rc s = Inr s' \<longleftrightarrow> (\<exists>m. rateConfig s = Some m \<and> s' = s\<lparr>rateConfig := Some (m(key \<mapsto> Some rc))\<rparr>)"
  "put_config key rc s = Inl p \<longleftrightarrow> rateConfig s = None \<and> p = Panic ''assignment to entry in nil map''"
  by (auto simp: put_config_def split: option.split)

lemma GetRateConfig_put [simp]:
  "GetRateConfig k (s\<lparr>rateConfig := Some (m(key \<mapsto> Some rc))\<rparr>) =
     (if k = key then Some rc else GetRateConfig k (s\<lparr>rateConfig := Some m\<rparr>))"
  by (simp add: GetRateConfig_def)

lemma SetRateConfig_eq:
  "rateConfig s = Some m \<Longrightarrow> SetRateConfig key rc s fs =
     (let s' = s\<lparr>rateConfig := Some (m(key \<mapsto> Some rc))\<rparr> in Inr (s', SaveRateConfig s' fs, (key, rc)))"
  by (simp add: SetRateConfig_def put_config_def Let_def)

lemma rate_path_frame [simp]: "rate_path (s\<lparr>rateConfig := m\<rparr>) = rate_path s"
  by (simp add: rate_path_def)

lemma SaveRateConfig_frame [simp]:
  "same_file (SaveRateConfig s fs) p q = same_file fs p q" "writable (SaveRateConfig s fs) p = writable fs p"
  by (simp_all add: SaveRateConfig_def)

text \<open>
  Maps that the file can hold: finite, with keys that are UTF-8. What is written of one is loaded again
  if the path it is written to and the path that is read are of one file; otherwise what is loaded
  is what that other file held before.
\<close>

definition storable :: "(string \<rightharpoonup> RateConfig option) \<Rightarrow> bool" where
  "storable m \<longleftrightarrow> finite (dom m) \<and> (\<forall>k \<in> dom m. as_utf8 k = k)"

lemma storable_put [simp]: "storable m \<Longrightarrow> as_utf8 key = key \<Longrightarrow> storable (m(key \<mapsto> p))"
  by (auto simp: storable_def)

lemma storable_empty [simp]: "storable Map.empty"
  by (simp add: storable_def)

lemma sorted_keys_storable: "storable m \<Longrightarrow> set (sorted_keys (Some m)) = dom m"
  by (simp add: sorted_keys_def storable_def)

lemma Unmarshal_saved:
  assumes "storable m"
  shows "Unmarshal_rates (Marshal_rates (sorted_keys (Some m)) (Some m)) (Some m0) = Some (m0 ++ m)"
  using assms by (intro Unmarshal_Marshal_utf8) (auto simp: sorted_keys_storable list_all_iff, simp add: storable_def dom_def)

text \<open>What loading makes of the configurations that are there.\<close>

definition loaded :: "files \<Rightarrow> rate_map \<Rightarrow> rate_map" where
  "loaded fs m = (case ReadFile ''rateconfig.json'' fs of None \<Rightarrow> m | Some bytes \<Rightarrow> Unmarshal_rates bytes m)"

lemma LoadRateConfig_frame: "LoadRateConfig fs s = s\<lparr>rateConfig := loaded fs (rateConfig s)\<rparr>"
  by (cases s) (simp add: LoadRateConfig_def loaded_def split: option.split)

lemma saved_rates_loaded:
  assumes "rateConfig s = Some m" and "storable m" and "writable fs (rate_path s)" and "rateConfig s0 = Some m0"
  shows "rateConfig (LoadRateConfig (SaveRateConfig s fs) s0) =
    (if same_file fs (rate_path s) ''rateconfig.json'' then Some (m0 ++ m) else rateConfig (LoadRateConfig fs s0))"
  using assms
  by (simp add: LoadRateConfig_def SaveRateConfig_def ReadFile_WriteFile Unmarshal_saved split: option.split)

text \<open>
  A store whose configurations outlast it: they are storable, can be written, and are written to the
  file that is read. \<open>remembers\<close> says that a key has a configuration now and after a restart.
\<close>

definition persistent :: "('tc, 'rp, 'sd) store \<Rightarrow> files \<Rightarrow> bool" where
  "persistent s fs \<longleftrightarrow>
     (case rateConfig s of None \<Rightarrow> False | Some m \<Rightarrow> storable m) \<and>
     writable fs (rate_path s) \<and> same_file fs (rate_path s) ''rateconfig.json''"

definition restart :: "('tc, 'rp, 'sd) store \<Rightarrow> files \<Rightarrow> ('tc, 'rp, 'sd) store" where
  "restart s fs = LoadRateConfig fs (alloc_store (opts s))"

definition remembers :: "string \<Rightarrow> RateConfig \<Rightarrow> ('tc, 'rp, 'sd) store \<Rightarrow> files \<Rightarrow> bool" where
  "remembers key rc s fs \<longleftrightarrow> GetRateConfig key s = Some rc \<and> GetRateConfig key (restart s fs) = Some rc"

lemma rateConfig_alloc [simp]: "rateConfig (alloc_store o') = Some Map.empty"
  by (simp add: alloc_store_def)

lemma restart_saved:
  "persistent s fs \<Longrightarrow> rateConfig (restart s (SaveRateConfig s fs)) = rateConfig s"
  by (auto simp: persistent_def restart_def saved_rates_loaded split: option.splits)

lemma set_and_saved:
  fixes rc :: RateConfig
  assumes "rateConfig s = Some m" and "persistent s fs" and "as_utf8 key = key"
  defines "s' \<equiv> s\<lparr>rateConfig := Some (m(key \<mapsto> Some rc))\<rparr>"
  shows "persistent s' (SaveRateConfig s' fs)" and "remembers key rc s' (SaveRateConfig s' fs)"
proof -
  have p: "persistent s' fs" using assms(1-3) by (simp add: persistent_def s'_def)
  then show "persistent s' (SaveRateConfig s' fs)" by (simp add: persistent_def)
  show "remembers key rc s' (SaveRateConfig s' fs)"
    using restart_saved [OF p] by (simp add: remembers_def GetRateConfig_def) (simp add: s'_def)
qed

text \<open>
  a configuration that is set takes effect at once: the next calls on its key are limited by it and
  those on other keys as before; it is saved with all others and handed on to the other nodes.
\<close>

lemma SetRateConfig_takes_effect:
  assumes "rateConfig s = Some m"
  shows "case SetRateConfig key rc s fs of
      Inl _ \<Rightarrow> False
    | Inr (s', fs', sent) \<Rightarrow>
        RateLimitGlobal E k cnt s' c mgr =
          (case if k = key then Some rc else GetRateConfig k s of
             None \<Rightarrow> Inr (Replied False, s', c, mgr)
           | Some r \<Rightarrow> Store_Incr E k cnt (Limit r) (Window r) (PeakAveraged r) s' c mgr) \<and>
        fs' = SaveRateConfig s' fs \<and> keyBucket s' = keyBucket s \<and> sent = (key, rc)"
  using assms
  by (simp add: SetRateConfig_eq Let_def RateLimitGlobal_def) (simp add: GetRateConfig_def)

text \<open>The buckets that keys can reach.\<close>

lemma getKeyBucket_eq:
  "store_ok s \<Longrightarrow>
   getKeyBucket E key s = Inr (unat (and (murmur3_Sum32 E key) (of_nat (length (keyBucket s)) - 1)))"
  by (simp add: getKeyBucket_ok bucket_index_def) (simp add: store_ok_def)


lemma and_mask_pow2: "unat (and (h :: u32) (of_nat (2 ^ n) - 1)) = unat h mod 2 ^ n"
proof -
  have "(of_nat (2 ^ n) - 1 :: u32) = mask n" by (simp add: mask_eq_exp_minus_1)
  then have "and h (of_nat (2 ^ n) - 1) = take_bit n h" by (simp only: take_bit_eq_mask)
  moreover have "unat (take_bit n h) = take_bit n (unat h)" by (rule unsigned_take_bit_eq)
  ultimately show ?thesis by (simp only: take_bit_eq_mod)
qed

text \<open>The buckets that the mask 999 can name.\<close>

definition reached_of_1000 :: "nat set" where
  "reached_of_1000 = {i. i < 1000 \<and> i div 8 mod 4 = 0}"

lemma mask_999: "unat (and (h :: u32) 999) \<in> reached_of_1000"
proof -
  let ?i = "unat (and h 999)"
  have "and h 999 \<le> 999" by (rule word_and_le1)
  then have "?i \<le> unat (999 :: u32)" by (simp only: word_le_nat_alt)
  moreover have "?i div 8 mod 4 = 0"
  proof -
    have i: "?i = and (unat h) 999" by (simp add: unsigned_and_eq)
    have "?i div 8 mod 4 = take_bit 2 (drop_bit 3 ?i)"
      by (simp add: take_bit_eq_mod drop_bit_eq_div)
    also have "\<dots> = and (take_bit 2 (drop_bit 3 (unat h))) (take_bit 2 (drop_bit 3 999))"
      by (simp only: i drop_bit_and take_bit_and)
    also have "\<dots> = 0" by simp
    finally show ?thesis .
  qed
  ultimately show ?thesis by (simp add: reached_of_1000_def)
qed

lemma card_reached: "card reached_of_1000 = 256"
proof -
  let ?f = "\<lambda>(a, b). 32 * a + b :: nat"
  have "reached_of_1000 = ?f ` ({..<32} \<times> {..<8})"
  proof (intro set_eqI iffI)
    fix i assume "i \<in> reached_of_1000"
    then have "i < 1000" "i div 8 mod 4 = 0" by (simp_all add: reached_of_1000_def)
    then have "i mod 32 = i mod 8" using mod_mult2_eq [of i 8 4] by simp
    then have "i = ?f (i div 32, i mod 8)" using mult_div_mod_eq [of 32 i] by simp
    moreover have "(i div 32, i mod 8) \<in> {..<32} \<times> {..<8}"
      using \<open>i < 1000\<close> by (simp add: div_less_iff_less_mult)
    ultimately have "i = ?f (i div 32, i mod 8)" and "(i div 32, i mod 8) \<in> {..<32} \<times> {..<8}" .
    then show "i \<in> ?f ` ({..<32} \<times> {..<8})" by blast
  next
    fix i assume "i \<in> ?f ` ({..<32} \<times> {..<8})"
    then obtain a b where "a < 32" "b < 8" "i = 32 * a + b" by auto
    moreover from this have "i div 8 = 4 * a" by (intro div_nat_eqI) auto
    ultimately show "i \<in> reached_of_1000" by (simp add: reached_of_1000_def)
  qed
  moreover have "inj_on ?f ({..<32} \<times> {..<8})"
  proof (rule inj_onI)
    fix p q assume "p \<in> {..<32 :: nat} \<times> {..<8 :: nat}" and "q \<in> {..<32 :: nat} \<times> {..<8 :: nat}"
      and eq: "?f p = ?f q"
    then obtain a b a' b' where p: "p = (a, b)" "q = (a', b')" "b < 8" "b' < 8" by auto
    then have "32 * a + b = 32 * a' + b'" using eq by simp
    moreover from this have "a = a'" using arg_cong [of _ _ "\<lambda>i. i div 32"] p(3,4) by fastforce
    ultimately show "p = q" using p by simp
  qed
  ultimately have "card reached_of_1000 = card ({..<32 :: nat} \<times> {..<8 :: nat})"
    by (metis card_image)
  then show ?thesis by (simp add: card_cartesian_product)
qed

text \<open>
  C36: how keys spread. If the number of buckets is a power of two, a key goes to the bucket
  numbered by its hash modulo that number, so every bucket can be reached. With the default
  number, 1000, the mask is 999 and has bits 3 and 4 clear: every key goes to one of 256 buckets,
  and the other 744 stay empty.
\<close>

theorem bucket_spread:
  assumes "store_ok s"
  shows "(length (keyBucket s) = 2 ^ n \<longrightarrow>
            getKeyBucket E key s = Inr (unat (murmur3_Sum32 E key) mod 2 ^ n)) \<and>
         (length (keyBucket s) = 1000 \<longrightarrow>
            getKeyBucket E key s \<in> Inr ` reached_of_1000) \<and> card reached_of_1000 = 256"
  using getKeyBucket_eq [OF assms, of E key] mask_999 card_reached
  by (auto simp: and_mask_pow2 simp del: of_nat_power)

theorem bucket_spread_witness:
  "let s = alloc_store sample_options :: (unit, unit, unit) store
   in getKeyBucket sample_env ''k'' s \<in> Inr ` reached_of_1000"
proof -
  let ?s = "alloc_store sample_options :: (unit, unit, unit) store"
  have "store_ok ?s" by (rule alloc_store_ok) (simp add: sample_options_def defaultOptions_def)
  from bucket_spread [OF this, of 10 sample_env "''k''"] show ?thesis
    by (simp add: alloc_store_def sample_options_def defaultOptions_def)
qed

end
