(* ===== verification/Url.thy ===== *)
theory Url
  imports Json
begin

text \<open>
  \<open>r.URL.Query().Get\<close> of \<open>net/url\<close>: the query of a URL split at \<open>&\<close> and \<open>;\<close>, names and values unescaped,
  parts that cannot be unescaped dropped, the first value of a name. (So in Go 1.13, which go.mod
  names; since Go 1.17 a part with a \<open>;\<close> is dropped instead.)
\<close>

fun unescape :: "string \<Rightarrow> string option" where
  "unescape [] = Some []"
| "unescape (c # cs) =
     (if c = CHR ''%'' then
        (case cs of
           a # b # cs' \<Rightarrow>
             (case (hex_val a, hex_val b) of
                (Some x, Some y) \<Rightarrow> map_option (Cons (char_of (16 * x + y))) (unescape cs')
              | _ \<Rightarrow> None)
         | _ \<Rightarrow> None)
      else map_option (Cons (if c = CHR ''+'' then CHR '' '' else c)) (unescape cs))"

fun query_parts :: "string \<Rightarrow> string list" where
  "query_parts [] = [[]]"
| "query_parts (c # cs) =
     (if c = CHR ''&'' \<or> c = CHR '';'' then [] # query_parts cs
      else case query_parts cs of [] \<Rightarrow> [[c]] | w # ws \<Rightarrow> (c # w) # ws)"

definition query_pair :: "string \<Rightarrow> (string \<times> string) option" where
  "query_pair p =
     (if p = [] then None
      else case unescape (takeWhile (\<lambda>c. c \<noteq> CHR ''='') p) of
             None \<Rightarrow> None
           | Some k \<Rightarrow> map_option (Pair k) (unescape (drop 1 (dropWhile (\<lambda>c. c \<noteq> CHR ''='') p))))"

definition query_get :: "string \<Rightarrow> string \<Rightarrow> string" where
  "query_get s q =
     (case map_of (List.map_filter query_pair (query_parts s)) q of None \<Rightarrow> [] | Some v \<Rightarrow> v)"

text \<open>Texts without the special characters stand for themselves.\<close>

definition plain :: "string \<Rightarrow> bool" where
  "plain s \<longleftrightarrow> list_all (\<lambda>c. c \<notin> {CHR ''%'', CHR ''+'', CHR ''&'', CHR '';'', CHR ''=''}) s"

lemma plain_simps [simp]:
  "plain []" "plain (c # cs) \<longleftrightarrow> c \<notin> {CHR ''%'', CHR ''+'', CHR ''&'', CHR '';'', CHR ''=''} \<and> plain cs"
  by (simp_all add: plain_def)

lemma unescape_plain: "plain s \<Longrightarrow> unescape s = Some s"
  by (induction s) auto

lemma query_parts_append:
  "query_parts (s @ t) = butlast (query_parts s) @ (last (query_parts s) @ hd (query_parts t)) # tl (query_parts t)"
proof (induction s)
  case Nil
  have "query_parts t \<noteq> []" by (induction t) (auto split: list.splits)
  then show ?case by simp
next
  case (Cons c s)
  have "query_parts s \<noteq> []" by (induction s) (auto split: list.splits)
  then show ?case using Cons by (cases "query_parts s") (auto split: list.splits)
qed

lemma query_parts_member: "plain k \<Longrightarrow> plain v \<Longrightarrow> query_parts (k @ CHR ''='' # v) = [k @ CHR ''='' # v]"
proof -
  have p: "query_parts s = [s]" if "list_all (\<lambda>c. c \<noteq> CHR ''&'' \<and> c \<noteq> CHR '';'') s" for s
    using that by (induction s) auto
  assume "plain k" "plain v"
  then show ?thesis by (intro p) (auto simp: plain_def list_all_iff)
qed

lemma query_pair_member: "plain k \<Longrightarrow> plain v \<Longrightarrow> query_pair (k @ CHR ''='' # v) = Some (k, v)"
proof -
  assume k: "plain k" and v: "plain v"
  have "takeWhile (\<lambda>c. c \<noteq> CHR ''='') (k @ CHR ''='' # v) = k"
    "dropWhile (\<lambda>c. c \<noteq> CHR ''='') (k @ CHR ''='' # v) = CHR ''='' # v"
    using k by (simp_all add: takeWhile_tail dropWhile_append2 plain_def list_all_iff takeWhile_append2)
  then show ?thesis using unescape_plain [OF k] unescape_plain [OF v] by (simp add: query_pair_def)
qed

text \<open>A query written from plain names and values has these values.\<close>

fun query_text :: "(string \<times> string) list \<Rightarrow> string" where
  "query_text [] = []"
| "query_text [(k, v)] = k @ CHR ''='' # v"
| "query_text ((k, v) # m # ms) = k @ CHR ''='' # v @ CHR ''&'' # query_text (m # ms)"

lemma query_text_pairs:
  "list_all (\<lambda>(k, v). plain k \<and> plain v) ms \<Longrightarrow> List.map_filter query_pair (query_parts (query_text ms)) = ms"
proof (induction ms rule: query_text.induct)
  case 1
  then show ?case by (simp add: query_pair_def map_filter_simps)
next
  case (2 k v)
  then show ?case by (simp add: query_parts_member query_pair_member map_filter_simps)
next
  case (3 k v m ms)
  have "query_parts (CHR ''&'' # query_text (m # ms)) = [] # query_parts (query_text (m # ms))" by simp
  then have "query_parts ((k @ CHR ''='' # v) @ CHR ''&'' # query_text (m # ms)) =
      (k @ CHR ''='' # v) # query_parts (query_text (m # ms))"
    using 3 by (subst query_parts_append) (simp add: query_parts_member)
  then show ?case using 3 by (simp add: query_pair_member map_filter_simps)
qed

lemma query_get_text:
  "list_all (\<lambda>(k, v). plain k \<and> plain v) ms \<Longrightarrow>
   query_get (query_text ms) q = (case map_of ms q of None \<Rightarrow> [] | Some v \<Rightarrow> v)"
  by (simp add: query_get_def query_text_pairs)

end
