(* ===== verification/Stats.thy ===== *)
theory Stats
  imports Store Utf8
begin

text \<open>
  The statistics of store/store.go: the handler that turns a key event into a statsd counter, and
  the cleaning of keys for use in a metric name (\<open>Handle\<close>, \<open>replaceIncompatibleChars\<close>). The
  statsd client is not the repository's: the call made on it is the result of the model.
\<close>

definition incompatible :: "nat \<Rightarrow> bool" where
  "incompatible v \<longleftrightarrow> \<not> (v \<noteq> 46 \<and> v \<noteq> 44 \<and> v \<noteq> 32 \<and> v \<noteq> 37 \<and> v \<noteq> 58 \<and> v \<noteq> 92 \<and> v \<noteq> 47 \<and> v \<noteq> 124)"

definition replaceIncompatibleChars :: "string \<Rightarrow> string" where
  "replaceIncompatibleChars str =
     of_bytes (concat (map (\<lambda>v. if \<not> incompatible v then encode_rune v else [])
       (runes (map byte str))))"

text \<open>The call \<open>statsd.Count(bucket, n)\<close> on the client of the store, nil if there is none.\<close>

definition Handle :: "event \<Rightarrow> ('tc, 'rp, 'sd) store \<Rightarrow> ('sd option \<times> string \<times> i32) option" where
  "Handle e s =
     (case e of
        KeyEv kevent \<Rightarrow>
          if ke_Allowed kevent then
            Some (store_statsd s, statsDBucket (opts s) @ ''.golimit.'' @
              replaceIncompatibleChars (ke_Key kevent) @ ''.allowed'', ke_Count kevent)
          else
            Some (store_statsd s, statsDBucket (opts s) @ ''.golimit.'' @
              replaceIncompatibleChars (ke_Key kevent) @ ''.blocked'', ke_Count kevent)
      | OtherEv _ \<Rightarrow> None)"

section \<open>Properties\<close>

lemma kept_runes:
  "concat (map (\<lambda>v. if \<not> incompatible v then encode_rune v else []) rs) =
   concat (map encode_rune (filter (\<lambda>v. \<not> incompatible v) rs))"
  by (induction rs) simp_all

lemma bytes_of_bytes: "list_all (\<lambda>b. b < 256) bs \<Longrightarrow> map byte (of_bytes bs) = bs"
  by (induction bs) (simp_all add: of_bytes_def byte_def)

lemma encode_all_bytes: "list_all (\<lambda>b. b < 256) (concat (map encode_rune rs))"
  using encode_byte by (auto simp: list_all_iff)

lemma list_all_filter_rune: "list_all P rs \<Longrightarrow> list_all P (filter Q rs)"
  by (auto simp: list_all_iff)

lemma runes_replaced:
  "runes (map byte (replaceIncompatibleChars str)) =
   filter (\<lambda>v. \<not> incompatible v) (runes (map byte str))"
  by (simp add: replaceIncompatibleChars_def kept_runes bytes_of_bytes encode_all_bytes
      runes_encode_all list_all_filter_rune runes_valid)

text \<open>
  cleaning a key removes the code points that would break a metric name, keeps all others in
  their order (a byte that is not UTF-8 becomes U+FFFD), and cleaning twice is cleaning once.
\<close>

theorem replaceIncompatibleChars_filters:
  "runes (map byte (replaceIncompatibleChars str)) =
     filter (\<lambda>v. \<not> incompatible v) (runes (map byte str)) \<and>
   replaceIncompatibleChars (replaceIncompatibleChars str) = replaceIncompatibleChars str"
proof
  show "runes (map byte (replaceIncompatibleChars str)) =
     filter (\<lambda>v. \<not> incompatible v) (runes (map byte str))" by (rule runes_replaced)
  then have "runes (map byte (replaceIncompatibleChars str)) =
      filter (\<lambda>v. \<not> incompatible v) (runes (map byte (replaceIncompatibleChars str)))" by simp
  then show "replaceIncompatibleChars (replaceIncompatibleChars str) = replaceIncompatibleChars str"
    using runes_replaced [of str]
    by (simp add: replaceIncompatibleChars_def [of "replaceIncompatibleChars str"] kept_runes)
       (simp add: replaceIncompatibleChars_def kept_runes)
qed

lemma replaced_bytes:
  assumes "c \<in> set (replaceIncompatibleChars str)"
  shows "\<not> incompatible (byte c)"
proof
  assume inc: "incompatible (byte c)"
  have "byte c \<in> set (map byte (replaceIncompatibleChars str))" using assms by simp
  then obtain v where v: "v \<in> set (runes (map byte str))" "\<not> incompatible v"
      "byte c \<in> set (encode_rune v)"
    by (auto simp: replaceIncompatibleChars_def kept_runes bytes_of_bytes encode_all_bytes)
  have "byte c < 128" using inc by (auto simp: incompatible_def)
  then have "byte c = v" using encode_small v(3) by blast
  then show False using v(2) inc by simp
qed

lemma fixed_letters: "\<forall>c \<in> set ''golimitawedbck''. \<not> incompatible (byte c)"
  by (simp add: incompatible_def byte_def)

text \<open>
  a key cannot forge a metric. In the name that the handler of a key event counts under, each
  of the characters that structure statsd names and lines (dot, comma, blank, percent, colon,
  backslash, slash, bar) occurs only where the store's own parts have it, whatever bytes the key
  holds: the key always is exactly one component. The value is the event's count, and other
  events are ignored.
\<close>

theorem Handle_key_is_one_component:
  "case Handle e s of
     None \<Rightarrow> (\<exists>r. e = OtherEv r)
   | Some (client, name, n) \<Rightarrow>
       (case e of
          OtherEv _ \<Rightarrow> False
        | KeyEv ke \<Rightarrow>
            client = store_statsd s \<and> n = ke_Count ke \<and>
            list_all (\<lambda>c. if incompatible (byte c)
              then count_list name c = count_list (statsDBucket (opts s)) c + (if byte c = 46 then 3 else 0)
              else True) name)"
proof (cases e)
  case (KeyEv ke)
  have none: "count_list (replaceIncompatibleChars (ke_Key ke)) c = 0" if "incompatible (byte c)" for c
    using that replaced_bytes by (auto simp: count_list_0_iff)
  have dot: "byte c = 46 \<longleftrightarrow> c = CHR ''.''" for c
  proof
    assume "byte c = 46"
    then have "c = char_of (46 :: nat)" by (metis byte_def char_of_char)
    then show "c = CHR ''.''" by (simp add: char_of_def bit_Suc_0_iff)
  qed (simp add: byte_def)
  show ?thesis
    using KeyEv none fixed_letters dot by (auto simp: Handle_def list_all_iff)
qed (simp add: Handle_def)

end
