(* ===== verification/Thrift.thy ===== *)
theory Thrift
  imports Prelude Strconv
begin

text \<open>
  What the generated code of gen-go/com/store.go shares. The Thrift library is not the
  repository's: \<open>thrift.TProtocol\<close> is a parameter, a record of the operations the code calls on
  it, and so is \<open>thrift.PrependError\<close>. The generator expands one scheme for every struct; the
  scheme is written once here (\<open>read_struct\<close>, \<open>read_fields\<close>, \<open>read_field\<close>, \<open>write_struct\<close>,
  \<open>write_field\<close>) and theory \<open>Codec\<close> instantiates it struct by struct.

  Calls mutate the protocol and the struct that is read, also when they fail: every operation
  returns the error, if any, with the state after it. A read loop ends only when the protocol
  says stop, so reading is partial: \<^const>\<open>None\<close> is a read that never returns.
\<close>

section \<open>The protocol\<close>

type_synonym i16 = "16 word"

text \<open>The type codes the code names; the rest of \<open>thrift.TType\<close> is only passed to \<open>Skip\<close>.\<close>

datatype ttype = STOP | BOOL | I32 | I64 | STRING | STRUCT | LIST | OtherType "8 word"

record ('p, 'e) TProtocol =
  WriteStructBegin :: "string \<Rightarrow> 'p \<Rightarrow> 'e option \<times> 'p"
  WriteStructEnd :: "'p \<Rightarrow> 'e option \<times> 'p"
  WriteFieldBegin :: "string \<Rightarrow> ttype \<Rightarrow> i16 \<Rightarrow> 'p \<Rightarrow> 'e option \<times> 'p"
  WriteFieldEnd :: "'p \<Rightarrow> 'e option \<times> 'p"
  WriteFieldStop :: "'p \<Rightarrow> 'e option \<times> 'p"
  WriteListBegin :: "ttype \<Rightarrow> int \<Rightarrow> 'p \<Rightarrow> 'e option \<times> 'p"
  WriteListEnd :: "'p \<Rightarrow> 'e option \<times> 'p"
  WriteBool :: "bool \<Rightarrow> 'p \<Rightarrow> 'e option \<times> 'p"
  WriteI32 :: "i32 \<Rightarrow> 'p \<Rightarrow> 'e option \<times> 'p"
  WriteI64 :: "i64 \<Rightarrow> 'p \<Rightarrow> 'e option \<times> 'p"
  WriteString :: "string \<Rightarrow> 'p \<Rightarrow> 'e option \<times> 'p"
  ReadStructBegin :: "'p \<Rightarrow> ('e + string) \<times> 'p"
  ReadStructEnd :: "'p \<Rightarrow> 'e option \<times> 'p"
  ReadFieldBegin :: "'p \<Rightarrow> (string \<times> ttype \<times> i16 \<times> 'e option) \<times> 'p"
  ReadFieldEnd :: "'p \<Rightarrow> 'e option \<times> 'p"
  ReadListBegin :: "'p \<Rightarrow> ('e + ttype \<times> int) \<times> 'p"
  ReadListEnd :: "'p \<Rightarrow> 'e option \<times> 'p"
  ReadBool :: "'p \<Rightarrow> ('e + bool) \<times> 'p"
  ReadI32 :: "'p \<Rightarrow> ('e + i32) \<times> 'p"
  ReadI64 :: "'p \<Rightarrow> ('e + i64) \<times> 'p"
  ReadString :: "'p \<Rightarrow> ('e + string) \<times> 'p"
  Skip :: "ttype \<Rightarrow> 'p \<Rightarrow> 'e option \<times> 'p"
  PrependError :: "string \<Rightarrow> 'e \<Rightarrow> 'e"

section \<open>Writing\<close>

type_synonym ('p, 'e) writer = "'p \<Rightarrow> 'e option \<times> 'p"

text \<open>\<open>if err := act; err != nil { return f(err) }\<close>, and a sequence of such statements.\<close>

definition guarded :: "('e \<Rightarrow> 'e) \<Rightarrow> ('p, 'e) writer \<Rightarrow> ('p, 'e) writer" where
  "guarded f act p = (case act p of (err, p) \<Rightarrow> (map_option f err, p))"

fun attempt :: "('p, 'e) writer list \<Rightarrow> ('p, 'e) writer" where
  "attempt [] p = (None, p)"
| "attempt (act # acts) p =
     (case act p of
        (Some err, p) \<Rightarrow> (Some err, p)
      | (None, p) \<Rightarrow> attempt acts p)"

definition decimal :: "i16 \<Rightarrow> string" where
  "decimal i = Itoa (word_of_int (sint i))"

text \<open>A \<open>writeFieldN\<close> of a scalar: \<open>T\<close> is what \<open>%T\<close> prints for the struct.\<close>

definition write_field ::
  "('p, 'e) TProtocol \<Rightarrow> string \<Rightarrow> string \<Rightarrow> ttype \<Rightarrow> i16 \<Rightarrow> ('p, 'e) writer \<Rightarrow> ('p, 'e) writer" where
  "write_field P T name type i act = attempt [
     guarded (PrependError P (T @ '' write field begin error '' @ decimal i @ '':'' @ name @ '': ''))
       (WriteFieldBegin P name type i),
     guarded (PrependError P (T @ ''.'' @ name @ '' ('' @ decimal i @ '') field write error: '')) act,
     guarded (PrependError P (T @ '' write field end error '' @ decimal i @ '':'' @ name @ '': ''))
       (WriteFieldEnd P)]"

definition write_struct ::
  "('p, 'e) TProtocol \<Rightarrow> string \<Rightarrow> string \<Rightarrow> ('p, 'e) writer list \<Rightarrow> ('p, 'e) writer" where
  "write_struct P T name writeFields = attempt (
     [guarded (PrependError P (T @ '' write struct begin error: '')) (WriteStructBegin P name)] @
     writeFields @
     [guarded (PrependError P ''write field stop error: '') (WriteFieldStop P),
      guarded (PrependError P ''write struct stop error: '') (WriteStructEnd P)])"

section \<open>Reading\<close>

text \<open>A read fails with an error of the protocol or crashes.\<close>

datatype 'e failure = Err 'e | Crash panic

type_synonym ('s, 'p, 'e) outcome = "'e failure option \<times> 's \<times> 'p"
type_synonym ('s, 'p, 'e) reader = "'s \<Rightarrow> 'p \<Rightarrow> ('s, 'p, 'e) outcome option"

text \<open>A \<open>ReadFieldN\<close> of a scalar; \<open>set_it\<close> is its assignment to the struct.\<close>

definition read_field ::
  "('p, 'e) TProtocol \<Rightarrow> i16 \<Rightarrow> ('p \<Rightarrow> ('e + 'v) \<times> 'p) \<Rightarrow> ('v \<Rightarrow> 's \<Rightarrow> 's) \<Rightarrow> ('s, 'p, 'e) reader" where
  "read_field P i get set_it s p =
     (case get p of
        (Inl err, p) \<Rightarrow>
          Some (Some (Err (PrependError P (''error reading field '' @ decimal i @ '': '') err)), s, p)
      | (Inr v, p) \<Rightarrow> Some (None, set_it v s, p))"

text \<open>The \<open>default\<close> case of the switch over the field id.\<close>

definition skip_field :: "('p, 'e) TProtocol \<Rightarrow> ttype \<Rightarrow> ('s, 'p, 'e) reader" where
  "skip_field P type s p =
     (case Skip P type p of
        (Some err, p) \<Rightarrow> Some (Some (Err err), s, p)
      | (None, p) \<Rightarrow> Some (None, s, p))"

text \<open>The loop of a \<open>Read\<close>; \<open>switch\<close> is the struct's switch over the field id.\<close>

partial_function (option) read_fields ::
  "('p, 'e) TProtocol \<Rightarrow> string \<Rightarrow> (i16 \<Rightarrow> ttype \<Rightarrow> ('s, 'p, 'e) reader) \<Rightarrow> 's \<Rightarrow> 'p \<Rightarrow>
   ('s, 'p, 'e) outcome option" where
  "read_fields P T switch s p =
     (case ReadFieldBegin P p of ((_, fieldTypeId, fieldId, err), p) \<Rightarrow>
        (case err of
           Some e \<Rightarrow>
             Some (Some (Err (PrependError P (T @ '' field '' @ decimal fieldId @ '' read error: '') e)), s, p)
         | None \<Rightarrow>
             if fieldTypeId = STOP then Some (None, s, p)
             else Option.bind (switch fieldId fieldTypeId s p) (\<lambda>(failed, s, p).
               case failed of
                 Some f \<Rightarrow> Some (Some f, s, p)
               | None \<Rightarrow>
                   (case ReadFieldEnd P p of (err, p) \<Rightarrow>
                      (case err of
                         Some e \<Rightarrow> Some (Some (Err e), s, p)
                       | None \<Rightarrow> read_fields P T switch s p)))))"

definition read_struct ::
  "('p, 'e) TProtocol \<Rightarrow> string \<Rightarrow> (i16 \<Rightarrow> ttype \<Rightarrow> ('s, 'p, 'e) reader) \<Rightarrow> ('s, 'p, 'e) reader" where
  "read_struct P T switch s p =
     (case ReadStructBegin P p of
        (Inl err, p) \<Rightarrow> Some (Some (Err (PrependError P (T @ '' read error: '') err)), s, p)
      | (Inr _, p) \<Rightarrow>
          Option.bind (read_fields P T switch s p) (\<lambda>(failed, s, p).
            case failed of
              Some f \<Rightarrow> Some (Some f, s, p)
            | None \<Rightarrow>
                (case ReadStructEnd P p of
                   (Some err, p) \<Rightarrow>
                     Some (Some (Err (PrependError P (T @ '' read struct end error: '') err)), s, p)
                 | (None, p) \<Rightarrow> Some (None, s, p))))"

section \<open>Termination\<close>

text \<open>
  A protocol is consuming if some measure of its input never grows and shrinks with every field
  header it reads successfully.
\<close>

definition consuming :: "('p, 'e) TProtocol \<Rightarrow> ('p \<Rightarrow> nat) \<Rightarrow> bool" where
  "consuming P rest \<longleftrightarrow>
     (\<forall>p. rest (snd (ReadStructBegin P p)) \<le> rest p) \<and>
     (\<forall>p. rest (snd (ReadStructEnd P p)) \<le> rest p) \<and>
     (\<forall>p. snd (snd (snd (fst (ReadFieldBegin P p)))) = None \<longrightarrow>
        fst (snd (fst (ReadFieldBegin P p))) \<noteq> STOP \<longrightarrow> rest (snd (ReadFieldBegin P p)) < rest p) \<and>
     (\<forall>p. rest (snd (ReadFieldBegin P p)) \<le> rest p) \<and>
     (\<forall>p. rest (snd (ReadFieldEnd P p)) \<le> rest p) \<and>
     (\<forall>p. rest (snd (ReadListBegin P p)) \<le> rest p) \<and>
     (\<forall>p. rest (snd (ReadListEnd P p)) \<le> rest p) \<and>
     (\<forall>p. rest (snd (ReadBool P p)) \<le> rest p) \<and>
     (\<forall>p. rest (snd (ReadI32 P p)) \<le> rest p) \<and>
     (\<forall>p. rest (snd (ReadI64 P p)) \<le> rest p) \<and>
     (\<forall>p. rest (snd (ReadString P p)) \<le> rest p) \<and>
     (\<forall>t p. rest (snd (Skip P t p)) \<le> rest p)"

text \<open>A reader that returns without growing its input.\<close>

definition returns :: "('p \<Rightarrow> nat) \<Rightarrow> ('s, 'p, 'e) reader \<Rightarrow> bool" where
  "returns rest read \<longleftrightarrow> (\<forall>s p. case read s p of None \<Rightarrow> False | Some (_, _, p') \<Rightarrow> rest p' \<le> rest p)"

lemma returnsD: "returns rest read \<Longrightarrow> \<exists>f s' p'. read s p = Some (f, s', p') \<and> rest p' \<le> rest p"
  by (auto simp: returns_def split: option.splits dest!: spec [of _ s] spec [of _ p])

lemma read_field_returns:
  assumes "\<And>p. rest (snd (get p)) \<le> rest p"
  shows "returns rest (read_field P i get set_it)"
  unfolding returns_def
proof (intro allI)
  fix s p
  show "case read_field P i get set_it s p of None \<Rightarrow> False | Some (_, _, p') \<Rightarrow> rest p' \<le> rest p"
    using assms [of p] by (cases "get p") (auto simp: read_field_def split: sum.splits)
qed

lemma skip_field_returns:
  assumes "consuming P rest"
  shows "returns rest (skip_field P type)"
  unfolding returns_def
proof (intro allI)
  fix s p
  have "rest (snd (Skip P type p)) \<le> rest p" using assms by (simp add: consuming_def)
  then show "case skip_field P type s p of None \<Rightarrow> False | Some (_, _, p') \<Rightarrow> rest p' \<le> rest p"
    by (cases "Skip P type p") (auto simp: skip_field_def split: option.splits)
qed

lemma read_fields_returns:
  assumes P: "consuming P rest" and sw: "\<And>i t. returns rest (switch i t)"
  shows "returns rest (read_fields P T switch)"
  unfolding returns_def
proof (intro allI)
  fix s p
  show "case read_fields P T switch s p of None \<Rightarrow> False | Some (_, _, p') \<Rightarrow> rest p' \<le> rest p"
  proof (induction "rest p" arbitrary: s p rule: less_induct)
    case less
    obtain n t i err p1 where b: "ReadFieldBegin P p = ((n, t, i, err), p1)" by (metis prod_cases4 surj_pair)
    have p1: "rest p1 \<le> rest p" "err = None \<Longrightarrow> t \<noteq> STOP \<Longrightarrow> rest p1 < rest p"
      using P b by (auto simp: consuming_def dest!: spec [of _ p])
    obtain f s2 p2 where w: "switch i t s p1 = Some (f, s2, p2)" "rest p2 \<le> rest p1"
      using returnsD [OF sw] by blast
    obtain e p3 where c: "ReadFieldEnd P p2 = (e, p3)" by (cases "ReadFieldEnd P p2")
    have p3: "rest p3 \<le> rest p2" using P c by (auto simp: consuming_def dest!: spec [of _ p2])
    show ?case
    proof (cases "err = None \<and> t \<noteq> STOP \<and> f = None \<and> e = None")
      case True
      then have "rest p3 < rest p" using p1 w p3 by simp
      then have "case read_fields P T switch s2 p3 of None \<Rightarrow> False | Some (_, _, p') \<Rightarrow> rest p' \<le> rest p3"
        by (rule less)
      then show ?thesis
        using True \<open>rest p3 < rest p\<close>
        by (subst read_fields.simps) (auto simp: b w(1) c split: option.splits)
    next
      case False
      then show ?thesis
        using p1 w p3 by (subst read_fields.simps) (auto simp: b w(1) c split: option.splits)
    qed
  qed
qed

lemma read_struct_returns:
  assumes P: "consuming P rest" and sw: "\<And>i t. returns rest (switch i t)"
  shows "returns rest (read_struct P T switch)"
  unfolding returns_def
proof (intro allI)
  fix s p
  obtain r p1 where b: "ReadStructBegin P p = (r, p1)" by (cases "ReadStructBegin P p")
  have p1: "rest p1 \<le> rest p" using P b by (auto simp: consuming_def dest!: spec [of _ p])
  obtain f s2 p2 where l: "read_fields P T switch s p1 = Some (f, s2, p2)" "rest p2 \<le> rest p1"
    using returnsD [OF read_fields_returns [of P rest switch T, OF P sw]] by blast
  obtain e p3 where c: "ReadStructEnd P p2 = (e, p3)" by (cases "ReadStructEnd P p2")
  have "rest p3 \<le> rest p2" using P c by (auto simp: consuming_def dest!: spec [of _ p2])
  then show "case read_struct P T switch s p of None \<Rightarrow> False | Some (_, _, p') \<Rightarrow> rest p' \<le> rest p"
    using p1 l by (auto simp: read_struct_def b c split: sum.splits option.splits)
qed

section \<open>What holds of a struct while it is read\<close>

text \<open>A reader keeps \<open>I\<close> of its struct and fails only in the ways \<open>OK\<close> admits.\<close>

definition keeps :: "('s \<Rightarrow> bool) \<Rightarrow> ('e failure option \<Rightarrow> bool) \<Rightarrow> ('s, 'p, 'e) reader \<Rightarrow> bool" where
  "keeps I OK rd \<longleftrightarrow> (\<forall>s p f s' p'. I s \<longrightarrow> rd s p = Some (f, s', p') \<longrightarrow> I s' \<and> OK f)"

lemma keepsD: "keeps I OK rd \<Longrightarrow> I s \<Longrightarrow> rd s p = Some (f, s', p') \<Longrightarrow> I s' \<and> OK f"
  unfolding keeps_def by blast

definition admits_errors :: "('e failure option \<Rightarrow> bool) \<Rightarrow> bool" where
  "admits_errors OK \<longleftrightarrow> OK None \<and> (\<forall>e. OK (Some (Err e)))"

lemma keeps_field:
  assumes "admits_errors OK" and "\<And>v s. I s \<Longrightarrow> I (set_it v s)"
  shows "keeps I OK (read_field P i get set_it)"
  using assms by (auto simp: keeps_def read_field_def admits_errors_def split: prod.splits sum.splits)

lemma keeps_skip: "admits_errors OK \<Longrightarrow> keeps I OK (skip_field P type)"
  by (auto simp: keeps_def skip_field_def admits_errors_def split: prod.splits option.splits)

lemma read_fields_keeps:
  assumes sw: "\<And>i t. keeps I OK (switch i t)" and ok: "admits_errors OK"
  shows "keeps I OK (read_fields P T switch)"
proof -
  let ?K = "\<lambda>((((P, T), sw), s), p) r. sw = switch \<longrightarrow> I s \<longrightarrow> I (fst (snd r)) \<and> OK (fst r)"
  have step: "?K ((((P', T'), sw'), s), p) r"
    if IH: "\<And>T sw s p q y. rec T sw s p q = Some y \<Longrightarrow> ?K ((((T, sw), s), p), q) y"
      and run: "(case ReadFieldBegin P' p of ((_, fieldTypeId, fieldId, err), p) \<Rightarrow>
        (case err of
           Some e \<Rightarrow>
             Some (Some (Err (PrependError P' (T' @ '' field '' @ decimal fieldId @ '' read error: '') e)), s, p)
         | None \<Rightarrow>
             if fieldTypeId = STOP then Some (None, s, p)
             else Option.bind (sw' fieldId fieldTypeId s p) (\<lambda>(failed, s, p).
               case failed of
                 Some f \<Rightarrow> Some (Some f, s, p)
               | None \<Rightarrow>
                   (case ReadFieldEnd P' p of (err, p) \<Rightarrow>
                      (case err of
                         Some e \<Rightarrow> Some (Some (Err e), s, p)
                       | None \<Rightarrow> rec P' T' sw' s p))))) = Some r"
    for rec P' T' sw' s p r
  proof (simp, intro impI)
    assume [simp]: "sw' = switch" and s: "I s"
    obtain n t i err p1 where b: "ReadFieldBegin P' p = ((n, t, i, err), p1)" by (metis prod_cases4 surj_pair)
    show "I (fst (snd r)) \<and> OK (fst r)"
    proof (cases "err = None \<and> t \<noteq> STOP")
      case False
      then show ?thesis using run s ok by (auto simp: b admits_errors_def split: option.splits)
    next
      case True
      with run obtain f s2 p2 where w: "switch i t s p1 = Some (f, s2, p2)"
        by (auto simp: b bind_eq_Some_conv)
      have k: "I s2" "OK f" using keepsD [OF sw s w] by simp_all
      obtain e p3 where c: "ReadFieldEnd P' p2 = (e, p3)" by (cases "ReadFieldEnd P' p2")
      show ?thesis
      proof (cases "f = None \<and> e = None")
        case False
        then show ?thesis using run True k ok by (auto simp: b w c admits_errors_def split: option.splits)
      next
        case f: True
        then have "rec P' T' switch s2 p3 = Some r" using run True by (simp add: b w c)
        from IH [OF this] k show ?thesis by simp
      qed
    qed
  qed
  have "?K ((((P, T), switch), s), p) r" if "read_fields P T switch s p = Some r" for s p r
    by (rule read_fields.raw_induct [where Pa = ?K, OF step that])
  then show ?thesis by (fastforce simp: keeps_def)
qed

lemma read_struct_keeps:
  assumes "\<And>i t. keeps I OK (switch i t)" and ok: "admits_errors OK"
  shows "keeps I OK (read_struct P T switch)"
  unfolding keeps_def
proof (intro allI impI)
  fix s p f s' p' assume s: "I s" and run: "read_struct P T switch s p = Some (f, s', p')"
  obtain r p1 where b: "ReadStructBegin P p = (r, p1)" by (cases "ReadStructBegin P p")
  show "I s' \<and> OK f"
  proof (cases r)
    case (Inl e)
    then show ?thesis using run s ok by (auto simp: read_struct_def b admits_errors_def)
  next
    case (Inr n)
    with run obtain g s2 p2 where w: "read_fields P T switch s p1 = Some (g, s2, p2)"
      by (auto simp: read_struct_def b bind_eq_Some_conv)
    have "I s2" "OK g" using keepsD [OF read_fields_keeps [OF assms] s w] by simp_all
    then show ?thesis
      using run ok by (auto simp: read_struct_def b Inr w admits_errors_def split: option.splits prod.splits)
  qed
qed

section \<open>What is on the wire\<close>

text \<open>
  The values of the wire format and the tokens a protocol transmits for them, as the Thrift
  documentation lays out messages: a struct is its fields, each with its type and id, and a stop;
  a list is the type and number of its elements and the elements.
\<close>

datatype tvalue =
    VBool bool
  | VI32 i32
  | VI64 i64
  | VString string
  | VStruct "(i16 \<times> tvalue) list"
  | VList ttype "tvalue list"

text \<open>The kinds of messages and of the library's exceptions; messages frame structs in theory \<open>Processor\<close>.\<close>

datatype mtype = CALL | REPLY | EXCEPTION | OtherMessage i32

datatype app_exception =
    WRONG_METHOD_NAME | BAD_SEQUENCE_ID | UNKNOWN_APPLICATION_EXCEPTION | INVALID_MESSAGE_TYPE_EXCEPTION
  | UNKNOWN_METHOD | PROTOCOL_ERROR | INTERNAL_ERROR

datatype token =
    StructBegin | StructEnd
  | FieldBegin ttype i16 | FieldEnd | FieldStop
  | ListBegin ttype int | ListEnd
  | TBool bool | TI32 i32 | TI64 i64 | TString string
  | MessageBegin string mtype i32 | MessageEnd | TException app_exception string

fun type_of :: "tvalue \<Rightarrow> ttype" where
  "type_of (VBool _) = BOOL"
| "type_of (VI32 _) = I32"
| "type_of (VI64 _) = I64"
| "type_of (VString _) = STRING"
| "type_of (VStruct _) = STRUCT"
| "type_of (VList _ _) = LIST"

fun tokens :: "tvalue \<Rightarrow> token list" where
  "tokens (VBool b) = [TBool b]"
| "tokens (VI32 n) = [TI32 n]"
| "tokens (VI64 n) = [TI64 n]"
| "tokens (VString s) = [TString s]"
| "tokens (VStruct fs) =
     StructBegin # concat (map (\<lambda>(i, v). FieldBegin (type_of v) i # tokens v @ [FieldEnd]) fs) @
     [FieldStop, StructEnd]"
| "tokens (VList t vs) = ListBegin t (int (length vs)) # concat (map tokens vs) @ [ListEnd]"

definition field_tokens :: "(i16 \<times> tvalue) list \<Rightarrow> token list" where
  "field_tokens fs = concat (map (\<lambda>(i, v). FieldBegin (type_of v) i # tokens v @ [FieldEnd]) fs)"

lemma field_tokens_simps [simp]:
  "field_tokens [] = []"
  "field_tokens ((i, v) # fs) = FieldBegin (type_of v) i # tokens v @ FieldEnd # field_tokens fs"
  by (simp_all add: field_tokens_def)

lemma tokens_VStruct: "tokens (VStruct fs) = StructBegin # field_tokens fs @ [FieldStop, StructEnd]"
  by (simp add: field_tokens_def)

lemma field_tokens_append [simp]: "field_tokens (fs @ gs) = field_tokens fs @ field_tokens gs"
  by (simp add: field_tokens_def)

lemma type_of_not_STOP [simp]: "type_of v \<noteq> STOP"
  by (cases v) simp_all

text \<open>
  The contract of a protocol the code relies on: a protocol holds a sequence of tokens still to be
  read; a write succeeds and adds its token at the end, a read of the kind of the first token
  succeeds and takes it off, and \<open>Skip\<close> takes off one value of the type it is told. Strings and
  lists are below the \<open>2^31\<close> that their \<open>int32\<close> lengths on the wire can say.
\<close>

definition writes :: "('p \<Rightarrow> token list \<Rightarrow> bool) \<Rightarrow> ('p, 'e) writer \<Rightarrow> token list \<Rightarrow> bool" where
  "writes holds act ts \<longleftrightarrow>
     (\<forall>p us. holds p us \<longrightarrow> fst (act p) = None \<and> holds (snd (act p)) (us @ ts))"

definition reads ::
  "('p \<Rightarrow> token list \<Rightarrow> bool) \<Rightarrow> ('p \<Rightarrow> 'r \<times> 'p) \<Rightarrow> token list \<Rightarrow> ('r \<Rightarrow> bool) \<Rightarrow> bool" where
  "reads holds act ts ok \<longleftrightarrow>
     (\<forall>p us. holds p (ts @ us) \<longrightarrow> ok (fst (act p)) \<and> holds (snd (act p)) us)"

definition fits :: "nat \<Rightarrow> bool" where
  "fits n \<longleftrightarrow> n < 2147483648"

definition faithful :: "('p, 'e) TProtocol \<Rightarrow> ('p \<Rightarrow> token list \<Rightarrow> bool) \<Rightarrow> bool" where
  "faithful P holds \<longleftrightarrow>
     (\<forall>n. writes holds (WriteStructBegin P n) [StructBegin]) \<and>
     writes holds (WriteStructEnd P) [StructEnd] \<and>
     (\<forall>n t i. writes holds (WriteFieldBegin P n t i) [FieldBegin t i]) \<and>
     writes holds (WriteFieldEnd P) [FieldEnd] \<and>
     writes holds (WriteFieldStop P) [FieldStop] \<and>
     (\<forall>t n. fits n \<longrightarrow> writes holds (WriteListBegin P t (int n)) [ListBegin t (int n)]) \<and>
     writes holds (WriteListEnd P) [ListEnd] \<and>
     (\<forall>b. writes holds (WriteBool P b) [TBool b]) \<and>
     (\<forall>n. writes holds (WriteI32 P n) [TI32 n]) \<and>
     (\<forall>n. writes holds (WriteI64 P n) [TI64 n]) \<and>
     (\<forall>s. fits (length s) \<longrightarrow> writes holds (WriteString P s) [TString s]) \<and>
     reads holds (ReadStructBegin P) [StructBegin] (\<lambda>r. \<exists>n. r = Inr n) \<and>
     reads holds (ReadStructEnd P) [StructEnd] (\<lambda>r. r = None) \<and>
     (\<forall>t i. t \<noteq> STOP \<longrightarrow> reads holds (ReadFieldBegin P) [FieldBegin t i] (\<lambda>r. \<exists>n. r = (n, t, i, None))) \<and>
     reads holds (ReadFieldBegin P) [FieldStop] (\<lambda>r. \<exists>n i. r = (n, STOP, i, None)) \<and>
     reads holds (ReadFieldEnd P) [FieldEnd] (\<lambda>r. r = None) \<and>
     (\<forall>t n. reads holds (ReadListBegin P) [ListBegin t n] (\<lambda>r. r = Inr (t, n))) \<and>
     reads holds (ReadListEnd P) [ListEnd] (\<lambda>r. r = None) \<and>
     (\<forall>b. reads holds (ReadBool P) [TBool b] (\<lambda>r. r = Inr b)) \<and>
     (\<forall>n. reads holds (ReadI32 P) [TI32 n] (\<lambda>r. r = Inr n)) \<and>
     (\<forall>n. reads holds (ReadI64 P) [TI64 n] (\<lambda>r. r = Inr n)) \<and>
     (\<forall>s. reads holds (ReadString P) [TString s] (\<lambda>r. r = Inr s)) \<and>
     (\<forall>v. reads holds (Skip P (type_of v)) (tokens v) (\<lambda>r. r = None))"

lemma readsD:
  assumes "reads holds act ts ok" and "holds p (ts @ us)"
  obtains r p' where "act p = (r, p')" and "ok r" and "holds p' us"
  using assms by (cases "act p") (force simp: reads_def)

lemma reads1D:
  assumes "reads holds act [t] ok" and "holds p (t # us)"
  obtains r p' where "act p = (r, p')" and "ok r" and "holds p' us"
  using readsD [of holds act "[t]" ok p us] assms by auto

section \<open>Writers and the tokens they write\<close>

named_theorems writing \<open>the tokens an operation writes\<close>

lemma writesD: "writes holds act ts \<Longrightarrow> holds p us \<Longrightarrow> \<exists>p'. act p = (None, p') \<and> holds p' (us @ ts)"
  by (cases "act p") (force simp: writes_def)

lemma writes_guarded [writing]: "writes holds act ts \<Longrightarrow> writes holds (guarded f act) ts"
  unfolding writes_def guarded_def by (simp add: split_beta)

lemma writes_attempt:
  "list_all2 (writes holds) acts tss \<Longrightarrow> writes holds (attempt acts) (concat tss)"
proof (induction acts tss rule: list_all2_induct)
  case Nil
  then show ?case by (simp add: writes_def)
next
  case (Cons act acts ts tss)
  show ?case
    unfolding writes_def
  proof (intro allI impI)
    fix p us assume "holds p us"
    with Cons(1) obtain p1 where a: "act p = (None, p1)" "holds p1 (us @ ts)" using writesD by metis
    with Cons(3) obtain p2 where "attempt acts p1 = (None, p2)" "holds p2 ((us @ ts) @ concat tss)"
      using writesD by metis
    with a show "fst (attempt (act # acts) p) = None \<and> holds (snd (attempt (act # acts) p)) (us @ concat (ts # tss))"
      by simp
  qed
qed

lemma writes_field [writing]:
  assumes "faithful P holds" and "writes holds act ts"
  shows "writes holds (write_field P T name type i act) (FieldBegin type i # ts @ [FieldEnd])"
proof -
  have "writes holds (write_field P T name type i act) (concat [[FieldBegin type i], ts, [FieldEnd]])"
    unfolding write_field_def
    by (rule writes_attempt) (use assms in \<open>simp add: writes_guarded faithful_def\<close>)
  then show ?thesis by simp
qed

lemma writes_struct:
  assumes "faithful P holds" and "list_all2 (writes holds) acts tss"
  shows "writes holds (write_struct P T name acts) (StructBegin # concat tss @ [FieldStop, StructEnd])"
proof -
  have "writes holds (write_struct P T name acts) (concat ([[StructBegin]] @ tss @ [[FieldStop], [StructEnd]]))"
    unfolding write_struct_def
    by (rule writes_attempt, intro list_all2_appendI assms(2))
      (use assms(1) in \<open>simp_all add: writes_guarded faithful_def\<close>)
  then show ?thesis by simp
qed

section \<open>Readers and the values they read\<close>

text \<open>
  A reader that takes the tokens of a value, turning \<open>s\<close> into \<open>s'\<close>.
\<close>

definition takes ::
  "('p \<Rightarrow> token list \<Rightarrow> bool) \<Rightarrow> ('s, 'p, 'e) reader \<Rightarrow> 's \<Rightarrow> token list \<Rightarrow> 's \<Rightarrow> bool" where
  "takes holds read s ts s' \<longleftrightarrow>
     (\<forall>p us. holds p (ts @ us) \<longrightarrow> (\<exists>p'. read s p = Some (None, s', p') \<and> holds p' us))"

lemma takesD: "takes holds read s ts s' \<Longrightarrow> holds p (ts @ us) \<Longrightarrow>
    \<exists>p'. read s p = Some (None, s', p') \<and> holds p' us"
  by (simp add: takes_def)

lemma takes_field:
  assumes "reads holds get ts (\<lambda>r. r = Inr v)"
  shows "takes holds (read_field P i get set_it) s ts (set_it v s)"
  unfolding takes_def
proof (intro allI impI)
  fix p us assume "holds p (ts @ us)"
  with assms obtain p' where "get p = (Inr v, p')" "holds p' us"
    by (auto elim: readsD)
  then show "\<exists>p'. read_field P i get set_it s p = Some (None, set_it v s, p') \<and> holds p' us"
    by (simp add: read_field_def)
qed

lemma takes_skip:
  assumes "faithful P holds"
  shows "takes holds (skip_field P (type_of v)) s (tokens v) s"
  unfolding takes_def
proof (intro allI impI)
  fix p us assume "holds p (tokens v @ us)"
  moreover have "reads holds (Skip P (type_of v)) (tokens v) (\<lambda>r. r = None)"
    using assms by (simp add: faithful_def)
  ultimately obtain p' where "Skip P (type_of v) p = (None, p')" "holds p' us"
    by (auto elim: readsD)
  then show "\<exists>p'. skip_field P (type_of v) s p = Some (None, s, p') \<and> holds p' us"
    by (simp add: skip_field_def)
qed

text \<open>
  What the fields of a struct mean to a reader, field by field: \<open>assign i v s\<close> is the struct after
  the field, \<^const>\<open>None\<close> if the field is one the reader knows but its value has the wrong type.
\<close>

fun assign_all :: "(i16 \<Rightarrow> tvalue \<Rightarrow> 's \<Rightarrow> 's option) \<Rightarrow> (i16 \<times> tvalue) list \<Rightarrow> 's \<Rightarrow> 's option" where
  "assign_all assign [] s = Some s"
| "assign_all assign ((i, v) # fs) s = Option.bind (assign i v s) (assign_all assign fs)"

lemma takes_fields:
  assumes P: "faithful P holds"
    and sw: "\<And>i v s s'. assign i v s = Some s' \<Longrightarrow> takes holds (switch i (type_of v)) s (tokens v) s'"
    and "assign_all assign fs s = Some s'"
  shows "takes holds (read_fields P T switch) s (field_tokens fs @ [FieldStop]) s'"
  unfolding takes_def
proof (intro allI impI)
  fix p us
  assume "holds p ((field_tokens fs @ [FieldStop]) @ us)"
  with assms(3) show "\<exists>p'. read_fields P T switch s p = Some (None, s', p') \<and> holds p' us"
  proof (induction fs arbitrary: s p)
    case Nil
    have "reads holds (ReadFieldBegin P) [FieldStop] (\<lambda>r. \<exists>n i. r = (n, STOP, i, None))"
      using P by (simp add: faithful_def)
    with Nil obtain n i p' where "ReadFieldBegin P p = ((n, STOP, i, None), p')" "holds p' us"
      by (auto elim: reads1D)
    with Nil.prems(1) show ?case by (subst read_fields.simps) simp
  next
    case (Cons f fs)
    obtain i v where f: "f = (i, v)" by (cases f)
    obtain s1 where s1: "assign i v s = Some s1" "assign_all assign fs s1 = Some s'"
      using Cons.prems(1) by (auto simp: f bind_eq_Some_conv)
    let ?rest = "(field_tokens fs @ [FieldStop]) @ us"
    have "reads holds (ReadFieldBegin P) [FieldBegin (type_of v) i] (\<lambda>r. \<exists>n. r = (n, type_of v, i, None))"
      using P by (simp add: faithful_def)
    with Cons.prems(2) obtain n p1 where b: "ReadFieldBegin P p = ((n, type_of v, i, None), p1)"
      "holds p1 (tokens v @ FieldEnd # ?rest)"
      by (auto simp: f elim: reads1D)
    from takesD [OF sw [OF s1(1)] b(2)] obtain p2 where c: "switch i (type_of v) s p1 = Some (None, s1, p2)"
      "holds p2 (FieldEnd # ?rest)" by blast
    have "reads holds (ReadFieldEnd P) [FieldEnd] (\<lambda>r. r = None)" using P by (simp add: faithful_def)
    with c(2) obtain p3 where d: "ReadFieldEnd P p2 = (None, p3)" "holds p3 ?rest"
      by (auto elim: reads1D)
    from Cons.IH [OF s1(2) d(2)] show ?case
      by (subst read_fields.simps) (simp add: b(1) c(1) d(1))
  qed
qed

lemma takes_struct:
  assumes P: "faithful P holds"
    and "\<And>i v s s'. assign i v s = Some s' \<Longrightarrow> takes holds (switch i (type_of v)) s (tokens v) s'"
    and "assign_all assign fs s = Some s'"
  shows "takes holds (read_struct P T switch) s (tokens (VStruct fs)) s'"
  unfolding takes_def
proof (intro allI impI)
  fix p us assume h: "holds p (tokens (VStruct fs) @ us)"
  have "reads holds (ReadStructBegin P) [StructBegin] (\<lambda>r. \<exists>n. r = Inr n)"
    using P by (simp add: faithful_def)
  with h obtain n p1 where b: "ReadStructBegin P p = (Inr n, p1)"
    "holds p1 ((field_tokens fs @ [FieldStop]) @ StructEnd # us)"
    by (auto simp: tokens_VStruct simp del: tokens.simps elim: reads1D)
  from takesD [OF takes_fields [of P holds assign switch fs s s' T, OF assms] b(2)] obtain p2 where
    c: "read_fields P T switch s p1 = Some (None, s', p2)" "holds p2 (StructEnd # us)" by blast
  have "reads holds (ReadStructEnd P) [StructEnd] (\<lambda>r. r = None)" using P by (simp add: faithful_def)
  with c(2) obtain p3 where "ReadStructEnd P p2 = (None, p3)" "holds p3 us"
    by (auto elim: reads1D)
  with b(1) c(1) show "\<exists>p'. read_struct P T switch s p = Some (None, s', p') \<and> holds p' us"
    by (simp add: read_struct_def)
qed

section \<open>A protocol that keeps the contract\<close>

text \<open>
  The contract can be met: the protocol whose state is the list of the tokens themselves. \<open>Skip\<close>
  follows the nesting of structs and lists. The witnesses of the properties use it.
\<close>

definition write_token :: "token \<Rightarrow> token list \<Rightarrow> string option \<times> token list" where
  "write_token t ts = (None, ts @ [t])"

definition read_token :: "(token \<Rightarrow> 'a option) \<Rightarrow> token list \<Rightarrow> (string + 'a) \<times> token list" where
  "read_token f ts =
     (case ts of
        [] \<Rightarrow> (Inl ''EOF'', ts)
      | t # us \<Rightarrow> (case f t of None \<Rightarrow> (Inl ''unexpected'', us) | Some v \<Rightarrow> (Inr v, us)))"

definition read_mark :: "token \<Rightarrow> token list \<Rightarrow> string option \<times> token list" where
  "read_mark t ts =
     (case ts of [] \<Rightarrow> (Some ''EOF'', ts) | u # us \<Rightarrow> (if u = t then None else Some ''unexpected'', us))"

fun skip_tokens :: "nat \<Rightarrow> token list \<Rightarrow> token list" where
  "skip_tokens d [] = []"
| "skip_tokens d (t # ts) =
     (let d' = (case t of StructBegin \<Rightarrow> d + 1 | ListBegin _ _ \<Rightarrow> d + 1
                  | StructEnd \<Rightarrow> d - 1 | ListEnd \<Rightarrow> d - 1 | _ \<Rightarrow> d)
      in if d' = 0 then ts else skip_tokens d' ts)"

definition read_header :: "token list \<Rightarrow> (string \<times> ttype \<times> i16 \<times> string option) \<times> token list" where
  "read_header ts =
     (case ts of
        FieldBegin t i # us \<Rightarrow> (([], t, i, None), us)
      | FieldStop # us \<Rightarrow> (([], STOP, 0, None), us)
      | _ # us \<Rightarrow> (([], STOP, 0, Some ''unexpected''), us)
      | [] \<Rightarrow> (([], STOP, 0, Some ''EOF''), []))"

definition token_protocol :: "(token list, string) TProtocol" where
  "token_protocol = \<lparr>
     WriteStructBegin = \<lambda>_. write_token StructBegin, WriteStructEnd = write_token StructEnd,
     WriteFieldBegin = \<lambda>_ t i. write_token (FieldBegin t i), WriteFieldEnd = write_token FieldEnd,
     WriteFieldStop = write_token FieldStop,
     WriteListBegin = \<lambda>t n. write_token (ListBegin t n), WriteListEnd = write_token ListEnd,
     WriteBool = \<lambda>b. write_token (TBool b), WriteI32 = \<lambda>n. write_token (TI32 n),
     WriteI64 = \<lambda>n. write_token (TI64 n), WriteString = \<lambda>s. write_token (TString s),
     ReadStructBegin = read_token (\<lambda>t. case t of StructBegin \<Rightarrow> Some [] | _ \<Rightarrow> None),
     ReadStructEnd = read_mark StructEnd,
     ReadFieldBegin = read_header,
     ReadFieldEnd = read_mark FieldEnd,
     ReadListBegin = read_token (\<lambda>t. case t of ListBegin t n \<Rightarrow> Some (t, n) | _ \<Rightarrow> None),
     ReadListEnd = read_mark ListEnd,
     ReadBool = read_token (\<lambda>t. case t of TBool b \<Rightarrow> Some b | _ \<Rightarrow> None),
     ReadI32 = read_token (\<lambda>t. case t of TI32 n \<Rightarrow> Some n | _ \<Rightarrow> None),
     ReadI64 = read_token (\<lambda>t. case t of TI64 n \<Rightarrow> Some n | _ \<Rightarrow> None),
     ReadString = read_token (\<lambda>t. case t of TString s \<Rightarrow> Some s | _ \<Rightarrow> None),
     Skip = \<lambda>_ ts. (None, skip_tokens 0 ts),
     PrependError = (@)\<rparr>"

lemma skip_tokens_inside:
  "0 < d \<Longrightarrow> skip_tokens d (tokens v @ us) = skip_tokens d us"
proof (induction v arbitrary: d us)
  case (VStruct fs)
  have "skip_tokens (Suc d) (field_tokens fs @ us') = skip_tokens (Suc d) us'" for us'
    using VStruct.IH
  proof (induction fs arbitrary: us')
    case (Cons f fs)
    obtain i v where f: "f = (i, v)" by (cases f)
    have "skip_tokens (Suc d) (tokens v @ ts) = skip_tokens (Suc d) ts" for ts
      by (rule Cons.prems [of f]) (simp_all add: f)
    moreover have "skip_tokens (Suc d) (field_tokens fs @ us') = skip_tokens (Suc d) us'"
      by (rule Cons.IH) (rule Cons.prems, simp_all)
    ultimately show ?case by (simp add: f)
  qed simp
  then show ?case using VStruct.prems by (simp add: tokens_VStruct del: tokens.simps)
next
  case (VList t vs)
  have "skip_tokens (Suc d) (concat (map tokens vs) @ us') = skip_tokens (Suc d) us'" for us'
    using VList.IH by (induction vs arbitrary: us') simp_all
  then show ?case using VList.prems by simp
qed simp_all

lemma skip_tokens_value: "skip_tokens 0 (tokens v @ us) = us"
proof (cases v)
  case (VStruct fs)
  have "skip_tokens (Suc 0) (field_tokens fs @ us') = skip_tokens (Suc 0) us'" for us'
  proof (induction fs arbitrary: us')
    case (Cons f fs)
    then show ?case by (cases f) (simp add: skip_tokens_inside)
  qed simp
  then show ?thesis by (simp add: VStruct tokens_VStruct del: tokens.simps)
next
  case (VList t vs)
  have "skip_tokens (Suc 0) (concat (map tokens vs) @ us') = skip_tokens (Suc 0) us'" for us'
    by (induction vs arbitrary: us') (simp_all add: skip_tokens_inside)
  then show ?thesis by (simp add: VList)
qed simp_all

lemma token_protocol_faithful: "faithful token_protocol (=)"
  unfolding faithful_def writes_def reads_def
  by (auto simp: token_protocol_def write_token_def read_token_def read_mark_def read_header_def
      skip_tokens_value)

lemma skip_tokens_length: "length (skip_tokens d ts) \<le> length ts"
  by (induction d ts rule: skip_tokens.induct) (auto simp: Let_def le_SucI)

lemma token_protocol_consuming: "consuming token_protocol length"
  unfolding consuming_def
  by (auto simp: token_protocol_def read_token_def read_mark_def read_header_def skip_tokens_length
      split: list.splits option.splits token.splits)

end
