(* ===== verification/Codec.thy ===== *)
theory Codec
  imports Thrift SyncWorker
begin

text \<open>
  gen-go/com/store.go: the structs that travel between the nodes, their \<open>Read\<close> and their
  \<open>Write\<close>, over the protocol of theory \<open>Thrift\<close>. \<open>Write\<close> takes the receiver as a pointer, as the
  code tests it for nil. The second part gives every struct its value on the wire and shows, for
  every protocol that keeps the contract, that \<open>Write\<close> puts that value on the wire, that \<open>Read\<close>
  takes it off again, and more generally what \<open>Read\<close> makes of any list of fields.
\<close>

section \<open>SyncCommand\<close>

definition NewSyncCommand :: SyncCommand where
  "NewSyncCommand = \<lparr>sc_Key = [], sc_Count = 0, sc_Expiry = 0, sc_Force = False\<rparr>"

definition SyncCommand_ReadField1 :: "('p, 'e) TProtocol \<Rightarrow> (SyncCommand, 'p, 'e) reader" where
  "SyncCommand_ReadField1 P = read_field P 1 (ReadString P) (\<lambda>v p. p\<lparr>sc_Key := v\<rparr>)"

definition SyncCommand_ReadField2 :: "('p, 'e) TProtocol \<Rightarrow> (SyncCommand, 'p, 'e) reader" where
  "SyncCommand_ReadField2 P = read_field P 2 (ReadI32 P) (\<lambda>v p. p\<lparr>sc_Count := v\<rparr>)"

definition SyncCommand_ReadField3 :: "('p, 'e) TProtocol \<Rightarrow> (SyncCommand, 'p, 'e) reader" where
  "SyncCommand_ReadField3 P = read_field P 3 (ReadI64 P) (\<lambda>v p. p\<lparr>sc_Expiry := v\<rparr>)"

definition SyncCommand_ReadField4 :: "('p, 'e) TProtocol \<Rightarrow> (SyncCommand, 'p, 'e) reader" where
  "SyncCommand_ReadField4 P = read_field P 4 (ReadBool P) (\<lambda>v p. p\<lparr>sc_Force := v\<rparr>)"

definition SyncCommand_switch :: "('p, 'e) TProtocol \<Rightarrow> i16 \<Rightarrow> ttype \<Rightarrow> (SyncCommand, 'p, 'e) reader" where
  "SyncCommand_switch P fieldId fieldTypeId =
    (if fieldId = 1 then SyncCommand_ReadField1 P
     else if fieldId = 2 then SyncCommand_ReadField2 P
     else if fieldId = 3 then SyncCommand_ReadField3 P
     else if fieldId = 4 then SyncCommand_ReadField4 P
     else skip_field P fieldTypeId)"

definition SyncCommand_Read :: "('p, 'e) TProtocol \<Rightarrow> (SyncCommand, 'p, 'e) reader" where
  "SyncCommand_Read P = read_struct P ''*com.SyncCommand'' (SyncCommand_switch P)"

definition SyncCommand_writeField1 :: "('p, 'e) TProtocol \<Rightarrow> SyncCommand \<Rightarrow> ('p, 'e) writer" where
  "SyncCommand_writeField1 P p =
     write_field P ''*com.SyncCommand'' ''key'' STRING 1 (WriteString P (sc_Key p))"

definition SyncCommand_writeField2 :: "('p, 'e) TProtocol \<Rightarrow> SyncCommand \<Rightarrow> ('p, 'e) writer" where
  "SyncCommand_writeField2 P p =
     write_field P ''*com.SyncCommand'' ''count'' I32 2 (WriteI32 P (sc_Count p))"

definition SyncCommand_writeField3 :: "('p, 'e) TProtocol \<Rightarrow> SyncCommand \<Rightarrow> ('p, 'e) writer" where
  "SyncCommand_writeField3 P p =
     write_field P ''*com.SyncCommand'' ''expiry'' I64 3 (WriteI64 P (sc_Expiry p))"

definition SyncCommand_writeField4 :: "('p, 'e) TProtocol \<Rightarrow> SyncCommand \<Rightarrow> ('p, 'e) writer" where
  "SyncCommand_writeField4 P p =
     write_field P ''*com.SyncCommand'' ''force'' BOOL 4 (WriteBool P (sc_Force p))"

definition SyncCommand_Write :: "('p, 'e) TProtocol \<Rightarrow> SyncCommand option \<Rightarrow> ('p, 'e) writer" where
  "SyncCommand_Write P ptr = write_struct P ''*com.SyncCommand'' ''SyncCommand''
     (case ptr of
        None \<Rightarrow> []
      | Some p \<Rightarrow> [SyncCommand_writeField1 P p,
          SyncCommand_writeField2 P p,
          SyncCommand_writeField3 P p,
          SyncCommand_writeField4 P p])"

section \<open>SyncRateConfigArgs\<close>

record SyncRateConfigArgs =
  arg_Key :: string
  arg_Threshold :: i32
  arg_Window :: i32
  arg_Peakaveraged :: bool

definition NewSyncRateConfigArgs :: SyncRateConfigArgs where
  "NewSyncRateConfigArgs = \<lparr>arg_Key = [], arg_Threshold = 0, arg_Window = 0, arg_Peakaveraged = False\<rparr>"

definition SyncRateConfigArgs_ReadField1 :: "('p, 'e) TProtocol \<Rightarrow> (SyncRateConfigArgs, 'p, 'e) reader" where
  "SyncRateConfigArgs_ReadField1 P = read_field P 1 (ReadString P) (\<lambda>v p. p\<lparr>arg_Key := v\<rparr>)"

definition SyncRateConfigArgs_ReadField2 :: "('p, 'e) TProtocol \<Rightarrow> (SyncRateConfigArgs, 'p, 'e) reader" where
  "SyncRateConfigArgs_ReadField2 P = read_field P 2 (ReadI32 P) (\<lambda>v p. p\<lparr>arg_Threshold := v\<rparr>)"

definition SyncRateConfigArgs_ReadField3 :: "('p, 'e) TProtocol \<Rightarrow> (SyncRateConfigArgs, 'p, 'e) reader" where
  "SyncRateConfigArgs_ReadField3 P = read_field P 3 (ReadI32 P) (\<lambda>v p. p\<lparr>arg_Window := v\<rparr>)"

definition SyncRateConfigArgs_ReadField4 :: "('p, 'e) TProtocol \<Rightarrow> (SyncRateConfigArgs, 'p, 'e) reader" where
  "SyncRateConfigArgs_ReadField4 P = read_field P 4 (ReadBool P) (\<lambda>v p. p\<lparr>arg_Peakaveraged := v\<rparr>)"

definition SyncRateConfigArgs_switch :: "('p, 'e) TProtocol \<Rightarrow> i16 \<Rightarrow> ttype \<Rightarrow> (SyncRateConfigArgs, 'p, 'e) reader" where
  "SyncRateConfigArgs_switch P fieldId fieldTypeId =
    (if fieldId = 1 then SyncRateConfigArgs_ReadField1 P
     else if fieldId = 2 then SyncRateConfigArgs_ReadField2 P
     else if fieldId = 3 then SyncRateConfigArgs_ReadField3 P
     else if fieldId = 4 then SyncRateConfigArgs_ReadField4 P
     else skip_field P fieldTypeId)"

definition SyncRateConfigArgs_Read :: "('p, 'e) TProtocol \<Rightarrow> (SyncRateConfigArgs, 'p, 'e) reader" where
  "SyncRateConfigArgs_Read P = read_struct P ''*com.StoreNodeSyncRateConfigArgs'' (SyncRateConfigArgs_switch P)"

definition SyncRateConfigArgs_writeField1 :: "('p, 'e) TProtocol \<Rightarrow> SyncRateConfigArgs \<Rightarrow> ('p, 'e) writer" where
  "SyncRateConfigArgs_writeField1 P p =
     write_field P ''*com.StoreNodeSyncRateConfigArgs'' ''key'' STRING 1 (WriteString P (arg_Key p))"

definition SyncRateConfigArgs_writeField2 :: "('p, 'e) TProtocol \<Rightarrow> SyncRateConfigArgs \<Rightarrow> ('p, 'e) writer" where
  "SyncRateConfigArgs_writeField2 P p =
     write_field P ''*com.StoreNodeSyncRateConfigArgs'' ''threshold'' I32 2 (WriteI32 P (arg_Threshold p))"

definition SyncRateConfigArgs_writeField3 :: "('p, 'e) TProtocol \<Rightarrow> SyncRateConfigArgs \<Rightarrow> ('p, 'e) writer" where
  "SyncRateConfigArgs_writeField3 P p =
     write_field P ''*com.StoreNodeSyncRateConfigArgs'' ''window'' I32 3 (WriteI32 P (arg_Window p))"

definition SyncRateConfigArgs_writeField4 :: "('p, 'e) TProtocol \<Rightarrow> SyncRateConfigArgs \<Rightarrow> ('p, 'e) writer" where
  "SyncRateConfigArgs_writeField4 P p =
     write_field P ''*com.StoreNodeSyncRateConfigArgs'' ''peakaveraged'' BOOL 4 (WriteBool P (arg_Peakaveraged p))"

definition SyncRateConfigArgs_Write :: "('p, 'e) TProtocol \<Rightarrow> SyncRateConfigArgs option \<Rightarrow> ('p, 'e) writer" where
  "SyncRateConfigArgs_Write P ptr = write_struct P ''*com.StoreNodeSyncRateConfigArgs'' ''SyncRateConfig_args''
     (case ptr of
        None \<Rightarrow> []
      | Some p \<Rightarrow> [SyncRateConfigArgs_writeField1 P p,
          SyncRateConfigArgs_writeField2 P p,
          SyncRateConfigArgs_writeField3 P p,
          SyncRateConfigArgs_writeField4 P p])"

section \<open>IncrActionArgs\<close>

record IncrActionArgs =
  inc_Key :: string
  inc_Count :: i32
  inc_Threshold :: i32
  inc_Window :: i32
  inc_Peakaveraged :: bool

definition NewIncrActionArgs :: IncrActionArgs where
  "NewIncrActionArgs = \<lparr>inc_Key = [], inc_Count = 0, inc_Threshold = 0, inc_Window = 0, inc_Peakaveraged = False\<rparr>"

definition IncrActionArgs_ReadField1 :: "('p, 'e) TProtocol \<Rightarrow> (IncrActionArgs, 'p, 'e) reader" where
  "IncrActionArgs_ReadField1 P = read_field P 1 (ReadString P) (\<lambda>v p. p\<lparr>inc_Key := v\<rparr>)"

definition IncrActionArgs_ReadField2 :: "('p, 'e) TProtocol \<Rightarrow> (IncrActionArgs, 'p, 'e) reader" where
  "IncrActionArgs_ReadField2 P = read_field P 2 (ReadI32 P) (\<lambda>v p. p\<lparr>inc_Count := v\<rparr>)"

definition IncrActionArgs_ReadField3 :: "('p, 'e) TProtocol \<Rightarrow> (IncrActionArgs, 'p, 'e) reader" where
  "IncrActionArgs_ReadField3 P = read_field P 3 (ReadI32 P) (\<lambda>v p. p\<lparr>inc_Threshold := v\<rparr>)"

definition IncrActionArgs_ReadField4 :: "('p, 'e) TProtocol \<Rightarrow> (IncrActionArgs, 'p, 'e) reader" where
  "IncrActionArgs_ReadField4 P = read_field P 4 (ReadI32 P) (\<lambda>v p. p\<lparr>inc_Window := v\<rparr>)"

definition IncrActionArgs_ReadField5 :: "('p, 'e) TProtocol \<Rightarrow> (IncrActionArgs, 'p, 'e) reader" where
  "IncrActionArgs_ReadField5 P = read_field P 5 (ReadBool P) (\<lambda>v p. p\<lparr>inc_Peakaveraged := v\<rparr>)"

definition IncrActionArgs_switch :: "('p, 'e) TProtocol \<Rightarrow> i16 \<Rightarrow> ttype \<Rightarrow> (IncrActionArgs, 'p, 'e) reader" where
  "IncrActionArgs_switch P fieldId fieldTypeId =
    (if fieldId = 1 then IncrActionArgs_ReadField1 P
     else if fieldId = 2 then IncrActionArgs_ReadField2 P
     else if fieldId = 3 then IncrActionArgs_ReadField3 P
     else if fieldId = 4 then IncrActionArgs_ReadField4 P
     else if fieldId = 5 then IncrActionArgs_ReadField5 P
     else skip_field P fieldTypeId)"

definition IncrActionArgs_Read :: "('p, 'e) TProtocol \<Rightarrow> (IncrActionArgs, 'p, 'e) reader" where
  "IncrActionArgs_Read P = read_struct P ''*com.StoreNodeIncrActionArgs'' (IncrActionArgs_switch P)"

definition IncrActionArgs_writeField1 :: "('p, 'e) TProtocol \<Rightarrow> IncrActionArgs \<Rightarrow> ('p, 'e) writer" where
  "IncrActionArgs_writeField1 P p =
     write_field P ''*com.StoreNodeIncrActionArgs'' ''key'' STRING 1 (WriteString P (inc_Key p))"

definition IncrActionArgs_writeField2 :: "('p, 'e) TProtocol \<Rightarrow> IncrActionArgs \<Rightarrow> ('p, 'e) writer" where
  "IncrActionArgs_writeField2 P p =
     write_field P ''*com.StoreNodeIncrActionArgs'' ''count'' I32 2 (WriteI32 P (inc_Count p))"

definition IncrActionArgs_writeField3 :: "('p, 'e) TProtocol \<Rightarrow> IncrActionArgs \<Rightarrow> ('p, 'e) writer" where
  "IncrActionArgs_writeField3 P p =
     write_field P ''*com.StoreNodeIncrActionArgs'' ''threshold'' I32 3 (WriteI32 P (inc_Threshold p))"

definition IncrActionArgs_writeField4 :: "('p, 'e) TProtocol \<Rightarrow> IncrActionArgs \<Rightarrow> ('p, 'e) writer" where
  "IncrActionArgs_writeField4 P p =
     write_field P ''*com.StoreNodeIncrActionArgs'' ''window'' I32 4 (WriteI32 P (inc_Window p))"

definition IncrActionArgs_writeField5 :: "('p, 'e) TProtocol \<Rightarrow> IncrActionArgs \<Rightarrow> ('p, 'e) writer" where
  "IncrActionArgs_writeField5 P p =
     write_field P ''*com.StoreNodeIncrActionArgs'' ''peakaveraged'' BOOL 5 (WriteBool P (inc_Peakaveraged p))"

definition IncrActionArgs_Write :: "('p, 'e) TProtocol \<Rightarrow> IncrActionArgs option \<Rightarrow> ('p, 'e) writer" where
  "IncrActionArgs_Write P ptr = write_struct P ''*com.StoreNodeIncrActionArgs'' ''IncrAction_args''
     (case ptr of
        None \<Rightarrow> []
      | Some p \<Rightarrow> [IncrActionArgs_writeField1 P p,
          IncrActionArgs_writeField2 P p,
          IncrActionArgs_writeField3 P p,
          IncrActionArgs_writeField4 P p,
          IncrActionArgs_writeField5 P p])"

section \<open>RateLimitGlobalActionArgs\<close>

record RateLimitGlobalActionArgs =
  glob_Key :: string
  glob_Count :: i32

definition NewRateLimitGlobalActionArgs :: RateLimitGlobalActionArgs where
  "NewRateLimitGlobalActionArgs = \<lparr>glob_Key = [], glob_Count = 0\<rparr>"

definition RateLimitGlobalActionArgs_ReadField1 :: "('p, 'e) TProtocol \<Rightarrow> (RateLimitGlobalActionArgs, 'p, 'e) reader" where
  "RateLimitGlobalActionArgs_ReadField1 P = read_field P 1 (ReadString P) (\<lambda>v p. p\<lparr>glob_Key := v\<rparr>)"

definition RateLimitGlobalActionArgs_ReadField2 :: "('p, 'e) TProtocol \<Rightarrow> (RateLimitGlobalActionArgs, 'p, 'e) reader" where
  "RateLimitGlobalActionArgs_ReadField2 P = read_field P 2 (ReadI32 P) (\<lambda>v p. p\<lparr>glob_Count := v\<rparr>)"

definition RateLimitGlobalActionArgs_switch :: "('p, 'e) TProtocol \<Rightarrow> i16 \<Rightarrow> ttype \<Rightarrow> (RateLimitGlobalActionArgs, 'p, 'e) reader" where
  "RateLimitGlobalActionArgs_switch P fieldId fieldTypeId =
    (if fieldId = 1 then RateLimitGlobalActionArgs_ReadField1 P
     else if fieldId = 2 then RateLimitGlobalActionArgs_ReadField2 P
     else skip_field P fieldTypeId)"

definition RateLimitGlobalActionArgs_Read :: "('p, 'e) TProtocol \<Rightarrow> (RateLimitGlobalActionArgs, 'p, 'e) reader" where
  "RateLimitGlobalActionArgs_Read P = read_struct P ''*com.StoreNodeRateLimitGlobalActionArgs'' (RateLimitGlobalActionArgs_switch P)"

definition RateLimitGlobalActionArgs_writeField1 :: "('p, 'e) TProtocol \<Rightarrow> RateLimitGlobalActionArgs \<Rightarrow> ('p, 'e) writer" where
  "RateLimitGlobalActionArgs_writeField1 P p =
     write_field P ''*com.StoreNodeRateLimitGlobalActionArgs'' ''key'' STRING 1 (WriteString P (glob_Key p))"

definition RateLimitGlobalActionArgs_writeField2 :: "('p, 'e) TProtocol \<Rightarrow> RateLimitGlobalActionArgs \<Rightarrow> ('p, 'e) writer" where
  "RateLimitGlobalActionArgs_writeField2 P p =
     write_field P ''*com.StoreNodeRateLimitGlobalActionArgs'' ''count'' I32 2 (WriteI32 P (glob_Count p))"

definition RateLimitGlobalActionArgs_Write :: "('p, 'e) TProtocol \<Rightarrow> RateLimitGlobalActionArgs option \<Rightarrow> ('p, 'e) writer" where
  "RateLimitGlobalActionArgs_Write P ptr = write_struct P ''*com.StoreNodeRateLimitGlobalActionArgs'' ''RateLimitGlobalAction_args''
     (case ptr of
        None \<Rightarrow> []
      | Some p \<Rightarrow> [RateLimitGlobalActionArgs_writeField1 P p,
          RateLimitGlobalActionArgs_writeField2 P p])"

section \<open>SyncKeysArgs\<close>

text \<open>The commands are pointers; a negative size makes \<open>make\<close> panic.\<close>

record SyncKeysArgs =
  Syncs :: "SyncCommand option list"

definition NewSyncKeysArgs :: SyncKeysArgs where
  "NewSyncKeysArgs = \<lparr>Syncs = []\<rparr>"

primrec read_syncs :: "('p, 'e) TProtocol \<Rightarrow> nat \<Rightarrow> (SyncKeysArgs, 'p, 'e) reader" where
  "read_syncs P 0 s p = Some (None, s, p)"
| "read_syncs P (Suc n) s p =
     Option.bind (SyncCommand_Read P NewSyncCommand p) (\<lambda>(failed, elem, p).
       case failed of
         Some (Err e) \<Rightarrow>
           Some (Some (Err (PrependError P ''*com.SyncCommand error reading struct: '' e)), s, p)
       | Some (Crash c) \<Rightarrow> Some (Some (Crash c), s, p)
       | None \<Rightarrow> read_syncs P n (s\<lparr>Syncs := Syncs s @ [Some elem]\<rparr>) p)"

definition SyncKeysArgs_ReadField1 :: "('p, 'e) TProtocol \<Rightarrow> (SyncKeysArgs, 'p, 'e) reader" where
  "SyncKeysArgs_ReadField1 P s p =
     (case ReadListBegin P p of
        (Inl e, p) \<Rightarrow> Some (Some (Err (PrependError P ''error reading list begin: '' e)), s, p)
      | (Inr (_, n), p) \<Rightarrow>
          if n < 0 then Some (Some (Crash MakeSliceLen), s, p)
          else Option.bind (read_syncs P (nat n) (s\<lparr>Syncs := []\<rparr>) p) (\<lambda>(failed, s, p).
            case failed of
              Some f \<Rightarrow> Some (Some f, s, p)
            | None \<Rightarrow>
                (case ReadListEnd P p of
                   (Some e, p) \<Rightarrow>
                     Some (Some (Err (PrependError P ''error reading list end: '' e)), s, p)
                 | (None, p) \<Rightarrow> Some (None, s, p))))"

definition SyncKeysArgs_switch :: "('p, 'e) TProtocol \<Rightarrow> i16 \<Rightarrow> ttype \<Rightarrow> (SyncKeysArgs, 'p, 'e) reader" where
  "SyncKeysArgs_switch P fieldId fieldTypeId =
    (if fieldId = 1 then SyncKeysArgs_ReadField1 P
     else skip_field P fieldTypeId)"

definition SyncKeysArgs_Read :: "('p, 'e) TProtocol \<Rightarrow> (SyncKeysArgs, 'p, 'e) reader" where
  "SyncKeysArgs_Read P = read_struct P ''*com.StoreNodeSyncKeysArgs'' (SyncKeysArgs_switch P)"

definition SyncKeysArgs_writeField1 :: "('p, 'e) TProtocol \<Rightarrow> SyncKeysArgs \<Rightarrow> ('p, 'e) writer" where
  "SyncKeysArgs_writeField1 P p = attempt (
     [guarded (PrependError P ''*com.StoreNodeSyncKeysArgs write field begin error 1:syncs: '')
        (WriteFieldBegin P ''syncs'' LIST 1),
      guarded (PrependError P ''error writing list begin: '')
        (WriteListBegin P STRUCT (int (length (Syncs p))))] @
     map (\<lambda>v. guarded (PrependError P ''*com.SyncCommand error writing struct: '')
        (SyncCommand_Write P v)) (Syncs p) @
     [guarded (PrependError P ''error writing list end: '') (WriteListEnd P),
      guarded (PrependError P ''*com.StoreNodeSyncKeysArgs write field end error 1:syncs: '')
        (WriteFieldEnd P)])"

definition SyncKeysArgs_Write :: "('p, 'e) TProtocol \<Rightarrow> SyncKeysArgs option \<Rightarrow> ('p, 'e) writer" where
  "SyncKeysArgs_Write P ptr = write_struct P ''*com.StoreNodeSyncKeysArgs'' ''SyncKeys_args''
     (case ptr of
        None \<Rightarrow> []
      | Some p \<Rightarrow> [SyncKeysArgs_writeField1 P p])"

section \<open>Results\<close>

text \<open>The results of the methods without one have no fields: every field is skipped.\<close>

datatype SyncKeysResult = NewSyncKeysResult

definition SyncKeysResult_Read :: "('p, 'e) TProtocol \<Rightarrow> (SyncKeysResult, 'p, 'e) reader" where
  "SyncKeysResult_Read P = read_struct P ''*com.StoreNodeSyncKeysResult'' (\<lambda>fieldId fieldTypeId. skip_field P fieldTypeId)"

definition SyncKeysResult_Write :: "('p, 'e) TProtocol \<Rightarrow> SyncKeysResult option \<Rightarrow> ('p, 'e) writer" where
  "SyncKeysResult_Write P ptr = write_struct P ''*com.StoreNodeSyncKeysResult'' ''SyncKeys_result'' []"

datatype SyncRateConfigResult = NewSyncRateConfigResult

definition SyncRateConfigResult_Read :: "('p, 'e) TProtocol \<Rightarrow> (SyncRateConfigResult, 'p, 'e) reader" where
  "SyncRateConfigResult_Read P = read_struct P ''*com.StoreNodeSyncRateConfigResult'' (\<lambda>fieldId fieldTypeId. skip_field P fieldTypeId)"

definition SyncRateConfigResult_Write :: "('p, 'e) TProtocol \<Rightarrow> SyncRateConfigResult option \<Rightarrow> ('p, 'e) writer" where
  "SyncRateConfigResult_Write P ptr = write_struct P ''*com.StoreNodeSyncRateConfigResult'' ''SyncRateConfig_result'' []"

text \<open>The results of the limiters: a pointer to the answer, nil until it is set.\<close>

record IncrActionResult =
  inc_Success :: "bool option"

definition NewIncrActionResult :: IncrActionResult where
  "NewIncrActionResult = \<lparr>inc_Success = None\<rparr>"

definition IncrActionResult_IsSetSuccess :: "IncrActionResult \<Rightarrow> bool" where
  "IncrActionResult_IsSetSuccess p = (inc_Success p \<noteq> None)"

definition IncrActionResult_GetSuccess :: "IncrActionResult \<Rightarrow> bool" where
  "IncrActionResult_GetSuccess p = (case inc_Success p of None \<Rightarrow> False | Some b \<Rightarrow> b)"

definition IncrActionResult_ReadField0 :: "('p, 'e) TProtocol \<Rightarrow> (IncrActionResult, 'p, 'e) reader" where
  "IncrActionResult_ReadField0 P = read_field P 0 (ReadBool P) (\<lambda>v p. p\<lparr>inc_Success := Some v\<rparr>)"

definition IncrActionResult_switch :: "('p, 'e) TProtocol \<Rightarrow> i16 \<Rightarrow> ttype \<Rightarrow> (IncrActionResult, 'p, 'e) reader" where
  "IncrActionResult_switch P fieldId fieldTypeId =
    (if fieldId = 0 then IncrActionResult_ReadField0 P
     else skip_field P fieldTypeId)"

definition IncrActionResult_Read :: "('p, 'e) TProtocol \<Rightarrow> (IncrActionResult, 'p, 'e) reader" where
  "IncrActionResult_Read P = read_struct P ''*com.StoreNodeIncrActionResult'' (IncrActionResult_switch P)"

definition IncrActionResult_writeField0 :: "('p, 'e) TProtocol \<Rightarrow> IncrActionResult \<Rightarrow> ('p, 'e) writer" where
  "IncrActionResult_writeField0 P p =
     (case inc_Success p of
        None \<Rightarrow> attempt []
      | Some b \<Rightarrow> write_field P ''*com.StoreNodeIncrActionResult'' ''success'' BOOL 0 (WriteBool P b))"

definition IncrActionResult_Write :: "('p, 'e) TProtocol \<Rightarrow> IncrActionResult option \<Rightarrow> ('p, 'e) writer" where
  "IncrActionResult_Write P ptr = write_struct P ''*com.StoreNodeIncrActionResult'' ''IncrAction_result''
     (case ptr of
        None \<Rightarrow> []
      | Some p \<Rightarrow> [IncrActionResult_writeField0 P p])"

record RateLimitGlobalActionResult =
  glob_Success :: "bool option"

definition NewRateLimitGlobalActionResult :: RateLimitGlobalActionResult where
  "NewRateLimitGlobalActionResult = \<lparr>glob_Success = None\<rparr>"

definition RateLimitGlobalActionResult_IsSetSuccess :: "RateLimitGlobalActionResult \<Rightarrow> bool" where
  "RateLimitGlobalActionResult_IsSetSuccess p = (glob_Success p \<noteq> None)"

definition RateLimitGlobalActionResult_GetSuccess :: "RateLimitGlobalActionResult \<Rightarrow> bool" where
  "RateLimitGlobalActionResult_GetSuccess p = (case glob_Success p of None \<Rightarrow> False | Some b \<Rightarrow> b)"

definition RateLimitGlobalActionResult_ReadField0 :: "('p, 'e) TProtocol \<Rightarrow> (RateLimitGlobalActionResult, 'p, 'e) reader" where
  "RateLimitGlobalActionResult_ReadField0 P = read_field P 0 (ReadBool P) (\<lambda>v p. p\<lparr>glob_Success := Some v\<rparr>)"

definition RateLimitGlobalActionResult_switch :: "('p, 'e) TProtocol \<Rightarrow> i16 \<Rightarrow> ttype \<Rightarrow> (RateLimitGlobalActionResult, 'p, 'e) reader" where
  "RateLimitGlobalActionResult_switch P fieldId fieldTypeId =
    (if fieldId = 0 then RateLimitGlobalActionResult_ReadField0 P
     else skip_field P fieldTypeId)"

definition RateLimitGlobalActionResult_Read :: "('p, 'e) TProtocol \<Rightarrow> (RateLimitGlobalActionResult, 'p, 'e) reader" where
  "RateLimitGlobalActionResult_Read P = read_struct P ''*com.StoreNodeRateLimitGlobalActionResult'' (RateLimitGlobalActionResult_switch P)"

definition RateLimitGlobalActionResult_writeField0 :: "('p, 'e) TProtocol \<Rightarrow> RateLimitGlobalActionResult \<Rightarrow> ('p, 'e) writer" where
  "RateLimitGlobalActionResult_writeField0 P p =
     (case glob_Success p of
        None \<Rightarrow> attempt []
      | Some b \<Rightarrow> write_field P ''*com.StoreNodeRateLimitGlobalActionResult'' ''success'' BOOL 0 (WriteBool P b))"

definition RateLimitGlobalActionResult_Write :: "('p, 'e) TProtocol \<Rightarrow> RateLimitGlobalActionResult option \<Rightarrow> ('p, 'e) writer" where
  "RateLimitGlobalActionResult_Write P ptr = write_struct P ''*com.StoreNodeRateLimitGlobalActionResult'' ''RateLimitGlobalAction_result''
     (case ptr of
        None \<Rightarrow> []
      | Some p \<Rightarrow> [RateLimitGlobalActionResult_writeField0 P p])"

section \<open>Values on the wire\<close>

text \<open>
  The value of each struct on the wire, and what each field means to its reader (\<open>assign\<close>): a
  field it knows must have its type, any other field is ignored.
\<close>

definition SyncCommand_value :: "SyncCommand \<Rightarrow> tvalue" where
  "SyncCommand_value m = VStruct [(1, VString (sc_Key m)), (2, VI32 (sc_Count m)), (3, VI64 (sc_Expiry m)), (4, VBool (sc_Force m))]"

definition SyncCommand_assign :: "i16 \<Rightarrow> tvalue \<Rightarrow> SyncCommand \<Rightarrow> SyncCommand option" where
  "SyncCommand_assign i v m =
    (if i = 1 then (case v of VString x \<Rightarrow> Some (m\<lparr>sc_Key := x\<rparr>) | _ \<Rightarrow> None)
     else if i = 2 then (case v of VI32 x \<Rightarrow> Some (m\<lparr>sc_Count := x\<rparr>) | _ \<Rightarrow> None)
     else if i = 3 then (case v of VI64 x \<Rightarrow> Some (m\<lparr>sc_Expiry := x\<rparr>) | _ \<Rightarrow> None)
     else if i = 4 then (case v of VBool x \<Rightarrow> Some (m\<lparr>sc_Force := x\<rparr>) | _ \<Rightarrow> None)
     else Some m)"

definition SyncRateConfigArgs_value :: "SyncRateConfigArgs \<Rightarrow> tvalue" where
  "SyncRateConfigArgs_value m = VStruct [(1, VString (arg_Key m)), (2, VI32 (arg_Threshold m)), (3, VI32 (arg_Window m)), (4, VBool (arg_Peakaveraged m))]"

definition SyncRateConfigArgs_assign :: "i16 \<Rightarrow> tvalue \<Rightarrow> SyncRateConfigArgs \<Rightarrow> SyncRateConfigArgs option" where
  "SyncRateConfigArgs_assign i v m =
    (if i = 1 then (case v of VString x \<Rightarrow> Some (m\<lparr>arg_Key := x\<rparr>) | _ \<Rightarrow> None)
     else if i = 2 then (case v of VI32 x \<Rightarrow> Some (m\<lparr>arg_Threshold := x\<rparr>) | _ \<Rightarrow> None)
     else if i = 3 then (case v of VI32 x \<Rightarrow> Some (m\<lparr>arg_Window := x\<rparr>) | _ \<Rightarrow> None)
     else if i = 4 then (case v of VBool x \<Rightarrow> Some (m\<lparr>arg_Peakaveraged := x\<rparr>) | _ \<Rightarrow> None)
     else Some m)"

definition IncrActionArgs_value :: "IncrActionArgs \<Rightarrow> tvalue" where
  "IncrActionArgs_value m = VStruct [(1, VString (inc_Key m)), (2, VI32 (inc_Count m)), (3, VI32 (inc_Threshold m)), (4, VI32 (inc_Window m)), (5, VBool (inc_Peakaveraged m))]"

definition IncrActionArgs_assign :: "i16 \<Rightarrow> tvalue \<Rightarrow> IncrActionArgs \<Rightarrow> IncrActionArgs option" where
  "IncrActionArgs_assign i v m =
    (if i = 1 then (case v of VString x \<Rightarrow> Some (m\<lparr>inc_Key := x\<rparr>) | _ \<Rightarrow> None)
     else if i = 2 then (case v of VI32 x \<Rightarrow> Some (m\<lparr>inc_Count := x\<rparr>) | _ \<Rightarrow> None)
     else if i = 3 then (case v of VI32 x \<Rightarrow> Some (m\<lparr>inc_Threshold := x\<rparr>) | _ \<Rightarrow> None)
     else if i = 4 then (case v of VI32 x \<Rightarrow> Some (m\<lparr>inc_Window := x\<rparr>) | _ \<Rightarrow> None)
     else if i = 5 then (case v of VBool x \<Rightarrow> Some (m\<lparr>inc_Peakaveraged := x\<rparr>) | _ \<Rightarrow> None)
     else Some m)"

definition RateLimitGlobalActionArgs_value :: "RateLimitGlobalActionArgs \<Rightarrow> tvalue" where
  "RateLimitGlobalActionArgs_value m = VStruct [(1, VString (glob_Key m)), (2, VI32 (glob_Count m))]"

definition RateLimitGlobalActionArgs_assign :: "i16 \<Rightarrow> tvalue \<Rightarrow> RateLimitGlobalActionArgs \<Rightarrow> RateLimitGlobalActionArgs option" where
  "RateLimitGlobalActionArgs_assign i v m =
    (if i = 1 then (case v of VString x \<Rightarrow> Some (m\<lparr>glob_Key := x\<rparr>) | _ \<Rightarrow> None)
     else if i = 2 then (case v of VI32 x \<Rightarrow> Some (m\<lparr>glob_Count := x\<rparr>) | _ \<Rightarrow> None)
     else Some m)"

definition command_value :: "SyncCommand option \<Rightarrow> tvalue" where
  "command_value c = (case c of None \<Rightarrow> VStruct [] | Some c \<Rightarrow> SyncCommand_value c)"

definition SyncKeysArgs_value :: "SyncKeysArgs \<Rightarrow> tvalue" where
  "SyncKeysArgs_value m = VStruct [(1, VList STRUCT (map command_value (Syncs m)))]"

fun command_of :: "tvalue \<Rightarrow> SyncCommand option" where
  "command_of (VStruct fs) = assign_all SyncCommand_assign fs NewSyncCommand"
| "command_of _ = None"

definition SyncKeysArgs_assign :: "i16 \<Rightarrow> tvalue \<Rightarrow> SyncKeysArgs \<Rightarrow> SyncKeysArgs option" where
  "SyncKeysArgs_assign i v m =
    (if i = 1 then
       (case v of
          VList t vs \<Rightarrow>
            if list_all (\<lambda>v. command_of v \<noteq> None) vs then Some \<lparr>Syncs = map command_of vs\<rparr> else None
        | _ \<Rightarrow> None)
     else Some m)"

definition IncrActionResult_value :: "IncrActionResult \<Rightarrow> tvalue" where
  "IncrActionResult_value m = VStruct (case inc_Success m of None \<Rightarrow> [] | Some b \<Rightarrow> [(0, VBool b)])"

definition IncrActionResult_assign :: "i16 \<Rightarrow> tvalue \<Rightarrow> IncrActionResult \<Rightarrow> IncrActionResult option" where
  "IncrActionResult_assign i v m =
    (if i = 0 then (case v of VBool b \<Rightarrow> Some (m\<lparr>inc_Success := Some b\<rparr>) | _ \<Rightarrow> None)
     else Some m)"

definition RateLimitGlobalActionResult_value :: "RateLimitGlobalActionResult \<Rightarrow> tvalue" where
  "RateLimitGlobalActionResult_value m = VStruct (case glob_Success m of None \<Rightarrow> [] | Some b \<Rightarrow> [(0, VBool b)])"

definition RateLimitGlobalActionResult_assign :: "i16 \<Rightarrow> tvalue \<Rightarrow> RateLimitGlobalActionResult \<Rightarrow> RateLimitGlobalActionResult option" where
  "RateLimitGlobalActionResult_assign i v m =
    (if i = 0 then (case v of VBool b \<Rightarrow> Some (m\<lparr>glob_Success := Some b\<rparr>) | _ \<Rightarrow> None)
     else Some m)"

section \<open>Reading and writing the structs\<close>

lemma takes_scalar_field:
  assumes "faithful P holds"
  shows "s' = set_b b s \<Longrightarrow> takes holds (read_field P i (ReadBool P) set_b) s [TBool b] s'"
    and "s' = set_n n s \<Longrightarrow> takes holds (read_field P i (ReadI32 P) set_n) s [TI32 n] s'"
    and "s' = set_m m s \<Longrightarrow> takes holds (read_field P i (ReadI64 P) set_m) s [TI64 m] s'"
    and "s' = set_x x s \<Longrightarrow> takes holds (read_field P i (ReadString P) set_x) s [TString x] s'"
  using assms by (simp_all add: faithful_def takes_field)

lemma writes_scalar_field:
  assumes P: "faithful P holds"
  shows "writes holds (write_field P T n BOOL i (WriteBool P b)) [FieldBegin BOOL i, TBool b, FieldEnd]"
    and "writes holds (write_field P T n I32 i (WriteI32 P k)) [FieldBegin I32 i, TI32 k, FieldEnd]"
    and "writes holds (write_field P T n I64 i (WriteI64 P m)) [FieldBegin I64 i, TI64 m, FieldEnd]"
    and "fits (length s) \<Longrightarrow>
      writes holds (write_field P T n STRING i (WriteString P s)) [FieldBegin STRING i, TString s, FieldEnd]"
  using writes_field [OF P, of "WriteBool P b" "[TBool b]"] writes_field [OF P, of "WriteI32 P k" "[TI32 k]"]
    writes_field [OF P, of "WriteI64 P m" "[TI64 m]"] writes_field [OF P, of "WriteString P s" "[TString s]"] P
  by (simp_all add: faithful_def)

lemma writes_struct_fields:
  assumes "faithful P holds"
    and "list_all2 (\<lambda>act (i, v). writes holds act (FieldBegin (type_of v) i # tokens v @ [FieldEnd])) acts fs"
  shows "writes holds (write_struct P T name acts) (tokens (VStruct fs))"
proof -
  have "list_all2 (writes holds) acts (map (\<lambda>(i, v). FieldBegin (type_of v) i # tokens v @ [FieldEnd]) fs)"
    using assms(2) by (auto simp: list_all2_conv_all_nth split_beta)
  from writes_struct [OF assms(1) this] show ?thesis by simp
qed

lemma read_scalar_field_returns:
  assumes "consuming P rest"
  shows "returns rest (read_field P i (ReadBool P) set_b)" and "returns rest (read_field P i (ReadI32 P) set_n)"
    and "returns rest (read_field P i (ReadI64 P) set_m)" and "returns rest (read_field P i (ReadString P) set_s)"
  using assms by (simp_all add: consuming_def read_field_returns)

definition SyncCommand_small :: "SyncCommand \<Rightarrow> bool" where
  "SyncCommand_small m = fits (length (sc_Key m))"

lemmas SyncCommand_reading = SyncCommand_switch_def SyncCommand_ReadField1_def SyncCommand_ReadField2_def SyncCommand_ReadField3_def SyncCommand_ReadField4_def

lemma SyncCommand_switch_takes:
  assumes P: "faithful P holds" and "SyncCommand_assign i v s = Some s'"
  shows "takes holds (SyncCommand_switch P i (type_of v)) s (tokens v) s'"
  using assms(2)
  by (auto simp: SyncCommand_assign_def SyncCommand_reading takes_scalar_field [OF P] takes_skip [OF P]
    split: if_splits tvalue.splits)

lemma SyncCommand_Read_takes:
  assumes "faithful P holds" and "assign_all SyncCommand_assign fs s = Some s'"
  shows "takes holds (SyncCommand_Read P) s (tokens (VStruct fs)) s'"
  unfolding SyncCommand_Read_def by (rule takes_struct [OF assms(1) SyncCommand_switch_takes [OF assms(1)] assms(2)])

lemma SyncCommand_Read_returns:
  assumes "consuming P rest"
  shows "returns rest (SyncCommand_Read P)"
  unfolding SyncCommand_Read_def
  by (rule read_struct_returns [OF assms])
    (simp add: SyncCommand_reading read_scalar_field_returns [OF assms] skip_field_returns [OF assms])

lemma SyncCommand_Write_writes:
  assumes P: "faithful P holds" and "SyncCommand_small m"
  shows "writes holds (SyncCommand_Write P (Some m)) (tokens (SyncCommand_value m))"
  unfolding SyncCommand_Write_def SyncCommand_value_def
  by (rule writes_struct_fields [OF P])
    (use assms(2) in \<open>simp add: SyncCommand_small_def SyncCommand_writeField1_def SyncCommand_writeField2_def SyncCommand_writeField3_def SyncCommand_writeField4_def
      writes_scalar_field [OF P]\<close>)

definition SyncRateConfigArgs_small :: "SyncRateConfigArgs \<Rightarrow> bool" where
  "SyncRateConfigArgs_small m = fits (length (arg_Key m))"

lemmas SyncRateConfigArgs_reading = SyncRateConfigArgs_switch_def SyncRateConfigArgs_ReadField1_def SyncRateConfigArgs_ReadField2_def SyncRateConfigArgs_ReadField3_def SyncRateConfigArgs_ReadField4_def

lemma SyncRateConfigArgs_switch_takes:
  assumes P: "faithful P holds" and "SyncRateConfigArgs_assign i v s = Some s'"
  shows "takes holds (SyncRateConfigArgs_switch P i (type_of v)) s (tokens v) s'"
  using assms(2)
  by (auto simp: SyncRateConfigArgs_assign_def SyncRateConfigArgs_reading takes_scalar_field [OF P] takes_skip [OF P]
    split: if_splits tvalue.splits)

lemma SyncRateConfigArgs_Read_takes:
  assumes "faithful P holds" and "assign_all SyncRateConfigArgs_assign fs s = Some s'"
  shows "takes holds (SyncRateConfigArgs_Read P) s (tokens (VStruct fs)) s'"
  unfolding SyncRateConfigArgs_Read_def by (rule takes_struct [OF assms(1) SyncRateConfigArgs_switch_takes [OF assms(1)] assms(2)])

lemma SyncRateConfigArgs_Read_returns:
  assumes "consuming P rest"
  shows "returns rest (SyncRateConfigArgs_Read P)"
  unfolding SyncRateConfigArgs_Read_def
  by (rule read_struct_returns [OF assms])
    (simp add: SyncRateConfigArgs_reading read_scalar_field_returns [OF assms] skip_field_returns [OF assms])

lemma SyncRateConfigArgs_Write_writes:
  assumes P: "faithful P holds" and "SyncRateConfigArgs_small m"
  shows "writes holds (SyncRateConfigArgs_Write P (Some m)) (tokens (SyncRateConfigArgs_value m))"
  unfolding SyncRateConfigArgs_Write_def SyncRateConfigArgs_value_def
  by (rule writes_struct_fields [OF P])
    (use assms(2) in \<open>simp add: SyncRateConfigArgs_small_def SyncRateConfigArgs_writeField1_def SyncRateConfigArgs_writeField2_def SyncRateConfigArgs_writeField3_def SyncRateConfigArgs_writeField4_def
      writes_scalar_field [OF P]\<close>)

definition IncrActionArgs_small :: "IncrActionArgs \<Rightarrow> bool" where
  "IncrActionArgs_small m = fits (length (inc_Key m))"

lemmas IncrActionArgs_reading = IncrActionArgs_switch_def IncrActionArgs_ReadField1_def IncrActionArgs_ReadField2_def IncrActionArgs_ReadField3_def IncrActionArgs_ReadField4_def IncrActionArgs_ReadField5_def

lemma IncrActionArgs_switch_takes:
  assumes P: "faithful P holds" and "IncrActionArgs_assign i v s = Some s'"
  shows "takes holds (IncrActionArgs_switch P i (type_of v)) s (tokens v) s'"
  using assms(2)
  by (auto simp: IncrActionArgs_assign_def IncrActionArgs_reading takes_scalar_field [OF P] takes_skip [OF P]
    split: if_splits tvalue.splits)

lemma IncrActionArgs_Read_takes:
  assumes "faithful P holds" and "assign_all IncrActionArgs_assign fs s = Some s'"
  shows "takes holds (IncrActionArgs_Read P) s (tokens (VStruct fs)) s'"
  unfolding IncrActionArgs_Read_def by (rule takes_struct [OF assms(1) IncrActionArgs_switch_takes [OF assms(1)] assms(2)])

lemma IncrActionArgs_Read_returns:
  assumes "consuming P rest"
  shows "returns rest (IncrActionArgs_Read P)"
  unfolding IncrActionArgs_Read_def
  by (rule read_struct_returns [OF assms])
    (simp add: IncrActionArgs_reading read_scalar_field_returns [OF assms] skip_field_returns [OF assms])

lemma IncrActionArgs_Write_writes:
  assumes P: "faithful P holds" and "IncrActionArgs_small m"
  shows "writes holds (IncrActionArgs_Write P (Some m)) (tokens (IncrActionArgs_value m))"
  unfolding IncrActionArgs_Write_def IncrActionArgs_value_def
  by (rule writes_struct_fields [OF P])
    (use assms(2) in \<open>simp add: IncrActionArgs_small_def IncrActionArgs_writeField1_def IncrActionArgs_writeField2_def IncrActionArgs_writeField3_def IncrActionArgs_writeField4_def IncrActionArgs_writeField5_def
      writes_scalar_field [OF P]\<close>)

definition RateLimitGlobalActionArgs_small :: "RateLimitGlobalActionArgs \<Rightarrow> bool" where
  "RateLimitGlobalActionArgs_small m = fits (length (glob_Key m))"

lemmas RateLimitGlobalActionArgs_reading = RateLimitGlobalActionArgs_switch_def RateLimitGlobalActionArgs_ReadField1_def RateLimitGlobalActionArgs_ReadField2_def

lemma RateLimitGlobalActionArgs_switch_takes:
  assumes P: "faithful P holds" and "RateLimitGlobalActionArgs_assign i v s = Some s'"
  shows "takes holds (RateLimitGlobalActionArgs_switch P i (type_of v)) s (tokens v) s'"
  using assms(2)
  by (auto simp: RateLimitGlobalActionArgs_assign_def RateLimitGlobalActionArgs_reading takes_scalar_field [OF P] takes_skip [OF P]
    split: if_splits tvalue.splits)

lemma RateLimitGlobalActionArgs_Read_takes:
  assumes "faithful P holds" and "assign_all RateLimitGlobalActionArgs_assign fs s = Some s'"
  shows "takes holds (RateLimitGlobalActionArgs_Read P) s (tokens (VStruct fs)) s'"
  unfolding RateLimitGlobalActionArgs_Read_def by (rule takes_struct [OF assms(1) RateLimitGlobalActionArgs_switch_takes [OF assms(1)] assms(2)])

lemma RateLimitGlobalActionArgs_Read_returns:
  assumes "consuming P rest"
  shows "returns rest (RateLimitGlobalActionArgs_Read P)"
  unfolding RateLimitGlobalActionArgs_Read_def
  by (rule read_struct_returns [OF assms])
    (simp add: RateLimitGlobalActionArgs_reading read_scalar_field_returns [OF assms] skip_field_returns [OF assms])

lemma RateLimitGlobalActionArgs_Write_writes:
  assumes P: "faithful P holds" and "RateLimitGlobalActionArgs_small m"
  shows "writes holds (RateLimitGlobalActionArgs_Write P (Some m)) (tokens (RateLimitGlobalActionArgs_value m))"
  unfolding RateLimitGlobalActionArgs_Write_def RateLimitGlobalActionArgs_value_def
  by (rule writes_struct_fields [OF P])
    (use assms(2) in \<open>simp add: RateLimitGlobalActionArgs_small_def RateLimitGlobalActionArgs_writeField1_def RateLimitGlobalActionArgs_writeField2_def
      writes_scalar_field [OF P]\<close>)

lemmas IncrActionResult_reading = IncrActionResult_switch_def IncrActionResult_ReadField0_def

lemma IncrActionResult_switch_takes:
  assumes P: "faithful P holds" and "IncrActionResult_assign i v s = Some s'"
  shows "takes holds (IncrActionResult_switch P i (type_of v)) s (tokens v) s'"
  using assms(2)
  by (auto simp: IncrActionResult_assign_def IncrActionResult_reading takes_scalar_field [OF P] takes_skip [OF P]
    split: if_splits tvalue.splits)

lemma IncrActionResult_Read_takes:
  assumes "faithful P holds" and "assign_all IncrActionResult_assign fs s = Some s'"
  shows "takes holds (IncrActionResult_Read P) s (tokens (VStruct fs)) s'"
  unfolding IncrActionResult_Read_def by (rule takes_struct [OF assms(1) IncrActionResult_switch_takes [OF assms(1)] assms(2)])

lemma IncrActionResult_Read_returns:
  assumes "consuming P rest"
  shows "returns rest (IncrActionResult_Read P)"
  unfolding IncrActionResult_Read_def
  by (rule read_struct_returns [OF assms])
    (simp add: IncrActionResult_reading read_scalar_field_returns [OF assms] skip_field_returns [OF assms])

lemma IncrActionResult_Write_writes:
  assumes P: "faithful P holds"
  shows "writes holds (IncrActionResult_Write P (Some m)) (tokens (IncrActionResult_value m))"
proof (cases "inc_Success m")
  case None
  have "writes holds (write_struct P T n [attempt []]) (StructBegin # concat [[]] @ [FieldStop, StructEnd])" for T n
    by (rule writes_struct [OF P]) (simp add: writes_def)
  with None show ?thesis by (simp add: IncrActionResult_Write_def IncrActionResult_writeField0_def IncrActionResult_value_def)
next
  case (Some b)
  show ?thesis
    unfolding IncrActionResult_Write_def IncrActionResult_value_def
    by (rule writes_struct_fields [OF P])
      (simp add: Some IncrActionResult_writeField0_def writes_scalar_field [OF P])
qed

lemmas RateLimitGlobalActionResult_reading = RateLimitGlobalActionResult_switch_def RateLimitGlobalActionResult_ReadField0_def

lemma RateLimitGlobalActionResult_switch_takes:
  assumes P: "faithful P holds" and "RateLimitGlobalActionResult_assign i v s = Some s'"
  shows "takes holds (RateLimitGlobalActionResult_switch P i (type_of v)) s (tokens v) s'"
  using assms(2)
  by (auto simp: RateLimitGlobalActionResult_assign_def RateLimitGlobalActionResult_reading takes_scalar_field [OF P] takes_skip [OF P]
    split: if_splits tvalue.splits)

lemma RateLimitGlobalActionResult_Read_takes:
  assumes "faithful P holds" and "assign_all RateLimitGlobalActionResult_assign fs s = Some s'"
  shows "takes holds (RateLimitGlobalActionResult_Read P) s (tokens (VStruct fs)) s'"
  unfolding RateLimitGlobalActionResult_Read_def by (rule takes_struct [OF assms(1) RateLimitGlobalActionResult_switch_takes [OF assms(1)] assms(2)])

lemma RateLimitGlobalActionResult_Read_returns:
  assumes "consuming P rest"
  shows "returns rest (RateLimitGlobalActionResult_Read P)"
  unfolding RateLimitGlobalActionResult_Read_def
  by (rule read_struct_returns [OF assms])
    (simp add: RateLimitGlobalActionResult_reading read_scalar_field_returns [OF assms] skip_field_returns [OF assms])

lemma RateLimitGlobalActionResult_Write_writes:
  assumes P: "faithful P holds"
  shows "writes holds (RateLimitGlobalActionResult_Write P (Some m)) (tokens (RateLimitGlobalActionResult_value m))"
proof (cases "glob_Success m")
  case None
  have "writes holds (write_struct P T n [attempt []]) (StructBegin # concat [[]] @ [FieldStop, StructEnd])" for T n
    by (rule writes_struct [OF P]) (simp add: writes_def)
  with None show ?thesis by (simp add: RateLimitGlobalActionResult_Write_def RateLimitGlobalActionResult_writeField0_def RateLimitGlobalActionResult_value_def)
next
  case (Some b)
  show ?thesis
    unfolding RateLimitGlobalActionResult_Write_def RateLimitGlobalActionResult_value_def
    by (rule writes_struct_fields [OF P])
      (simp add: Some RateLimitGlobalActionResult_writeField0_def writes_scalar_field [OF P])
qed

lemma SyncKeysResult_Read_takes:
  assumes P: "faithful P holds"
  shows "takes holds (SyncKeysResult_Read P) s (tokens (VStruct fs)) s"
proof -
  have "assign_all (\<lambda>_ _. Some) fs s = Some s" by (induction fs) auto
  then show ?thesis
    unfolding SyncKeysResult_Read_def by (intro takes_struct [OF P, where assign = "\<lambda>_ _. Some"]) (auto simp: takes_skip [OF P])
qed

lemma SyncKeysResult_Read_returns:
  assumes "consuming P rest"
  shows "returns rest (SyncKeysResult_Read P)"
  unfolding SyncKeysResult_Read_def by (rule read_struct_returns [OF assms]) (rule skip_field_returns [OF assms])

lemma SyncKeysResult_Write_writes:
  assumes P: "faithful P holds"
  shows "writes holds (SyncKeysResult_Write P ptr) (tokens (VStruct []))"
  unfolding SyncKeysResult_Write_def by (rule writes_struct_fields [OF P]) simp

lemma SyncRateConfigResult_Read_takes:
  assumes P: "faithful P holds"
  shows "takes holds (SyncRateConfigResult_Read P) s (tokens (VStruct fs)) s"
proof -
  have "assign_all (\<lambda>_ _. Some) fs s = Some s" by (induction fs) auto
  then show ?thesis
    unfolding SyncRateConfigResult_Read_def by (intro takes_struct [OF P, where assign = "\<lambda>_ _. Some"]) (auto simp: takes_skip [OF P])
qed

lemma SyncRateConfigResult_Read_returns:
  assumes "consuming P rest"
  shows "returns rest (SyncRateConfigResult_Read P)"
  unfolding SyncRateConfigResult_Read_def by (rule read_struct_returns [OF assms]) (rule skip_field_returns [OF assms])

lemma SyncRateConfigResult_Write_writes:
  assumes P: "faithful P holds"
  shows "writes holds (SyncRateConfigResult_Write P ptr) (tokens (VStruct []))"
  unfolding SyncRateConfigResult_Write_def by (rule writes_struct_fields [OF P]) simp

section \<open>The commands of a batch\<close>

lemma read_syncs_takes:
  assumes P: "faithful P holds" and "list_all (\<lambda>v. command_of v \<noteq> None) vs"
  shows "takes holds (read_syncs P (length vs)) s (concat (map tokens vs)) (s\<lparr>Syncs := Syncs s @ map command_of vs\<rparr>)"
  using assms(2)
proof (induction vs arbitrary: s)
  case Nil
  then show ?case by (simp add: takes_def)
next
  case (Cons v vs)
  obtain fs c where v: "v = VStruct fs" and c: "assign_all SyncCommand_assign fs NewSyncCommand = Some c"
    using Cons.prems by (cases v) auto
  show ?case
    unfolding takes_def
  proof (intro allI impI)
    fix p us assume "holds p (concat (map tokens (v # vs)) @ us)"
    then have "holds p (tokens (VStruct fs) @ (concat (map tokens vs) @ us))" by (simp add: v)
    from takesD [OF SyncCommand_Read_takes [OF P c] this] obtain p1 where
      p1: "SyncCommand_Read P NewSyncCommand p = Some (None, c, p1)" "holds p1 (concat (map tokens vs) @ us)"
      by blast
    have "takes holds (read_syncs P (length vs)) (s\<lparr>Syncs := Syncs s @ [Some c]\<rparr>) (concat (map tokens vs))
      (s\<lparr>Syncs := Syncs s @ [Some c]\<rparr>\<lparr>Syncs := Syncs (s\<lparr>Syncs := Syncs s @ [Some c]\<rparr>) @ map command_of vs\<rparr>)"
      using Cons.prems by (intro Cons.IH) simp
    from takesD [OF this p1(2)] p1(1) c show "\<exists>p'. read_syncs P (length (v # vs)) s p =
        Some (None, s\<lparr>Syncs := Syncs s @ map command_of (v # vs)\<rparr>, p') \<and> holds p' us"
      by (auto simp: v)
  qed
qed

lemma SyncKeysArgs_ReadField1_takes:
  assumes P: "faithful P holds" and vs: "list_all (\<lambda>v. command_of v \<noteq> None) vs"
  shows "takes holds (SyncKeysArgs_ReadField1 P) s (tokens (VList t vs)) \<lparr>Syncs = map command_of vs\<rparr>"
  unfolding takes_def
proof (intro allI impI)
  fix p us assume h: "holds p (tokens (VList t vs) @ us)"
  have "reads holds (ReadListBegin P) [ListBegin t (int (length vs))] (\<lambda>r. r = Inr (t, int (length vs)))"
    using P by (simp add: faithful_def)
  with h obtain p1 where b: "ReadListBegin P p = (Inr (t, int (length vs)), p1)"
    "holds p1 (concat (map tokens vs) @ ListEnd # us)"
    by (auto elim: reads1D)
  from takesD [OF read_syncs_takes [OF P vs, of "s\<lparr>Syncs := []\<rparr>"] b(2)] obtain p2 where
    c: "read_syncs P (length vs) (s\<lparr>Syncs := []\<rparr>) p1 = Some (None, s\<lparr>Syncs := map command_of vs\<rparr>, p2)"
      "holds p2 (ListEnd # us)"
    by auto
  have "reads holds (ReadListEnd P) [ListEnd] (\<lambda>r. r = None)" using P by (simp add: faithful_def)
  with c(2) obtain p3 where "ReadListEnd P p2 = (None, p3)" "holds p3 us"
    by (auto elim: reads1D)
  with b(1) c(1) show "\<exists>p'. SyncKeysArgs_ReadField1 P s p = Some (None, \<lparr>Syncs = map command_of vs\<rparr>, p') \<and> holds p' us"
    by (cases s) (simp add: SyncKeysArgs_ReadField1_def)
qed

lemma SyncKeysArgs_switch_takes:
  assumes P: "faithful P holds" and "SyncKeysArgs_assign i v s = Some s'"
  shows "takes holds (SyncKeysArgs_switch P i (type_of v)) s (tokens v) s'"
proof (cases "i = 1")
  case True
  with assms(2) obtain t vs where "v = VList t vs" "list_all (\<lambda>v. command_of v \<noteq> None) vs"
    "s' = \<lparr>Syncs = map command_of vs\<rparr>"
    by (auto simp: SyncKeysArgs_assign_def split: tvalue.splits if_splits)
  with True SyncKeysArgs_ReadField1_takes [OF P] show ?thesis
    by (simp add: SyncKeysArgs_switch_def del: tokens.simps)
next
  case False
  with assms(2) show ?thesis
    by (simp add: SyncKeysArgs_assign_def SyncKeysArgs_switch_def takes_skip [OF P])
qed

lemma SyncKeysArgs_Read_takes:
  assumes "faithful P holds" and "assign_all SyncKeysArgs_assign fs s = Some s'"
  shows "takes holds (SyncKeysArgs_Read P) s (tokens (VStruct fs)) s'"
  unfolding SyncKeysArgs_Read_def
  by (rule takes_struct [OF assms(1) SyncKeysArgs_switch_takes [OF assms(1)] assms(2)])

lemma read_syncs_returns:
  assumes "consuming P rest"
  shows "returns rest (read_syncs P n)"
  unfolding returns_def
proof (induction n)
  case (Suc n)
  show ?case
  proof (intro allI)
    fix s p
    obtain f c p1 where r: "SyncCommand_Read P NewSyncCommand p = Some (f, c, p1)" "rest p1 \<le> rest p"
      using returnsD [OF SyncCommand_Read_returns [OF assms]] by blast
    have "case read_syncs P n (s\<lparr>Syncs := Syncs s @ [Some c]\<rparr>) p1 of
        None \<Rightarrow> False | Some (_, _, p') \<Rightarrow> rest p' \<le> rest p1"
      using Suc.IH by blast
    then show "case read_syncs P (Suc n) s p of None \<Rightarrow> False | Some (_, _, p') \<Rightarrow> rest p' \<le> rest p"
      using r by (auto split: option.splits failure.splits)
  qed
qed simp

lemma SyncKeysArgs_ReadField1_returns:
  assumes "consuming P rest"
  shows "returns rest (SyncKeysArgs_ReadField1 P)"
  unfolding returns_def
proof (intro allI)
  fix s p
  obtain r p1 where b: "ReadListBegin P p = (r, p1)" by (cases "ReadListBegin P p")
  have p1: "rest p1 \<le> rest p" using assms b by (auto simp: consuming_def dest!: spec [of _ p])
  obtain f s2 p2 where l: "read_syncs P (nat (snd (projr r))) (s\<lparr>Syncs := []\<rparr>) p1 = Some (f, s2, p2)"
    "rest p2 \<le> rest p1"
    using returnsD [OF read_syncs_returns [OF assms]] by blast
  obtain e p3 where c: "ReadListEnd P p2 = (e, p3)" by (cases "ReadListEnd P p2")
  have "rest p3 \<le> rest p2" using assms c by (auto simp: consuming_def dest!: spec [of _ p2])
  then show "case SyncKeysArgs_ReadField1 P s p of None \<Rightarrow> False | Some (_, _, p') \<Rightarrow> rest p' \<le> rest p"
    using p1 l by (auto simp: SyncKeysArgs_ReadField1_def b c split: sum.splits option.splits)
qed

lemma SyncKeysArgs_Read_returns:
  assumes "consuming P rest"
  shows "returns rest (SyncKeysArgs_Read P)"
  unfolding SyncKeysArgs_Read_def
  by (rule read_struct_returns [OF assms])
    (simp add: SyncKeysArgs_switch_def SyncKeysArgs_ReadField1_returns [OF assms] skip_field_returns [OF assms])

definition SyncKeysArgs_small :: "SyncKeysArgs \<Rightarrow> bool" where
  "SyncKeysArgs_small m \<longleftrightarrow> fits (length (Syncs m)) \<and>
     list_all (\<lambda>c. case c of None \<Rightarrow> True | Some c \<Rightarrow> SyncCommand_small c) (Syncs m)"

lemma command_Write_writes:
  assumes P: "faithful P holds" and "case c of None \<Rightarrow> True | Some c \<Rightarrow> SyncCommand_small c"
  shows "writes holds (SyncCommand_Write P c) (tokens (command_value c))"
proof (cases c)
  case None
  have "writes holds (write_struct P T n []) (tokens (VStruct []))" for T n
    by (rule writes_struct_fields [OF P]) simp
  with None show ?thesis by (simp add: SyncCommand_Write_def command_value_def)
next
  case (Some m)
  with assms(2) SyncCommand_Write_writes [OF P] show ?thesis by (simp add: command_value_def)
qed

lemma SyncKeysArgs_writeField1_writes:
  assumes P: "faithful P holds" and m: "SyncKeysArgs_small m"
  shows "writes holds (SyncKeysArgs_writeField1 P m)
    (FieldBegin LIST 1 # tokens (VList STRUCT (map command_value (Syncs m))) @ [FieldEnd])"
proof -
  have "list_all2 (writes holds)
      (map (\<lambda>v. guarded (PrependError P ''*com.SyncCommand error writing struct: '') (SyncCommand_Write P v)) (Syncs m))
      (map (\<lambda>v. tokens (command_value v)) (Syncs m))"
    using m command_Write_writes [OF P]
    by (auto simp: list_all2_conv_all_nth SyncKeysArgs_small_def list_all_length intro!: writes_guarded)
  moreover have "fits (length (Syncs m))" using m by (simp add: SyncKeysArgs_small_def)
  ultimately have "writes holds (SyncKeysArgs_writeField1 P m)
      (concat ([[FieldBegin LIST 1], [ListBegin STRUCT (int (length (Syncs m)))]] @
         map (\<lambda>v. tokens (command_value v)) (Syncs m) @ [[ListEnd], [FieldEnd]]))"
    unfolding SyncKeysArgs_writeField1_def
    by (intro writes_attempt list_all2_appendI) (use P in \<open>simp_all add: faithful_def writes_guarded\<close>)
  then show ?thesis by (simp add: comp_def)
qed

lemma SyncKeysArgs_Write_writes:
  assumes P: "faithful P holds" and "SyncKeysArgs_small m"
  shows "writes holds (SyncKeysArgs_Write P (Some m)) (tokens (SyncKeysArgs_value m))"
  unfolding SyncKeysArgs_Write_def SyncKeysArgs_value_def
  by (rule writes_struct_fields [OF P]) (use SyncKeysArgs_writeField1_writes [OF assms] in simp)

text \<open>What arrives: a nil command arrives as the empty command.\<close>

definition as_received :: "SyncKeysArgs \<Rightarrow> SyncKeysArgs" where
  "as_received m = \<lparr>Syncs = map (\<lambda>c. Some (case c of None \<Rightarrow> NewSyncCommand | Some c \<Rightarrow> c)) (Syncs m)\<rparr>"

lemma command_of_value: "command_of (command_value c) = Some (case c of None \<Rightarrow> NewSyncCommand | Some c \<Rightarrow> c)"
  by (auto simp: command_value_def SyncCommand_value_def SyncCommand_assign_def NewSyncCommand_def split: option.splits)

lemma SyncKeysArgs_assign_value:
  "assign_all SyncKeysArgs_assign [(1, VList STRUCT (map command_value (Syncs m)))] s = Some (as_received m)"
  by (simp add: SyncKeysArgs_assign_def list_all_length command_of_value as_received_def comp_def)

section \<open>The contract of a message\<close>

text \<open>
  What the transport relies on for every struct it carries, whatever the protocol: \<open>Write\<close> puts
  the struct's value on the wire, \<open>Read\<close> into a fresh struct takes it off, and \<open>Read\<close> returns.
\<close>

locale message =
  fixes encode :: "('p, 'e) TProtocol \<Rightarrow> 's option \<Rightarrow> ('p, 'e) writer"
    and decode :: "('p, 'e) TProtocol \<Rightarrow> ('s, 'p, 'e) reader"
    and fresh :: 's
    and wire :: "'s \<Rightarrow> tvalue"
    and small :: "'s \<Rightarrow> bool"
    and received :: "'s \<Rightarrow> 's"
  assumes write_wire: "faithful P holds \<Longrightarrow> small m \<Longrightarrow> writes holds (encode P (Some m)) (tokens (wire m))"
    and read_wire: "faithful P holds \<Longrightarrow> takes holds (decode P) fresh (tokens (wire m)) (received m)"
    and read_returns: "consuming P rest \<Longrightarrow> returns rest (decode P)"
begin

lemma sent:
  assumes "faithful P holds" and "small m" and "holds p us"
  shows "\<exists>p'. encode P (Some m) p = (None, p') \<and> holds p' (us @ tokens (wire m))"
  using writesD [OF write_wire [OF assms(1,2)] assms(3)] .

lemma transmitted:
  assumes "faithful P holds" and "small m" and "holds p []"
  shows "\<exists>p1 p2. encode P (Some m) p = (None, p1) \<and>
    decode P fresh p1 = Some (None, received m, p2) \<and> holds p2 []"
proof -
  obtain p1 where p1: "encode P (Some m) p = (None, p1)" "holds p1 (tokens (wire m) @ [])"
    using sent [OF assms] by auto
  from takesD [OF read_wire [OF assms(1)] p1(2)] p1(1) show ?thesis by auto
qed

text \<open>Several messages written one after the other are read one after the other.\<close>

lemma pipelined:
  assumes "faithful P holds" and "list_all small ms" and "holds p us"
  shows "\<exists>p'. attempt (map (\<lambda>m. encode P (Some m)) ms) p = (None, p') \<and>
    holds p' (us @ concat (map (\<lambda>m. tokens (wire m)) ms))"
proof -
  have "list_all2 (writes holds) (map (\<lambda>m. encode P (Some m)) ms) (map (\<lambda>m. tokens (wire m)) ms)"
    using assms(1,2) by (auto simp: list_all2_conv_all_nth list_all_length write_wire)
  from writesD [OF writes_attempt [OF this] assms(3)] show ?thesis .
qed

lemma first_of_pipeline:
  assumes "faithful P holds" and "holds p (concat (map (\<lambda>m. tokens (wire m)) (m # ms)))"
  shows "\<exists>p'. decode P fresh p = Some (None, received m, p') \<and> holds p' (concat (map (\<lambda>m. tokens (wire m)) ms))"
proof -
  have "holds p (tokens (wire m) @ concat (map (\<lambda>m. tokens (wire m)) ms))" using assms(2) by simp
  from takesD [OF read_wire [OF assms(1)] this] show ?thesis .
qed

end

interpretation SyncCommand: message SyncCommand_Write SyncCommand_Read NewSyncCommand SyncCommand_value SyncCommand_small "\<lambda>m. m"
proof (unfold_locales, goal_cases)
  case (2 P holds m)
  then show ?case
    unfolding SyncCommand_value_def by (rule SyncCommand_Read_takes) (simp add: SyncCommand_assign_def NewSyncCommand_def)
qed (simp_all add: SyncCommand_Write_writes SyncCommand_Read_returns)

interpretation SyncRateConfigArgs: message SyncRateConfigArgs_Write SyncRateConfigArgs_Read NewSyncRateConfigArgs SyncRateConfigArgs_value SyncRateConfigArgs_small "\<lambda>m. m"
proof (unfold_locales, goal_cases)
  case (2 P holds m)
  then show ?case
    unfolding SyncRateConfigArgs_value_def by (rule SyncRateConfigArgs_Read_takes) (simp add: SyncRateConfigArgs_assign_def NewSyncRateConfigArgs_def)
qed (simp_all add: SyncRateConfigArgs_Write_writes SyncRateConfigArgs_Read_returns)

interpretation IncrActionArgs: message IncrActionArgs_Write IncrActionArgs_Read NewIncrActionArgs IncrActionArgs_value IncrActionArgs_small "\<lambda>m. m"
proof (unfold_locales, goal_cases)
  case (2 P holds m)
  then show ?case
    unfolding IncrActionArgs_value_def by (rule IncrActionArgs_Read_takes) (simp add: IncrActionArgs_assign_def NewIncrActionArgs_def)
qed (simp_all add: IncrActionArgs_Write_writes IncrActionArgs_Read_returns)

interpretation RateLimitGlobalActionArgs: message RateLimitGlobalActionArgs_Write RateLimitGlobalActionArgs_Read NewRateLimitGlobalActionArgs RateLimitGlobalActionArgs_value RateLimitGlobalActionArgs_small "\<lambda>m. m"
proof (unfold_locales, goal_cases)
  case (2 P holds m)
  then show ?case
    unfolding RateLimitGlobalActionArgs_value_def by (rule RateLimitGlobalActionArgs_Read_takes) (simp add: RateLimitGlobalActionArgs_assign_def NewRateLimitGlobalActionArgs_def)
qed (simp_all add: RateLimitGlobalActionArgs_Write_writes RateLimitGlobalActionArgs_Read_returns)

interpretation SyncKeysArgs: message SyncKeysArgs_Write SyncKeysArgs_Read NewSyncKeysArgs SyncKeysArgs_value
    SyncKeysArgs_small as_received
proof (unfold_locales, goal_cases)
  case (2 P holds m)
  then show ?case
    unfolding SyncKeysArgs_value_def by (rule SyncKeysArgs_Read_takes) (rule SyncKeysArgs_assign_value)
qed (simp_all add: SyncKeysArgs_Write_writes SyncKeysArgs_Read_returns)

interpretation IncrActionResult: message IncrActionResult_Write IncrActionResult_Read NewIncrActionResult IncrActionResult_value "\<lambda>_. True" "\<lambda>m. m"
proof (unfold_locales, goal_cases)
  case (2 P holds m)
  then show ?case
    unfolding IncrActionResult_value_def
    by (rule IncrActionResult_Read_takes) (simp add: IncrActionResult_assign_def NewIncrActionResult_def split: option.splits)
qed (simp_all add: IncrActionResult_Write_writes IncrActionResult_Read_returns)

interpretation RateLimitGlobalActionResult: message RateLimitGlobalActionResult_Write RateLimitGlobalActionResult_Read NewRateLimitGlobalActionResult RateLimitGlobalActionResult_value "\<lambda>_. True" "\<lambda>m. m"
proof (unfold_locales, goal_cases)
  case (2 P holds m)
  then show ?case
    unfolding RateLimitGlobalActionResult_value_def
    by (rule RateLimitGlobalActionResult_Read_takes) (simp add: RateLimitGlobalActionResult_assign_def NewRateLimitGlobalActionResult_def split: option.splits)
qed (simp_all add: RateLimitGlobalActionResult_Write_writes RateLimitGlobalActionResult_Read_returns)

interpretation SyncKeysResult: message SyncKeysResult_Write SyncKeysResult_Read NewSyncKeysResult "\<lambda>_. VStruct []" "\<lambda>_. True" "\<lambda>m. m"
proof (unfold_locales, goal_cases)
  case (2 P holds m)
  then show ?case by (cases m) (simp only: SyncKeysResult_Read_takes)
qed (simp_all del: tokens.simps add: SyncKeysResult_Write_writes SyncKeysResult_Read_returns)

interpretation SyncRateConfigResult: message SyncRateConfigResult_Write SyncRateConfigResult_Read NewSyncRateConfigResult "\<lambda>_. VStruct []" "\<lambda>_. True" "\<lambda>m. m"
proof (unfold_locales, goal_cases)
  case (2 P holds m)
  then show ?case by (cases m) (simp only: SyncRateConfigResult_Read_takes)
qed (simp_all del: tokens.simps add: SyncRateConfigResult_Write_writes SyncRateConfigResult_Read_returns)


section \<open>Crashes while reading\<close>

text \<open>Reading never crashes, except that a batch whose list header has a negative size does.\<close>

definition no_crash :: "'e failure option \<Rightarrow> bool" where
  "no_crash f = (case f of Some (Crash _) \<Rightarrow> False | _ \<Rightarrow> True)"

definition crash_of_make :: "'e failure option \<Rightarrow> bool" where
  "crash_of_make f = (case f of Some (Crash c) \<Rightarrow> c = MakeSliceLen | _ \<Rightarrow> True)"

lemma admits [simp]: "admits_errors no_crash" "admits_errors crash_of_make"
  by (simp_all add: admits_errors_def no_crash_def crash_of_make_def)

lemma scalar_reads_keep:
  "keeps (\<lambda>_. True) no_crash (SyncCommand_Read P)"
  "keeps (\<lambda>_. True) no_crash (SyncRateConfigArgs_Read P)"
  "keeps (\<lambda>_. True) no_crash (IncrActionArgs_Read P)"
  "keeps (\<lambda>_. True) no_crash (RateLimitGlobalActionArgs_Read P)"
  unfolding SyncCommand_Read_def SyncRateConfigArgs_Read_def IncrActionArgs_Read_def RateLimitGlobalActionArgs_Read_def
  by (rule read_struct_keeps; simp add: SyncCommand_reading SyncRateConfigArgs_reading IncrActionArgs_reading
      RateLimitGlobalActionArgs_reading keeps_field keeps_skip)+

definition commands_present :: "SyncKeysArgs \<Rightarrow> bool" where
  "commands_present m \<longleftrightarrow> list_all (\<lambda>c. c \<noteq> None) (Syncs m)"

lemma read_syncs_keeps: "keeps commands_present crash_of_make (read_syncs P n)"
  unfolding keeps_def
proof (induction n)
  case 0
  then show ?case by (simp add: crash_of_make_def)
next
  case (Suc n)
  show ?case
  proof (intro allI impI)
    fix s p f s' p'
    assume s: "commands_present s" and run: "read_syncs P (Suc n) s p = Some (f, s', p')"
    then obtain g c p1 where w: "SyncCommand_Read P NewSyncCommand p = Some (g, c, p1)"
      by (auto simp: bind_eq_Some_conv)
    have g: "no_crash g" using keepsD [OF scalar_reads_keep(1) _ w] by simp
    show "commands_present s' \<and> crash_of_make f"
    proof (cases g)
      case None
      have "commands_present (s\<lparr>Syncs := Syncs s @ [Some c]\<rparr>)" using s by (simp add: commands_present_def)
      then show ?thesis using run Suc.IH by (simp add: w None) blast
    next
      case (Some e)
      then show ?thesis using run s g by (auto simp: w no_crash_def crash_of_make_def split: failure.splits)
    qed
  qed
qed

lemma SyncKeysArgs_ReadField1_keeps: "keeps commands_present crash_of_make (SyncKeysArgs_ReadField1 P)"
  unfolding keeps_def
proof (intro allI impI)
  fix s p f s' p'
  assume s: "commands_present s" and run: "SyncKeysArgs_ReadField1 P s p = Some (f, s', p')"
  obtain r p1 where b: "ReadListBegin P p = (r, p1)" by (cases "ReadListBegin P p")
  show "commands_present s' \<and> crash_of_make f"
  proof (cases "\<exists>t n. r = Inr (t, n) \<and> \<not> n < 0")
    case False
    then show ?thesis
      using run s by (auto simp: SyncKeysArgs_ReadField1_def b crash_of_make_def split: sum.splits if_splits)
  next
    case True
    then obtain t n where r: "r = Inr (t, n)" "\<not> n < 0" by blast
    with run obtain g s2 p2 where w: "read_syncs P (nat n) (s\<lparr>Syncs := []\<rparr>) p1 = Some (g, s2, p2)"
      by (auto simp: SyncKeysArgs_ReadField1_def b bind_eq_Some_conv)
    have "commands_present (s\<lparr>Syncs := []\<rparr>)" by (simp add: commands_present_def)
    from keepsD [OF read_syncs_keeps this w] have "commands_present s2" "crash_of_make g" by simp_all
    then show ?thesis
      using run r by (auto simp: SyncKeysArgs_ReadField1_def b w crash_of_make_def split: option.splits prod.splits)
  qed
qed

lemma SyncKeysArgs_Read_keeps: "keeps commands_present crash_of_make (SyncKeysArgs_Read P)"
  unfolding SyncKeysArgs_Read_def
  by (rule read_struct_keeps) (simp_all add: SyncKeysArgs_switch_def SyncKeysArgs_ReadField1_keeps keeps_skip)

section \<open>Properties\<close>

text \<open>
  a batch of commands survives the wire. Over any protocol that keeps its contract, writing
  the argument struct of \<open>SyncKeys\<close> succeeds and reading it back yields the same commands, in the
  same order, with every count and expiry intact, and leaves nothing unread.
\<close>

theorem batch_roundtrip:
  assumes "faithful P holds" and "holds p []"
    and "fits (length syncs)" and "list_all SyncCommand_small syncs"
  shows "case SyncKeysArgs_Write P (Some \<lparr>Syncs = map Some syncs\<rparr>) p of
      (Some _, _) \<Rightarrow> False
    | (None, p1) \<Rightarrow>
        (case SyncKeysArgs_Read P NewSyncKeysArgs p1 of
           Some (None, m, p2) \<Rightarrow> m = \<lparr>Syncs = map Some syncs\<rparr> \<and> holds p2 []
         | _ \<Rightarrow> False)"
proof -
  have "SyncKeysArgs_small \<lparr>Syncs = map Some syncs\<rparr>"
    using assms(3,4) by (simp add: SyncKeysArgs_small_def list_all_length)
  moreover have "as_received \<lparr>Syncs = map Some syncs\<rparr> = \<lparr>Syncs = map Some syncs\<rparr>"
    by (simp add: as_received_def)
  ultimately show ?thesis
    using SyncKeysArgs.transmitted [OF assms(1) _ assms(2), of "\<lparr>Syncs = map Some syncs\<rparr>"] by auto
qed

theorem batch_roundtrip_witness:
  "let syncs = [\<lparr>sc_Key = ''a'', sc_Count = 2, sc_Expiry = 9, sc_Force = False\<rparr>,
      \<lparr>sc_Key = [], sc_Count = - 1, sc_Expiry = 3, sc_Force = True\<rparr>]
   in case SyncKeysArgs_Write token_protocol (Some \<lparr>Syncs = map Some syncs\<rparr>) [] of
      (Some _, _) \<Rightarrow> False
    | (None, p1) \<Rightarrow>
        (case SyncKeysArgs_Read token_protocol NewSyncKeysArgs p1 of
           Some (None, m, p2) \<Rightarrow> m = \<lparr>Syncs = map Some syncs\<rparr> \<and> p2 = []
         | _ \<Rightarrow> False)"
  unfolding Let_def
  by (rule batch_roundtrip [of token_protocol "(=)" "[]", OF token_protocol_faithful])
    (simp_all add: fits_def SyncCommand_small_def)

text \<open>
  The value of the last field with an id, by type.
\<close>

fun string_of :: "tvalue option \<Rightarrow> string" where
  "string_of (Some (VString s)) = s" | "string_of _ = []"

fun i32_of :: "tvalue option \<Rightarrow> i32" where
  "i32_of (Some (VI32 n)) = n" | "i32_of _ = 0"

fun i64_of :: "tvalue option \<Rightarrow> i64" where
  "i64_of (Some (VI64 n)) = n" | "i64_of _ = 0"

fun bool_of :: "tvalue option \<Rightarrow> bool" where
  "bool_of (Some (VBool b)) = b" | "bool_of _ = False"

definition last_field :: "(i16 \<times> tvalue) list \<Rightarrow> i16 \<Rightarrow> tvalue option" where
  "last_field fs i = map_of (rev fs) i"

definition SyncCommand_typed :: "i16 \<times> tvalue \<Rightarrow> bool" where
  "SyncCommand_typed = (\<lambda>(i, v).
     (i = 1 \<longrightarrow> type_of v = STRING) \<and> (i = 2 \<longrightarrow> type_of v = I32) \<and>
     (i = 3 \<longrightarrow> type_of v = I64) \<and> (i = 4 \<longrightarrow> type_of v = BOOL))"

lemma assign_all_snoc:
  "assign_all a (fs @ [(i, v)]) s = Option.bind (assign_all a fs s) (a i v)"
proof (induction fs arbitrary: s)
  case Nil
  show ?case by (cases "a i v s") simp_all
next
  case (Cons f fs)
  then show ?case by (cases f; cases "a (fst f) (snd f) s") simp_all
qed

lemma SyncCommand_assign_all:
  "list_all SyncCommand_typed fs \<Longrightarrow> assign_all SyncCommand_assign fs NewSyncCommand = Some
     \<lparr>sc_Key = string_of (last_field fs 1), sc_Count = i32_of (last_field fs 2),
      sc_Expiry = i64_of (last_field fs 3), sc_Force = bool_of (last_field fs 4)\<rparr>"
proof (induction fs rule: rev_induct)
  case Nil
  then show ?case by (simp add: last_field_def NewSyncCommand_def)
next
  case (snoc f fs)
  obtain i v where f: "f = (i, v)" by (cases f)
  show ?case
    using snoc by (cases v) (auto simp: f assign_all_snoc last_field_def SyncCommand_typed_def SyncCommand_assign_def)
qed

text \<open>
  C21: a command is read from whatever fields come, in any order and repeated or missing: fields
  this version does not know are skipped, a missing field leaves the zero value, and of a
  repeated field the last value counts. The only condition is that the four known fields have
  their types, which the code does not check itself.
\<close>

theorem command_read_from_any_fields:
  assumes "faithful P holds" and "list_all SyncCommand_typed fs"
    and "holds p (tokens (VStruct fs) @ us)"
  shows "case SyncCommand_Read P NewSyncCommand p of
      Some (None, c, p') \<Rightarrow> holds p' us \<and>
        c = \<lparr>sc_Key = string_of (last_field fs 1), sc_Count = i32_of (last_field fs 2),
             sc_Expiry = i64_of (last_field fs 3), sc_Force = bool_of (last_field fs 4)\<rparr>
    | _ \<Rightarrow> False"
  using takesD [OF SyncCommand_Read_takes [OF assms(1) SyncCommand_assign_all [OF assms(2)]] assms(3)] by auto

theorem command_read_from_any_fields_witness:
  "case SyncCommand_Read token_protocol NewSyncCommand
     (tokens (VStruct [(2, VI32 5), (7, VStruct [(1, VString ''x'')]), (1, VString ''k''), (2, VI32 6)])) of
      Some (None, c, p') \<Rightarrow> p' = [] \<and> c = \<lparr>sc_Key = ''k'', sc_Count = 6, sc_Expiry = 0, sc_Force = False\<rparr>
    | _ \<Rightarrow> False"
proof -
  let ?fs = "[(2, VI32 5), (7, VStruct [(1, VString ''x'')]), (1, VString ''k''), (2, VI32 6)] :: (i16 \<times> tvalue) list"
  have val: "string_of (last_field ?fs 1) = ''k''" "i32_of (last_field ?fs 2) = 6"
    "i64_of (last_field ?fs 3) = 0" "bool_of (last_field ?fs 4) = False"
    by (simp_all add: last_field_def)
  have ty: "list_all SyncCommand_typed ?fs" by (simp add: SyncCommand_typed_def)
  have tk: "tokens (VStruct ?fs) = tokens (VStruct ?fs) @ []" by (simp only: append_Nil2)
  have "case SyncCommand_Read token_protocol NewSyncCommand (tokens (VStruct ?fs)) of
      Some (None, c, p') \<Rightarrow> p' = [] \<and>
        c = \<lparr>sc_Key = string_of (last_field ?fs 1), sc_Count = i32_of (last_field ?fs 2),
             sc_Expiry = i64_of (last_field ?fs 3), sc_Force = bool_of (last_field ?fs 4)\<rparr>
    | _ \<Rightarrow> False"
    by (rule command_read_from_any_fields
        [of token_protocol "(=)" ?fs "tokens (VStruct ?fs)" "[]", OF token_protocol_faithful ty tk])
  then show ?thesis unfolding val .
qed

text \<open>
  C20: reading a request returns, whatever the peer sent. If the protocol makes progress with
  every field header it accepts, then reading the arguments of each remote method ends, with the
  struct or with an error, and never claims more input than there was.
\<close>

theorem reading_returns:
  assumes "consuming P rest"
  shows "(case SyncKeysArgs_Read P a p of None \<Rightarrow> False | Some (_, _, p') \<Rightarrow> rest p' \<le> rest p) \<and>
    (case SyncRateConfigArgs_Read P b p of None \<Rightarrow> False | Some (_, _, p') \<Rightarrow> rest p' \<le> rest p) \<and>
    (case IncrActionArgs_Read P c p of None \<Rightarrow> False | Some (_, _, p') \<Rightarrow> rest p' \<le> rest p) \<and>
    (case RateLimitGlobalActionArgs_Read P d p of None \<Rightarrow> False | Some (_, _, p') \<Rightarrow> rest p' \<le> rest p)"
  using SyncKeysArgs.read_returns [OF assms] SyncRateConfigArgs.read_returns [OF assms]
    IncrActionArgs.read_returns [OF assms] RateLimitGlobalActionArgs.read_returns [OF assms]
  by (simp only: returns_def)

theorem reading_returns_witness:
  "let sent = [StructBegin, FieldBegin LIST 1, ListBegin STRUCT 9]
   in case SyncKeysArgs_Read token_protocol NewSyncKeysArgs sent of
      None \<Rightarrow> False | Some (_, _, p') \<Rightarrow> length p' \<le> length sent"
  unfolding Let_def by (rule conjunct1 [OF reading_returns [OF token_protocol_consuming]])

end
