(* ===== verification/Cluster.thy ===== *)
theory Cluster
  imports Store Codec
begin

text \<open>
  store/cluster.go: what a store sends to the other nodes, what it does with what they send, and
  how it joins the ring. Ringpop and TChannel are not the repository's: what \<open>GetReachableMembers\<close>
  answers, whether a forwarded request goes through, and the outcomes of the calls made at
  start-up are parameters.
\<close>

section \<open>Sending\<close>

text \<open>
  The goroutines started by \<open>sendSyncCommandToNodes\<close> and \<open>sendSyncRateConfigToNodes\<close>: one per
  reachable node other than this one, with the same argument. \<open>reachable\<close> is the answer of
  \<open>GetReachableMembers\<close>, \<^const>\<open>None\<close> an error, which the callers ignore.
\<close>

definition sendSyncCommandToNodes ::
  "string list option \<Rightarrow> SyncCommand list \<Rightarrow> ('tc, 'rp, 'sd) store \<Rightarrow>
   (string \<times> SyncCommand list) list option" where
  "sendSyncCommandToNodes reachable syncs cs =
     (case reachable of
        None \<Rightarrow> None
      | Some nodes \<Rightarrow>
          Some (map (\<lambda>node. (node, syncs)) (filter (\<lambda>node. node \<noteq> store_nodeId cs) nodes)))"

definition sendSyncRateConfigToNodes ::
  "string list option \<Rightarrow> string \<Rightarrow> RateConfig \<Rightarrow> ('tc, 'rp, 'sd) store \<Rightarrow>
   (string \<times> string \<times> RateConfig) list option" where
  "sendSyncRateConfigToNodes reachable key rc cs =
     (case reachable of
        None \<Rightarrow> None
      | Some nodes \<Rightarrow>
          Some (map (\<lambda>node. (node, key, rc)) (filter (\<lambda>node. node \<noteq> store_nodeId cs) nodes)))"

text \<open>
  The request of \<open>SendSyncRateConfigToNode\<close>, with the argument struct of the remote method (theory
  \<open>Codec\<close>). A forwarded request comes back with an error, with a reply that cannot be decoded, or well; a
  failed forward is logged and reported as success.
\<close>

datatype outcome = SerializeError | ForwardError | BadReply | Answered

definition send_result :: "outcome \<Rightarrow> outcome option" where
  "send_result r = (case r of
      SerializeError \<Rightarrow> Some SerializeError
    | ForwardError \<Rightarrow> None
    | BadReply \<Rightarrow> Some BadReply
    | Answered \<Rightarrow> None)"

definition SendSyncToNode ::
  "outcome \<Rightarrow> string \<Rightarrow> SyncCommand list \<Rightarrow> (string \<times> SyncCommand list) option \<times> outcome option" where
  "SendSyncToNode r node syncs =
     (case r of SerializeError \<Rightarrow> None | _ \<Rightarrow> Some (node, syncs), send_result r)"

definition SendSyncRateConfigToNode ::
  "outcome \<Rightarrow> string \<Rightarrow> string \<Rightarrow> RateConfig \<Rightarrow> (string \<times> SyncRateConfigArgs) option \<times> outcome option" where
  "SendSyncRateConfigToNode r node key rc =
     (let syncArgs = \<lparr>arg_Key = key, arg_Threshold = Limit rc, arg_Window = Window rc,
            arg_Peakaveraged = PeakAveraged rc\<rparr>
      in (case r of SerializeError \<Rightarrow> None | _ \<Rightarrow> Some (node, syncArgs), send_result r))"

section \<open>Receiving\<close>

text \<open>The remote methods: counts of other nodes, a rate configuration, and the two limiters.\<close>

fun SyncKeys ::
  "env \<Rightarrow> SyncCommand list \<Rightarrow> ('tc, 'rp, 'sd) store \<Rightarrow> clock \<Rightarrow>
   panic + ('tc, 'rp, 'sd) store \<times> clock" where
  "SyncKeys E [] s c = Inr (s, c)"
| "SyncKeys E (sync # syncs) s c =
     (case getKeyBucket E (sc_Key sync) s of
        Inl p \<Rightarrow> Inl p
      | Inr _ \<Rightarrow>
          (let (s, c) = bucket_Sync_at E (sc_Key sync) (sc_Count sync) (sc_Expiry sync) s c
           in SyncKeys E syncs s c))"

definition SyncRateConfig ::
  "string \<Rightarrow> i32 \<Rightarrow> i32 \<Rightarrow> bool \<Rightarrow> ('tc, 'rp, 'sd) store \<Rightarrow> files \<Rightarrow>
   panic + ('tc, 'rp, 'sd) store \<times> files" where
  "SyncRateConfig key threshold window peakaveraged cs fs =
     (case put_config key \<lparr>Window = window, Limit = threshold, PeakAveraged = peakaveraged\<rparr> cs of
        Inl p \<Rightarrow> Inl p
      | Inr cs \<Rightarrow> Inr (cs, SaveRateConfig cs fs))"

definition IncrAction ::
  "env \<Rightarrow> string \<Rightarrow> i32 \<Rightarrow> i32 \<Rightarrow> i32 \<Rightarrow> bool \<Rightarrow>
   ('tc, 'rp, 'sd) store \<Rightarrow> clock \<Rightarrow> 'h event_manager option \<Rightarrow>
   panic + reply \<times> ('tc, 'rp, 'sd) store \<times> clock \<times> 'h event_manager option" where
  "IncrAction = Store_Incr"

definition RateLimitGlobalAction ::
  "env \<Rightarrow> string \<Rightarrow> i32 \<Rightarrow> ('tc, 'rp, 'sd) store \<Rightarrow> clock \<Rightarrow> 'h event_manager option \<Rightarrow>
   panic + reply \<times> ('tc, 'rp, 'sd) store \<times> clock \<times> 'h event_manager option" where
  "RateLimitGlobalAction = RateLimitGlobal"

text \<open>
  The ring's events: when nodes were added, a goroutine sleeps up to 20 seconds and then sends
  them every rate configuration, node by node, in the order \<open>ks\<close> in which Go ranges over the map. A nil
  pointer in the map is dereferenced by \<open>SendSyncRateConfigToNode\<close>.
\<close>

datatype ring_event = RingChangedEvent "string list" "string list" "string list" | OtherRingEvent

definition configs_to_send ::
  "key list \<Rightarrow> string list \<Rightarrow> ('tc, 'rp, 'sd) store \<Rightarrow> (string \<times> string \<times> RateConfig option) list" where
  "configs_to_send ks added cs =
     concat (map (\<lambda>node.
       if node \<noteq> store_nodeId cs then
         concat (map (\<lambda>key. case Option.bind (rateConfig cs) (\<lambda>m. m key) of
           None \<Rightarrow> [] | Some p \<Rightarrow> [(node, key, p)]) ks)
       else []) added)"

definition HandleEvent ::
  "key list \<Rightarrow> ring_event \<Rightarrow> ('tc, 'rp, 'sd) store \<Rightarrow> panic + (string \<times> string \<times> RateConfig) list" where
  "HandleEvent ks ev cs =
     (case ev of
        RingChangedEvent added removed updated \<Rightarrow>
          if 0 < length added then
            if list_all (\<lambda>(_, _, p). p \<noteq> None) (configs_to_send ks added cs)
            then Inr (map (\<lambda>(node, key, p). (node, key, the p)) (configs_to_send ks added cs))
            else Inl NilDereference
          else Inr []
      | OtherRingEvent \<Rightarrow> Inr [])"

text \<open>The report of the cluster; a call that fails leaves its zero value (nil for the members).\<close>

record ClusterInfo =
  Whoami :: string
  Ready :: bool
  Uptime :: i64
  Members :: "string list option"

definition GetClusterInfo :: "string list option \<Rightarrow> bool \<Rightarrow> i64 option \<Rightarrow> string option \<Rightarrow> ClusterInfo" where
  "GetClusterInfo reachable ready uptime whoami =
     \<lparr>Whoami = (case whoami of None \<Rightarrow> [] | Some w \<Rightarrow> w), Ready = ready,
      Uptime = (case uptime of None \<Rightarrow> 0 | Some u \<Rightarrow> u),
      Members = reachable\<rparr>"

section \<open>Joining the ring\<close>

text \<open>
  The calls \<open>initRingPop\<close> makes: \<open>NewChannel\<close> and \<open>ringpop.New\<close> may fail, listening and
  bootstrapping may fail, a given channel has a service name and a given ring an identity.
\<close>

record ('tc, 'rp) ring_calls =
  NewChannel :: "string \<Rightarrow> 'tc option"
  ServiceName :: "'tc \<Rightarrow> string"
  ringpop_New :: "string \<Rightarrow> 'tc \<Rightarrow> string \<Rightarrow> string \<Rightarrow> 'rp option"
  ListenAndServe :: "'tc \<Rightarrow> string \<Rightarrow> bool"
  Bootstrap :: "'rp \<Rightarrow> nat \<Rightarrow> string list \<Rightarrow> bool"
  WhoAmI :: "'rp \<Rightarrow> string"

text \<open>The TChannel: a new one under the cluster name, or the given one if it has that name.\<close>

definition init_tchannel ::
  "('tc, 'rp) ring_calls \<Rightarrow> ('tc, 'rp, 'sd) store \<Rightarrow> panic + ('tc, 'rp, 'sd) store" where
  "init_tchannel R s =
     (case tchannel (opts s) of
        None \<Rightarrow>
          (case NewChannel R (clusterName (opts s)) of
             None \<Rightarrow> Inl (Panic ''Cluster: channel did not create successfully'')
           | Some tc \<Rightarrow> Inr (s\<lparr>store_tchannel := Some tc\<rparr>))
      | Some tc \<Rightarrow>
          if ServiceName R tc \<noteq> clusterName (opts s)
          then Inl (Panic ''Invalid Config: Cluster name should match with provided TChannel Service Name'')
          else Inr (s\<lparr>store_tchannel := Some tc\<rparr>))"

text \<open>The ring: a new one, bootstrapped from the seeds, or the given one if it has this node's name.\<close>

definition init_ring ::
  "('tc, 'rp) ring_calls \<Rightarrow> string \<Rightarrow> 'tc \<Rightarrow> ('tc, 'rp, 'sd) store \<Rightarrow> panic + ('tc, 'rp, 'sd) store" where
  "init_ring R hostname tc s =
     (case ringpop (opts s) of
        None \<Rightarrow>
          (case ringpop_New R (clusterName (opts s)) tc (store_nodeId s)
                  (hostname @ '':'' @ tchannelport (opts s)) of
             None \<Rightarrow> Inl (Fatal ''Cluster: Unable to create Ringpop'')
           | Some rp \<Rightarrow>
               if \<not> ListenAndServe R tc (hostAddr (opts s) @ '':'' @ tchannelport (opts s))
               then Inl (Fatal ''Cluster: could not listen on given hostport'')
               else
                 let seeds = split_comma (seed (opts s));
                     joinSize = (if 1 < length seeds then 2 else 1)
                 in if \<not> Bootstrap R rp joinSize seeds
                    then Inl (Fatal ''Cluster: ringpop bootstrap failed'')
                    else Inr (s\<lparr>store_ringpop := Some rp\<rparr>))
      | Some rp \<Rightarrow>
          if WhoAmI R rp \<noteq> store_nodeId s
          then Inl (Panic (''Invalid Config: provided Ringpop Nodeid should match with '' @ WhoAmI R rp))
          else Inr (s\<lparr>store_ringpop := Some rp\<rparr>))"

definition initRingPop ::
  "('tc, 'rp) ring_calls \<Rightarrow> string \<Rightarrow> ('tc, 'rp, 'sd) store \<Rightarrow> panic + ('tc, 'rp, 'sd) store" where
  "initRingPop R hostname s =
     (let s = (if store_nodeId s = []
               then s\<lparr>store_nodeId := hostname @ '':'' @ tchannelport (opts s)\<rparr> else s)
      in case init_tchannel R s of
           Inl p \<Rightarrow> Inl p
         | Inr s \<Rightarrow>
             (case store_tchannel s of
                None \<Rightarrow> Inl NilDereference
              | Some tc \<Rightarrow> init_ring R hostname tc s))"

section \<open>Properties\<close>

text \<open>What a node does with a rate configuration another node sent it.\<close>

definition receive_RateConfig ::
  "SyncRateConfigArgs \<Rightarrow> ('tc, 'rp, 'sd) store \<Rightarrow> files \<Rightarrow> panic + ('tc, 'rp, 'sd) store \<times> files" where
  "receive_RateConfig a = SyncRateConfig (arg_Key a) (arg_Threshold a) (arg_Window a) (arg_Peakaveraged a)"

text \<open>A configuration on its way from one node to another: sent, forwarded and received.\<close>

definition transmit ::
  "string \<Rightarrow> string \<Rightarrow> RateConfig \<Rightarrow> ('tc, 'rp, 'sd) store \<times> files \<Rightarrow> panic + ('tc, 'rp, 'sd) store \<times> files" where
  "transmit node key rc sf =
     (case fst (SendSyncRateConfigToNode Answered node key rc) of
        None \<Rightarrow> Inr sf
      | Some (_, a) \<Rightarrow> receive_RateConfig a (fst sf) (snd sf))"

lemma receive_sent:
  assumes "rateConfig s = Some m"
  shows "transmit node key rc (s, fs) =
    (let s' = s\<lparr>rateConfig := Some (m(key \<mapsto> Some rc))\<rparr> in Inr (s', SaveRateConfig s' fs))"
  using assms
  by (cases rc) (simp add: transmit_def SendSyncRateConfigToNode_def Let_def receive_RateConfig_def SyncRateConfig_def put_config_def)

text \<open>The configurations that \<open>HandleEvent\<close> sends to one node, received in any order.\<close>

fun receive_all ::
  "string \<Rightarrow> (string \<times> string \<times> RateConfig) list \<Rightarrow> ('tc, 'rp, 'sd) store \<times> files \<Rightarrow>
   panic + ('tc, 'rp, 'sd) store \<times> files" where
  "receive_all node [] sf = Inr sf"
| "receive_all node ((to, key, rc) # msgs) sf =
     (if to = node then
        (case transmit to key rc sf of
           Inl p \<Rightarrow> Inl p
         | Inr sf \<Rightarrow> receive_all node msgs sf)
      else receive_all node msgs sf)"

lemma receive_all_rateConfig:
  assumes "\<forall>(to, key, rc) \<in> set msgs. m key = Some (Some rc)" and "rateConfig s = Some m0"
  shows "\<exists>s' fs'. receive_all node msgs (s, fs) = Inr (s', fs') \<and>
    rateConfig s' = Some (\<lambda>key. if \<exists>rc. (node, key, rc) \<in> set msgs then m key else m0 key)"
  using assms
proof (induction msgs arbitrary: s fs m0)
  case (Cons x msgs)
  obtain to k rc where x: "x = (to, k, rc)" by (metis prod_cases3)
  have m: "m k = Some (Some rc)" using Cons.prems(1) x by simp
  show ?case
  proof (cases "to = node")
    case False
    with Cons show ?thesis by (auto simp: x)
  next
    case True
    let ?s = "s\<lparr>rateConfig := Some (m0(k \<mapsto> Some rc))\<rparr>"
    have "\<exists>s' fs'. receive_all node msgs (?s, SaveRateConfig ?s fs) = Inr (s', fs') \<and>
        rateConfig s' = Some (\<lambda>key. if \<exists>rc. (node, key, rc) \<in> set msgs then m key else (m0(k \<mapsto> Some rc)) key)"
      by (rule Cons.IH [of ?s "m0(k \<mapsto> Some rc)"]) (use Cons.prems(1) in \<open>simp_all add: fun_eq_iff\<close>)
    then obtain s' fs' where "receive_all node msgs (?s, SaveRateConfig ?s fs) = Inr (s', fs')"
      "rateConfig s' = Some (\<lambda>key. if \<exists>rc. (node, key, rc) \<in> set msgs then m key else (m0(k \<mapsto> Some rc)) key)"
      by blast
    moreover have "(\<lambda>key. if \<exists>rc. (node, key, rc) \<in> set msgs then m key else (m0(k \<mapsto> Some rc)) key) =
        (\<lambda>key. if \<exists>rc. (node, key, rc) \<in> set (x # msgs) then m key else m0 key)"
      using True by (auto simp: x m fun_eq_iff)
    ultimately show ?thesis
      by (simp add: x True receive_sent [OF Cons.prems(2)] Let_def)
  qed
qed simp

lemma set_configs_to_send:
  assumes "rateConfig cs = Some m" and "set ks = dom m"
  shows "set (configs_to_send ks added cs) = {(n, k, p). n \<in> set added \<and> n \<noteq> store_nodeId cs \<and> m k = Some p}"
proof -
  have "(n, k, p) \<in> set (configs_to_send ks added cs) \<longleftrightarrow> n \<in> set added \<and> n \<noteq> store_nodeId cs \<and> m k = Some p" for n k p
    using assms by (auto simp: configs_to_send_def split: option.splits if_splits intro!: bexI [of _ n] bexI [of _ k])
  then show ?thesis by (simp only: set_eq_iff split_paired_All mem_Collect_eq case_prod_conv) blast
qed

lemma those_sent: "(n, k, rc) \<in> (\<lambda>(node, key, p). (node, key, the p)) ` S \<longleftrightarrow> (\<exists>p. (n, k, p) \<in> S \<and> rc = the p)"
  by force

text \<open>
  C33: a node that joins learns every rate configuration. If the ring reports it as added and this
  store ranges over all its keys and has no nil among its configurations, then it sends them without
  a panic, and once the requests have been received, in whatever order, the new node has this store's
  configuration for each key this store has one for, and keeps its own for the others.
\<close>

theorem joining_node_learns_rate_configs:
  assumes "rateConfig cs = Some m" and "set ks = dom m" and "None \<notin> ran m"
    and "node \<in> set added" and "node \<noteq> store_nodeId cs"
    and "rateConfig s = Some own" and "\<And>xs. set (ro xs) = set xs"
  shows "case HandleEvent ks (RingChangedEvent added removed updated) cs of
      Inl _ \<Rightarrow> False
    | Inr sent \<Rightarrow>
        (case receive_all node (ro sent) (s, fs) of
           Inl _ \<Rightarrow> False
         | Inr (s', fs') \<Rightarrow> rateConfig s' = Some (own ++ m))"
proof -
  have nn: "m k \<noteq> Some None" for k using assms(3) by (metis ranI)
  let ?to = "configs_to_send ks added cs" and ?f = "\<lambda>(node, key, p). (node, key, the p)"
  have to: "set ?to = {(n, k, p). n \<in> set added \<and> n \<noteq> store_nodeId cs \<and> m k = Some p}"
    by (rule set_configs_to_send [OF assms(1,2)])
  have "p \<noteq> None" if "(n, k, p) \<in> set ?to" for n k p
    using that nn [of k] unfolding to by auto
  then have "list_all (\<lambda>(_, _, p). p \<noteq> None) ?to" unfolding list_all_iff by blast
  then have h: "HandleEvent ks (RingChangedEvent added removed updated) cs = Inr (map ?f ?to)"
    using assms(4) by (cases added) (simp_all add: HandleEvent_def)
  have msgs: "(n, k, rc) \<in> set (ro (map ?f ?to)) \<longleftrightarrow> n \<in> set added \<and> n \<noteq> store_nodeId cs \<and> m k = Some (Some rc)" for n k rc
  proof -
    have "(n, k, rc) \<in> set (ro (map ?f ?to)) \<longleftrightarrow> (\<exists>p. (n, k, p) \<in> set ?to \<and> rc = the p)"
      by (simp add: assms(7) those_sent)
    also have "\<dots> \<longleftrightarrow> n \<in> set added \<and> n \<noteq> store_nodeId cs \<and> m k = Some (Some rc)"
      using nn [of k] unfolding to by auto
    finally show ?thesis .
  qed
  obtain s' fs' where r: "receive_all node (ro (map ?f ?to)) (s, fs) = Inr (s', fs')"
    "rateConfig s' = Some (\<lambda>key. if \<exists>rc. (node, key, rc) \<in> set (ro (map ?f ?to)) then m key else own key)"
    using receive_all_rateConfig [OF _ assms(6), of "ro (map ?f ?to)" m node fs] msgs by fastforce
  have "(\<lambda>key. if \<exists>rc. (node, key, rc) \<in> set (ro (map ?f ?to)) then m key else own key) = own ++ m"
  proof
    fix key
    show "(if \<exists>rc. (node, key, rc) \<in> set (ro (map ?f ?to)) then m key else own key) = (own ++ m) key"
    proof (cases "m key")
      case None
      then show ?thesis by (simp add: msgs map_add_def)
    next
      case (Some p)
      then obtain rc where "m key = Some (Some rc)" using nn [of key] by (cases p) auto
      then show ?thesis using assms(4,5) by (simp add: msgs map_add_def)
    qed
  qed
  with r show ?thesis by (simp add: h)
qed

theorem joining_node_learns_rate_configs_witness:
  "let rc = \<lparr>Window = 60, Limit = 100, PeakAveraged = True\<rparr>;
       s = (alloc_store sample_options :: (unit, unit, unit) store)\<lparr>store_nodeId := ''a''\<rparr>;
       cs = s\<lparr>rateConfig := Some [''k'' \<mapsto> Some rc]\<rparr>
   in case HandleEvent [''k''] (RingChangedEvent [''b''] [] []) cs of
        Inl _ \<Rightarrow> False
      | Inr sent \<Rightarrow>
          (case receive_all ''b'' sent (s, sample_files) of
             Inl _ \<Rightarrow> False | Inr (s', _) \<Rightarrow> GetRateConfig ''k'' s' = Some rc)"
proof -
  let ?rc = "\<lparr>Window = 60, Limit = 100, PeakAveraged = True\<rparr>"
  let ?s = "(alloc_store sample_options :: (unit, unit, unit) store)\<lparr>store_nodeId := ''a''\<rparr>"
  let ?cs = "?s\<lparr>rateConfig := Some [''k'' \<mapsto> Some ?rc]\<rparr>"
  show ?thesis
    using joining_node_learns_rate_configs [where cs = ?cs and m = "[''k'' \<mapsto> Some ?rc]" and ks = "[''k'']" and node = "''b''"
        and added = "[''b'']" and s = ?s and own = Map.empty and ro = "\<lambda>xs. xs" and removed = "[]" and updated = "[]" and fs = sample_files]
    by (auto simp: Let_def GetRateConfig_def split: sum.splits prod.splits if_splits)
qed

text \<open>
  A store that has been given a nil configuration cannot tell a new node anything: the goroutine
  panics, which ends the process.
\<close>

lemma nil_config_ends_process:
  assumes "rateConfig cs = Some m" and "set ks = dom m" and "m k = Some None" and "node \<in> set added" and "node \<noteq> store_nodeId cs"
  shows "HandleEvent ks (RingChangedEvent added removed updated) cs = Inl NilDereference"
proof -
  have "(node, k, None) \<in> set (configs_to_send ks added cs)"
    using assms(3-5) by (simp add: set_configs_to_send [OF assms(1,2)])
  then have "\<not> list_all (\<lambda>(_, _, p). p \<noteq> None) (configs_to_send ks added cs)"
    unfolding list_all_iff using bspec by fastforce
  then show ?thesis using assms(4) by (cases added) (simp_all add: HandleEvent_def)
qed



lemma SyncKeys_Cons:
  assumes "store_ok s"
  shows "SyncKeys E (sync # syncs) s c =
    SyncKeys E syncs (fst (bucket_Sync_at E (sc_Key sync) (sc_Count sync) (sc_Expiry sync) s c))
      (snd (bucket_Sync_at E (sc_Key sync) (sc_Count sync) (sc_Expiry sync) s c))"
  by (simp add: getKeyBucket_ok [OF assms] split_beta)

lemma SyncKeys_ok:
  "store_ok s \<Longrightarrow> \<exists>s' c'. SyncKeys E syncs s c = Inr (s', c') \<and> store_ok s'"
proof (induction syncs arbitrary: s c)
  case (Cons sync syncs)
  then show ?case
    using Cons.IH [of "fst (bucket_Sync_at E (sc_Key sync) (sc_Count sync) (sc_Expiry sync) s c)"]
    by (simp add: SyncKeys_Cons bucket_at_ok del: SyncKeys.simps)
qed simp

lemma frozen_bucket_Sync: "frozen_at t c \<Longrightarrow> snd (bucket_Sync_at E k n y s c) = c"
  by (cases "lookup (keyBucket s ! bucket_index E k s) k")
    (auto simp: bucket_Sync_at_def KeyBucket_Sync_def GetEntry_def entry_eqs Now_eq Let_def
      split: if_splits)

text \<open>The command of a key in a batch.\<close>

definition command_for :: "SyncCommand list \<Rightarrow> key \<Rightarrow> SyncCommand option" where
  "command_for syncs k = map_of (map (\<lambda>c. (sc_Key c, c)) syncs) k"

lemma SyncKeys_view:
  assumes "store_ok s" and "frozen_at t c" and "distinct (map sc_Key syncs)"
    and "SyncKeys E syncs s c = Inr (s', c')"
  shows "store_view E s' = (\<lambda>k. case command_for syncs k of
      None \<Rightarrow> store_view E s k
    | Some sync \<Rightarrow> spec_Sync t t k (sc_Count sync) (sc_Expiry sync) (store_view E s) k)"
  using assms
proof (induction syncs arbitrary: s)
  case Nil
  then show ?case by (simp add: command_for_def)
next
  case (Cons sync syncs)
  let ?s1 = "fst (bucket_Sync_at E (sc_Key sync) (sc_Count sync) (sc_Expiry sync) s c)"
  have ok: "store_ok ?s1" using Cons.prems(1) by (simp add: bucket_at_ok)
  have run: "SyncKeys E syncs ?s1 c = Inr (s', c')"
    using Cons.prems(4) by (simp only: SyncKeys_Cons [OF Cons.prems(1)] frozen_bucket_Sync [OF Cons.prems(2)])
  have view: "store_view E ?s1 = spec_Sync t t (sc_Key sync) (sc_Count sync) (sc_Expiry sync) (store_view E s)"
    using bucket_Sync_at_refines [OF Cons.prems(1)] Cons.prems(2) by simp
  have fresh: "command_for syncs (sc_Key sync) = None"
    using Cons.prems(3) by (auto simp: command_for_def map_of_eq_None_iff image_image)
  show ?case
  proof
    fix k
    show "store_view E s' k = (case command_for (sync # syncs) k of
        None \<Rightarrow> store_view E s k
      | Some sync \<Rightarrow> spec_Sync t t k (sc_Count sync) (sc_Expiry sync) (store_view E s) k)"
    proof (cases "k = sc_Key sync")
      case True
      then show ?thesis
        using Cons.IH [OF ok Cons.prems(2) _ run] Cons.prems(3) fresh view
        by (simp add: command_for_def)
    next
      case False
      have "command_for (sync # syncs) k = command_for syncs k"
        using False by (simp add: command_for_def)
      moreover have "store_view E ?s1 k = store_view E s k"
        using False by (simp add: view spec_Sync_frame)
      ultimately show ?thesis
        using Cons.IH [OF ok Cons.prems(2) _ run] Cons.prems(3)
          spec_Sync_local [of "store_view E ?s1" k "store_view E s"]
        by (simp split: option.splits)
    qed
  qed
qed

text \<open>
  a batch of another node is applied completely, without a panic, and each of its commands to
  its own key only: for every key the batch names, the window of the key is what adding that
  count to the window of the command gives (nothing, if that window has ended), and all other
  keys are as before. In particular the order in which the sender ranged over its map is
  irrelevant.
\<close>

theorem SyncKeys_applies_each_command:
  assumes "store_ok s" and "frozen_at t c" and "distinct (map sc_Key syncs)"
  shows "case SyncKeys E syncs s c of
     Inl _ \<Rightarrow> False
   | Inr (s', c') \<Rightarrow> c' = c \<and> store_ok s' \<and>
       store_view E s' = (\<lambda>k. case command_for syncs k of
           None \<Rightarrow> store_view E s k
         | Some sync \<Rightarrow> spec_Sync t t k (sc_Count sync) (sc_Expiry sync) (store_view E s) k)"
proof -
  have clock: "SyncKeys E syncs s c = Inr (s', c') \<Longrightarrow> store_ok s \<Longrightarrow> c' = c" for s s' c'
    by (induction syncs arbitrary: s)
      (auto simp: SyncKeys_Cons frozen_bucket_Sync [OF assms(2)] bucket_at_ok simp del: SyncKeys.simps(2))
  obtain s' c' where r: "SyncKeys E syncs s c = Inr (s', c')" "store_ok s'"
    using SyncKeys_ok [OF assms(1), of E syncs c] by blast
  show ?thesis
    using r clock [OF r(1) assms(1)] SyncKeys_view [OF assms r(1)] by simp
qed

theorem SyncKeys_applies_each_command_witness:
  "case SyncKeys sample_env [\<lparr>sc_Key = ''a'', sc_Count = 2, sc_Expiry = 9, sc_Force = False\<rparr>,
      \<lparr>sc_Key = ''b'', sc_Count = 5, sc_Expiry = 3, sc_Force = True\<rparr>]
     (alloc_store (sample_options\<lparr>buckets := 4\<rparr>) :: (unit, unit, unit) store)
     (UnReal \<lparr>current = 5\<rparr>) of
     Inl _ \<Rightarrow> False
   | Inr (s', c') \<Rightarrow> store_view sample_env s' ''a'' = Some (9, 2) \<and> store_view sample_env s' ''b'' = None"
proof -
  let ?s = "alloc_store (sample_options\<lparr>buckets := 4\<rparr>) :: (unit, unit, unit) store"
  have ok: "store_ok ?s" by (rule alloc_store_ok) simp
  show ?thesis
    using SyncKeys_applies_each_command [OF ok frozen_UnReal [of 5], of
        "[\<lparr>sc_Key = ''a'', sc_Count = 2, sc_Expiry = 9, sc_Force = False\<rparr>,
          \<lparr>sc_Key = ''b'', sc_Count = 5, sc_Expiry = 3, sc_Force = True\<rparr>]" sample_env]
    by (simp add: command_for_def spec_Sync_def signed_less split: sum.splits prod.splits del: SyncKeys.simps)
qed

text \<open>
  joining the ring succeeds exactly if the given TChannel has the cluster's name (or a new one
  could be made), and the given ring knows this node under its own name (or a new one could be
  made, listened on and bootstrapped from the seeds, waiting for one other member only if there
  are several seeds). The store then has both and a name, by default the host and the port, and
  is otherwise unchanged.
\<close>

theorem initRingPop_succeeds_iff:
  "initRingPop R hostname s = Inr s' \<longleftrightarrow>
     (\<exists>tc rp name. name = (if store_nodeId s = [] then hostname @ '':'' @ tchannelport (opts s)
          else store_nodeId s) \<and>
        (case tchannel (opts s) of
           None \<Rightarrow> NewChannel R (clusterName (opts s)) = Some tc
         | Some tc' \<Rightarrow> tc' = tc \<and> ServiceName R tc = clusterName (opts s)) \<and>
        (case ringpop (opts s) of
           None \<Rightarrow>
             ringpop_New R (clusterName (opts s)) tc name (hostname @ '':'' @ tchannelport (opts s)) = Some rp \<and>
             ListenAndServe R tc (hostAddr (opts s) @ '':'' @ tchannelport (opts s)) \<and>
             Bootstrap R rp (if CHR '','' \<in> set (seed (opts s)) then 2 else 1)
               (split_comma (seed (opts s)))
         | Some rp' \<Rightarrow> rp' = rp \<and> WhoAmI R rp = name) \<and>
        s' = s\<lparr>store_tchannel := Some tc, store_ringpop := Some rp, store_nodeId := name\<rparr>)"
proof -
  have size: "Suc 0 < length (split_comma (seed (opts s))) \<longleftrightarrow> CHR '','' \<in> set (seed (opts s))"
    using count_list_0_iff [of "seed (opts s)" "CHR '',''"] by (simp add: split_comma_length flip: neq0_conv)
  show ?thesis
    unfolding initRingPop_def init_tchannel_def init_ring_def Let_def
    by (cases "tchannel (opts s)"; cases "ringpop (opts s)"; cases "store_nodeId s = []")
      (auto simp: size split: option.splits sum.splits if_splits)
qed

end
