(* ===== verification/RateConc.thy ===== *)
theory RateConc
  imports Cluster
begin

text \<open>
  The map of rate configurations under concurrent calls. \<open>SetRateConfig\<close> and \<open>SyncRateConfig\<close> assign under the
  lock of the store, and \<open>SaveRateConfig\<close> marshals and writes the file under its read lock; but \<open>GetRateConfig\<close>,
  \<open>GetRateConfigAll\<close>, \<open>RateLimitGlobal\<close> and the goroutine of \<open>HandleEvent\<close> read the map without a lock. Here
  each section between two lock operations is a step, and any number of goroutines take steps.
\<close>

section \<open>Goroutines\<close>

text \<open>
  Where a goroutine is: about to lock, between \<open>Lock\<close> and \<open>Unlock\<close>, about to save, between \<open>RLock\<close> and \<open>RUnlock\<close> without
  and with the marshalled text, in a read of the map. One that panicked in the assignment to a nil map
  has not unlocked: both functions unlock without \<open>defer\<close>.
\<close>

datatype config_go =
    Idle
  | WantsLock string RateConfig
  | Assigning string RateConfig
  | Assigned
  | Marshalling
  | Writing string
  | ReadingMap
  | Panicked

record ('tc, 'rp, 'sd) config_state =
  cs_store :: "('tc, 'rp, 'sd) store"
  cs_files :: files
  cs_gos :: "nat \<Rightarrow> config_go"

definition holds_lock :: "config_go \<Rightarrow> bool" where
  "holds_lock go = (case go of Assigning _ _ \<Rightarrow> True | Panicked \<Rightarrow> True | _ \<Rightarrow> False)"

definition holds_rlock :: "config_go \<Rightarrow> bool" where
  "holds_rlock go = (case go of Marshalling \<Rightarrow> True | Writing _ \<Rightarrow> True | _ \<Rightarrow> False)"

definition current_text :: "('tc, 'rp, 'sd) store \<Rightarrow> string" where
  "current_text s = Marshal_rates (sorted_keys (rateConfig s)) (rateConfig s)"

inductive config_step :: "('tc, 'rp, 'sd) config_state \<Rightarrow> ('tc, 'rp, 'sd) config_state \<Rightarrow> bool" where
  update: "cs_gos s g = Idle \<Longrightarrow> config_step s (s\<lparr>cs_gos := (cs_gos s)(g := WantsLock key rc)\<rparr>)"
| lock: "cs_gos s g = WantsLock key rc \<Longrightarrow> (\<And>h. \<not> holds_lock (cs_gos s h) \<and> \<not> holds_rlock (cs_gos s h)) \<Longrightarrow>
    config_step s (s\<lparr>cs_gos := (cs_gos s)(g := Assigning key rc)\<rparr>)"
| assign: "cs_gos s g = Assigning key rc \<Longrightarrow> put_config key rc (cs_store s) = Inr s' \<Longrightarrow>
    config_step s (s\<lparr>cs_store := s', cs_gos := (cs_gos s)(g := Assigned)\<rparr>)"
| panic: "cs_gos s g = Assigning key rc \<Longrightarrow> put_config key rc (cs_store s) = Inl p \<Longrightarrow>
    config_step s (s\<lparr>cs_gos := (cs_gos s)(g := Panicked)\<rparr>)"
| rlock: "cs_gos s g = Assigned \<Longrightarrow> (\<And>h. \<not> holds_lock (cs_gos s h)) \<Longrightarrow>
    config_step s (s\<lparr>cs_gos := (cs_gos s)(g := Marshalling)\<rparr>)"
| marshal: "cs_gos s g = Marshalling \<Longrightarrow>
    config_step s (s\<lparr>cs_gos := (cs_gos s)(g := Writing (current_text (cs_store s)))\<rparr>)"
| writes: "cs_gos s g = Writing data \<Longrightarrow>
    config_step s (s\<lparr>cs_files := WriteFile (rate_path (cs_store s)) data (cs_files s), cs_gos := (cs_gos s)(g := Idle)\<rparr>)"
| read: "cs_gos s g = Idle \<Longrightarrow> config_step s (s\<lparr>cs_gos := (cs_gos s)(g := ReadingMap)\<rparr>)"
| has_read: "cs_gos s g = ReadingMap \<Longrightarrow> config_step s (s\<lparr>cs_gos := (cs_gos s)(g := Idle)\<rparr>)"

inductive_cases config_stepE: "config_step s t"

text \<open>One goroutine alone does what the model that runs it in one piece does.\<close>

lemma alone_is_SetRateConfig:
  assumes "cs_gos s = (\<lambda>_. Idle)" and "SetRateConfig key rc (cs_store s) (cs_files s) = Inr (s', fs', sent)"
  shows "config_step\<^sup>*\<^sup>* s (s\<lparr>cs_store := s', cs_files := fs'\<rparr>)"
proof -
  obtain m where m: "rateConfig (cs_store s) = Some m"
    using assms(2) by (auto simp: SetRateConfig_def split: sum.splits)
  let ?at = "\<lambda>go. (\<lambda>_. Idle)(0 := go)"
  let ?s1 = "s\<lparr>cs_gos := ?at (WantsLock key rc)\<rparr>" and ?s2 = "s\<lparr>cs_gos := ?at (Assigning key rc)\<rparr>"
  let ?s3 = "s\<lparr>cs_store := s', cs_gos := ?at Assigned\<rparr>" and ?s4 = "s\<lparr>cs_store := s', cs_gos := ?at Marshalling\<rparr>"
  let ?s5 = "s\<lparr>cs_store := s', cs_gos := ?at (Writing (current_text s'))\<rparr>"
  have s': "put_config key rc (cs_store s) = Inr s'" "fs' = SaveRateConfig s' (cs_files s)"
    using assms(2) by (auto simp: SetRateConfig_eq [OF m] Let_def m)
  have "config_step s ?s1" using update [of s 0 key rc] assms(1) by simp
  moreover have "config_step ?s1 ?s2" using lock [of ?s1 0 key rc] by (simp add: holds_lock_def holds_rlock_def)
  moreover have "config_step ?s2 ?s3" using assign [of ?s2 0 key rc s'] s'(1) by simp
  moreover have "config_step ?s3 ?s4" using rlock [of ?s3 0] by (simp add: holds_lock_def)
  moreover have "config_step ?s4 ?s5" using marshal [of ?s4 0] by simp
  moreover have "s\<lparr>cs_store := s', cs_files := fs'\<rparr> =
      ?s5\<lparr>cs_files := WriteFile (rate_path (cs_store ?s5)) (current_text s') (cs_files ?s5), cs_gos := (cs_gos ?s5)(0 := Idle)\<rparr>"
    using assms(1) by (cases s) (auto simp: s'(2) SaveRateConfig_def current_text_def fun_eq_iff)
  then have "config_step ?s5 (s\<lparr>cs_store := s', cs_files := fs'\<rparr>)"
    using writes [of ?s5 0 "current_text s'"] by simp
  ultimately show ?thesis by (meson converse_rtranclp_into_rtranclp rtranclp.rtrancl_refl)
qed

section \<open>What the locks guarantee\<close>

text \<open>
  The lock excludes the others, a text about to be written is that of the map as it is, and when no
  goroutine is on its way from its assignment to the file, the file is current or nothing was assigned.
\<close>

definition on_its_way :: "config_go \<Rightarrow> bool" where
  "on_its_way go = (case go of Assigned \<Rightarrow> True | Marshalling \<Rightarrow> True | Writing _ \<Rightarrow> True | _ \<Rightarrow> False)"

definition file_current :: "('tc, 'rp, 'sd) config_state \<Rightarrow> bool" where
  "file_current s \<longleftrightarrow> ReadFile (rate_path (cs_store s)) (cs_files s) = Some (current_text (cs_store s))"

definition locks_ok :: "('tc, 'rp, 'sd) config_state \<Rightarrow> ('tc, 'rp, 'sd) config_state \<Rightarrow> bool" where
  "locks_ok s0 s \<longleftrightarrow>
     (\<forall>g h. holds_lock (cs_gos s g) \<longrightarrow> holds_lock (cs_gos s h) \<or> holds_rlock (cs_gos s h) \<longrightarrow> g = h) \<and>
     (\<forall>g data. cs_gos s g = Writing data \<longrightarrow> data = current_text (cs_store s)) \<and>
     rate_path (cs_store s) = rate_path (cs_store s0) \<and>
     written (cs_files s) = written (cs_files s0) \<and> resolve (cs_files s) = resolve (cs_files s0) \<and>
     ((\<exists>g. on_its_way (cs_gos s g)) \<or> file_current s \<or>
      rateConfig (cs_store s) = rateConfig (cs_store s0) \<and> cs_files s = cs_files s0)"

lemmas go_defs = holds_lock_def holds_rlock_def on_its_way_def

lemma locks_okD:
  assumes "locks_ok s0 s"
  shows "holds_lock (cs_gos s g) \<Longrightarrow> holds_lock (cs_gos s h) \<Longrightarrow> g = h"
    and "holds_lock (cs_gos s g) \<Longrightarrow> holds_rlock (cs_gos s h) \<Longrightarrow> g = h"
    and "cs_gos s g = Writing data \<Longrightarrow> data = current_text (cs_store s)"
  using assms unfolding locks_ok_def by blast+

lemma locks_okI:
  assumes "\<And>g h. holds_lock (cs_gos s g) \<Longrightarrow> holds_lock (cs_gos s h) \<Longrightarrow> g = h"
    and "\<And>g h. holds_lock (cs_gos s g) \<Longrightarrow> holds_rlock (cs_gos s h) \<Longrightarrow> g = h"
    and "\<And>g data. cs_gos s g = Writing data \<Longrightarrow> data = current_text (cs_store s)"
    and "rate_path (cs_store s) = rate_path (cs_store s0)"
    and "written (cs_files s) = written (cs_files s0)" and "resolve (cs_files s) = resolve (cs_files s0)"
    and "(\<exists>g. on_its_way (cs_gos s g)) \<or> file_current s \<or>
      rateConfig (cs_store s) = rateConfig (cs_store s0) \<and> cs_files s = cs_files s0"
  shows "locks_ok s0 s"
  using assms unfolding locks_ok_def by blast

lemma locks_ok_frame:
  assumes "locks_ok s0 s"
  shows "rate_path (cs_store s) = rate_path (cs_store s0)"
    and "written (cs_files s) = written (cs_files s0)" and "resolve (cs_files s) = resolve (cs_files s0)"
    and "(\<exists>g. on_its_way (cs_gos s g)) \<or> file_current s \<or>
      rateConfig (cs_store s) = rateConfig (cs_store s0) \<and> cs_files s = cs_files s0"
  using assms unfolding locks_ok_def by blast+

text \<open>A move that changes neither the store nor the files.\<close>

lemma locks_ok_move:
  assumes ok: "locks_ok s0 s"
    and l: "\<And>h. holds_lock go \<Longrightarrow> h \<noteq> g \<Longrightarrow> \<not> holds_lock (cs_gos s h) \<and> \<not> holds_rlock (cs_gos s h)"
    and r: "\<And>h. holds_rlock go \<Longrightarrow> h \<noteq> g \<Longrightarrow> \<not> holds_lock (cs_gos s h)"
    and d: "\<And>data. go = Writing data \<Longrightarrow> data = current_text (cs_store s)"
    and way: "on_its_way (cs_gos s g) \<Longrightarrow> on_its_way go"
  shows "locks_ok s0 (s\<lparr>cs_gos := (cs_gos s)(g := go)\<rparr>)"
proof (rule locks_okI)
  let ?t = "s\<lparr>cs_gos := (cs_gos s)(g := go)\<rparr>"
  fix h k
  show "h = k" if "holds_lock (cs_gos ?t h)" "holds_lock (cs_gos ?t k)"
    using that l [of h] l [of k] locks_okD(1) [OF ok, of h k] by (auto split: if_splits)
  show "h = k" if "holds_lock (cs_gos ?t h)" "holds_rlock (cs_gos ?t k)"
    using that l [of k] r [of h] locks_okD(2) [OF ok, of h k] by (auto split: if_splits)
  show "data = current_text (cs_store ?t)" if "cs_gos ?t h = Writing data" for data
    using that d [of data] locks_okD(3) [OF ok, of h data] by (auto split: if_splits)
  have f: "file_current ?t = file_current s" by (simp add: file_current_def)
  have e: "cs_store ?t = cs_store s" "cs_files ?t = cs_files s" by simp_all
  have "(\<exists>h. on_its_way (cs_gos s h)) \<Longrightarrow> (\<exists>h. on_its_way (cs_gos ?t h))"
    using way by (metis config_state.select_convs(3) config_state.surjective config_state.update_convs(3) fun_upd_apply)
  then show "(\<exists>g. on_its_way (cs_gos ?t g)) \<or> file_current ?t \<or>
      rateConfig (cs_store ?t) = rateConfig (cs_store s0) \<and> cs_files ?t = cs_files s0"
    using locks_ok_frame(4) [OF ok] unfolding f e by blast
qed (simp_all add: locks_ok_frame [OF ok])

lemma locks_ok_step:
  assumes "config_step s t" and ok: "locks_ok s0 s" and w: "writable (cs_files s0) (rate_path (cs_store s0))"
  shows "locks_ok s0 t"
  using assms(1)
proof cases
  case (assign g key rc s')
  have alone: "\<not> holds_lock (cs_gos s h) \<and> \<not> holds_rlock (cs_gos s h)" if "h \<noteq> g" for h
    using locks_okD(1,2) [OF ok, of g h] assign(2) that by (auto simp: go_defs)
  have nolock: "\<not> holds_lock (cs_gos t h)" for h
    using alone [of h] by (cases "h = g") (auto simp: assign(1), simp add: go_defs)
  have "cs_gos t h \<noteq> Writing data" for h data
    using alone [of h] by (cases "h = g") (auto simp: assign(1) go_defs)
  moreover have "on_its_way (cs_gos t g)" by (simp add: assign(1) go_defs)
  moreover have "rate_path (cs_store t) = rate_path (cs_store s0)"
    using assign(3) locks_ok_frame(1) [OF ok] by (auto simp: assign(1))
  ultimately show ?thesis
    using nolock locks_ok_frame(2,3) [OF ok] by (intro locks_okI) (auto simp: assign(1))
next
  case (writes g data)
  have gos: "cs_gos t = (cs_gos s)(g := Idle)" by (simp add: writes(1))
  have "data = current_text (cs_store s)" using locks_okD(3) [OF ok writes(2)] .
  moreover have "writable (cs_files s) (rate_path (cs_store s))"
    using locks_ok_frame(1-3) [OF ok] w by (simp add: writable_def)
  ultimately have f: "file_current t"
    by (simp add: file_current_def writes(1) ReadFile_WriteFile) (simp add: same_file_def)
  show ?thesis
  proof (rule locks_okI)
    fix h k
    show "h = k" if "holds_lock (cs_gos t h)" "holds_lock (cs_gos t k)"
      using that locks_okD(1) [OF ok, of h k] by (auto simp: gos go_defs split: if_splits)
    show "h = k" if "holds_lock (cs_gos t h)" "holds_rlock (cs_gos t k)"
      using that locks_okD(2) [OF ok, of h k] by (auto simp: gos go_defs split: if_splits)
    show "data' = current_text (cs_store t)" if "cs_gos t h = Writing data'" for data'
      using that locks_okD(3) [OF ok, of h data'] by (auto simp: gos writes(1) split: if_splits)
  qed (use f locks_ok_frame(1-3) [OF ok] in \<open>simp_all add: writes(1)\<close>)
next
  case (lock g key rc)
  then show ?thesis by (auto intro!: locks_ok_move [OF ok] simp: go_defs)
next
  case (rlock g)
  then show ?thesis by (auto intro!: locks_ok_move [OF ok]) (auto simp: go_defs)
next
  case (marshal g)
  then show ?thesis using locks_okD(2) [OF ok, of _ g] by (auto intro!: locks_ok_move [OF ok] simp: go_defs)
next
  case (panic g key rc p)
  then show ?thesis using locks_okD(1,2) [OF ok, of g] by (auto intro!: locks_ok_move [OF ok] simp: go_defs)
qed (auto intro!: locks_ok_move [OF ok] simp: go_defs)

text \<open>A store before its first concurrent call.\<close>

definition at_rest :: "('tc, 'rp, 'sd) config_state \<Rightarrow> bool" where
  "at_rest s \<longleftrightarrow> cs_gos s = (\<lambda>_. Idle)"

interpretation rate_locks: invariant_system "\<lambda>s. s = s0 \<and> at_rest s0 \<and> writable (cs_files s0) (rate_path (cs_store s0))"
    config_step "\<lambda>s. locks_ok s0 s \<and> writable (cs_files s0) (rate_path (cs_store s0))" for s0
proof
  fix s assume s: "s = s0 \<and> at_rest s0 \<and> writable (cs_files s0) (rate_path (cs_store s0))"
  then have "locks_ok s0 s" by (intro locks_okI) (simp_all add: at_rest_def go_defs)
  with s show "locks_ok s0 s \<and> writable (cs_files s0) (rate_path (cs_store s0))" by simp
next
  fix s t assume "config_step s t" and "locks_ok s0 s \<and> writable (cs_files s0) (rate_path (cs_store s0))"
  then show "locks_ok s0 t \<and> writable (cs_files s0) (rate_path (cs_store s0))" using locks_ok_step by blast
qed

section \<open>Properties\<close>

text \<open>
  A goroutine that panicked, because a \<open>null\<close> in the file had made the map nil, keeps the lock for ever: no
  other gets the lock or the read lock, so every later update waits.
\<close>

lemma panicked_stays: "config_step s t \<Longrightarrow> cs_gos s g = Panicked \<Longrightarrow> cs_gos t g = Panicked"
  by (erule config_stepE) (auto split: if_splits)

lemma panic_blocks_updates:
  assumes "config_step\<^sup>*\<^sup>* s t" and "cs_gos s g = Panicked" and "locks_ok s0 s"
    and "writable (cs_files s0) (rate_path (cs_store s0))"
  shows "cs_gos t g = Panicked \<and> (holds_lock (cs_gos t h) \<or> holds_rlock (cs_gos t h) \<longrightarrow> h = g)"
  using assms(1)
proof -
  have "cs_gos t g = Panicked \<and> locks_ok s0 t"
    using assms by (induction rule: rtranclp_induct) (auto dest: panicked_stays locks_ok_step)
  then show ?thesis using locks_okD(1,2) [of s0 t g h] by (auto simp: holds_lock_def)
qed

text \<open>
  C38: the lock of the store keeps concurrent updates of the rate configurations apart, but not the
  reads. In whatever interleaving of \<open>SetRateConfig\<close> and \<open>SyncRateConfig\<close> calls, a goroutine that holds the lock
  is the only one that holds the lock or the read lock, and whenever none is between its assignment
  and the end of its save, the file is the text of the map as it is, or nothing was assigned since the
  start. But a read of the map takes no lock: from any start a goroutine can be in the middle of a
  read while another assigns, which Go's run time answers by ending the process.
\<close>

theorem updates_exclude_each_other_but_no_reads:
  assumes "at_rest s0" and "writable (cs_files s0) (rate_path (cs_store s0))"
    and "reach (\<lambda>s. s = s0) config_step s"
  shows "(if holds_lock (cs_gos s g) \<and> (holds_lock (cs_gos s h) \<or> holds_rlock (cs_gos s h)) then g = h else True) \<and>
    (if \<exists>g. on_its_way (cs_gos s g) then True
     else file_current s \<or> rateConfig (cs_store s) = rateConfig (cs_store s0) \<and> cs_files s = cs_files s0) \<and>
    (\<exists>s1. reach (\<lambda>s. s = s0) config_step s1 \<and> cs_gos s1 0 = Assigning key rc \<and> cs_gos s1 1 = ReadingMap)"
proof -
  have "(\<lambda>s. s = s0) = (\<lambda>s. s = s0 \<and> at_rest s0 \<and> writable (cs_files s0) (rate_path (cs_store s0)))"
    using assms(1,2) by auto
  with assms(3) have "reach (\<lambda>s. s = s0 \<and> at_rest s0 \<and> writable (cs_files s0) (rate_path (cs_store s0))) config_step s"
    by simp
  from rate_locks.reach_inv [OF this] have ok: "locks_ok s0 s" by simp
  have idle: "cs_gos s0 = (\<lambda>_. Idle)" using assms(1) by (simp add: at_rest_def)
  let ?s1 = "s0\<lparr>cs_gos := (\<lambda>_. Idle)(0 := WantsLock key rc)\<rparr>" and ?s2 = "s0\<lparr>cs_gos := (\<lambda>_. Idle)(0 := Assigning key rc)\<rparr>"
  let ?s3 = "s0\<lparr>cs_gos := (\<lambda>_. Idle)(0 := Assigning key rc, 1 := ReadingMap)\<rparr>"
  have "config_step s0 ?s1" using update [of s0 0 key rc] idle by simp
  then have "reach (\<lambda>s. s = s0) config_step ?s1" by (intro reach_step [OF reach_init]) simp_all
  moreover have "config_step ?s1 ?s2" using lock [of ?s1 0 key rc] by (simp add: go_defs)
  moreover have "config_step ?s2 ?s3" using read [of ?s2 1] by simp
  ultimately have "reach (\<lambda>s. s = s0) config_step ?s3" by (blast intro: reach_step)
  then have race: "\<exists>s1. reach (\<lambda>s. s = s0) config_step s1 \<and> cs_gos s1 0 = Assigning key rc \<and> cs_gos s1 1 = ReadingMap"
    by (rule exI [of _ ?s3, OF conjI]) simp
  show ?thesis using locks_okD(1,2) [OF ok, of g h] locks_ok_frame(4) [OF ok] race by auto
qed

definition sample_configs :: "(unit, unit, unit) config_state" where
  "sample_configs = \<lparr>cs_store = alloc_store sample_options, cs_files = sample_files, cs_gos = (\<lambda>_. Idle)\<rparr>"

theorem updates_exclude_each_other_but_no_reads_witness:
  "\<exists>s1. reach (\<lambda>s. s = sample_configs) config_step s1 \<and>
     cs_gos s1 0 = Assigning ''k'' \<lparr>Window = 60, Limit = 1, PeakAveraged = False\<rparr> \<and> cs_gos s1 1 = ReadingMap"
proof -
  have r: "at_rest sample_configs" "writable (cs_files sample_configs) (rate_path (cs_store sample_configs))"
    by (simp_all add: at_rest_def sample_configs_def)
  have "reach (\<lambda>s. s = sample_configs) config_step sample_configs" by (rule reach_init) simp
  from updates_exclude_each_other_but_no_reads [OF r this] show ?thesis by blast
qed

end
