(* ===== verification/Convergence.thy ===== *)
theory Convergence
  imports Cluster
begin

text \<open>
  A cluster: nodes that run the store of theory \<open>Store\<close> with its synchroniser and the remote
  methods of theory \<open>Cluster\<close>, and a network between them that delivers batches late, in any
  order, or not at all. The steps are the program's own operations, interleaved in any way.

  The relation follows one key \<open>k\<close> through one window, the one that ends at \<open>x\<close>: calls on \<open>k\<close>
  are made while that window is open. Calls on other keys are arbitrary. What each node counted,
  received and lost on \<open>k\<close> is recorded in three ghost fields that no step reads.
\<close>

section \<open>Clocks\<close>

lemma upto_reading_tick: "upto_reading t (Suc n) c \<Longrightarrow> upto_reading t n (tick c)"
  by simp

lemma bucket_Sync_clock:
  assumes "upto_reading t (4 + n) c"
  shows "upto_reading t n (snd (bucket_Sync_at E k cnt y s c))"
proof -
  have less: "upto_reading t m c" if "m \<le> 4 + n" for m
    using assms that by (rule upto_reading_less)
  have *: "upto_reading t n c" "upto_reading t n (tick c)" "upto_reading t n (tick (tick c))"
    "upto_reading t n (tick (tick (tick c)))" "upto_reading t n (tick (tick (tick (tick c))))"
    using less [of n] less [of "Suc n"] less [of "Suc (Suc n)"] less [of "Suc (Suc (Suc n))"]
      less [of "Suc (Suc (Suc (Suc n)))"] by simp_all
  show ?thesis
    using * by (cases "lookup (keyBucket s ! bucket_index E k s) k")
      (auto simp: bucket_Sync_at_def KeyBucket_Sync_def GetEntry_def entry_eqs Now_eq Let_def
        split: if_splits)
qed

section \<open>The operations on one key in its window\<close>

text \<open>A batch of counts of the window adds them to the total.\<close>

definition of_window :: "key \<Rightarrow> i64 \<Rightarrow> SyncCommand list \<Rightarrow> bool" where
  "of_window k x cs \<longleftrightarrow> list_all (\<lambda>c. sc_Key c = k \<longrightarrow> sc_Expiry c = x) cs"

lemma of_window_simps [simp]:
  "of_window k x []"
  "of_window k x (c # cs) \<longleftrightarrow> (sc_Key c = k \<longrightarrow> sc_Expiry c = x) \<and> of_window k x cs"
  "of_window k x (cs @ ds) \<longleftrightarrow> of_window k x cs \<and> of_window k x ds"
  by (simp_all add: of_window_def)

lemma of_window_iff: "of_window k x cs \<longleftrightarrow> (\<forall>c \<in> set cs. sc_Key c = k \<longrightarrow> sc_Expiry c = x)"
  by (simp add: of_window_def list_all_iff)

lemma bucket_Sync_total:
  assumes "store_ok s" and "window_is x (store_view E s k)"
    and "sc_Key sync = k \<Longrightarrow> sc_Expiry sync = x" and "upto_reading x 2 c"
  defines "s1 \<equiv> fst (bucket_Sync_at E (sc_Key sync) (sc_Count sync) (sc_Expiry sync) s c)"
  shows "window_is x (store_view E s1 k)"
    and "total_in x (store_view E s1 k) = total_in x (store_view E s k) + count_in k [sync]"
proof -
  have "window_is x (store_view E s1 k) \<and>
      total_in x (store_view E s1 k) = total_in x (store_view E s k) + count_in k [sync]"
  proof (cases "sc_Key sync = k")
    case True
    have "within x (c, CSync k (sc_Count sync) (sc_Expiry sync))"
      using assms(3) [OF True] assms(4) by (simp add: numeral_2_eq_2 signed_less)
    then show ?thesis
      using store.sync_within [OF assms(1,2), of c "sc_Count sync" "sc_Expiry sync"] True
      by (simp add: s1_def)
  next
    case False
    then show ?thesis
      using store.sync_frame [OF assms(1), of k "sc_Key sync" E] assms(2) by (simp add: s1_def)
  qed
  then show "window_is x (store_view E s1 k)"
    and "total_in x (store_view E s1 k) = total_in x (store_view E s k) + count_in k [sync]"
    by simp_all
qed

lemma SyncKeys_total:
  assumes "SyncKeys E syncs s c = Inr (s', c')" and "store_ok s" and "window_is x (store_view E s k)"
    and "of_window k x syncs" and "upto_reading x (4 * length syncs) c"
  shows "window_is x (store_view E s' k)"
    and "total_in x (store_view E s' k) = total_in x (store_view E s k) + count_in k syncs"
    and "store_ok s'" and "opts s' = opts s" and "syncChannel s' = syncChannel s"
    and "store_nodeId s' = store_nodeId s"
proof -
  have "window_is x (store_view E s' k) \<and>
      total_in x (store_view E s' k) = total_in x (store_view E s k) + count_in k syncs \<and>
      store_ok s' \<and> opts s' = opts s \<and> syncChannel s' = syncChannel s \<and>
      store_nodeId s' = store_nodeId s"
    using assms
  proof (induction syncs arbitrary: s c)
    case (Cons sync syncs)
    let ?r = "bucket_Sync_at E (sc_Key sync) (sc_Count sync) (sc_Expiry sync) s c"
    have run: "SyncKeys E syncs (fst ?r) (snd ?r) = Inr (s', c')"
      using Cons.prems(1) by (simp only: SyncKeys_Cons [OF Cons.prems(2)])
    have "4 * length (sync # syncs) = 4 + 4 * length syncs" by simp
    then have clock: "upto_reading x (4 + 4 * length syncs) c" using Cons.prems(5) by simp
    then have "upto_reading x 2 c" by (rule upto_reading_less) simp
    note one = bucket_Sync_total [OF Cons.prems(2,3), of sync c]
    have frame: "opts (fst ?r) = opts s" "syncChannel (fst ?r) = syncChannel s"
      "store_nodeId (fst ?r) = store_nodeId s"
      by (simp_all add: bucket_Sync_at_def Let_def split: prod.splits)
    have "store_ok (fst ?r)" using Cons.prems(2) by (simp add: bucket_at_ok)
    moreover have "window_is x (store_view E (fst ?r) k)"
      and total: "total_in x (store_view E (fst ?r) k) = total_in x (store_view E s k) + count_in k [sync]"
      using one Cons.prems(4) \<open>upto_reading x 2 c\<close> by simp_all
    moreover have "of_window k x syncs" using Cons.prems(4) by simp
    ultimately show ?case
      using Cons.IH [OF run _ _ _ bucket_Sync_clock [OF clock]] frame by simp
  qed simp
  then show "window_is x (store_view E s' k)"
    and "total_in x (store_view E s' k) = total_in x (store_view E s k) + count_in k syncs"
    and "store_ok s'" and "opts s' = opts s" and "syncChannel s' = syncChannel s"
    and "store_nodeId s' = store_nodeId s" by simp_all
qed

text \<open>A call adds to the total exactly the count of the command it makes.\<close>

definition still_waiting :: "reply \<Rightarrow> SyncCommand list" where
  "still_waiting r = (case r of Replied _ \<Rightarrow> [] | WaitingToSync cmd _ \<Rightarrow> [cmd])"

lemma Store_Incr_result:
  assumes "store_ok s" and "effective E threshold window peak = (l, w)"
    and "Store_Incr E key cnt threshold window peak s c mgr = Inr (r, s', c', mgr')"
  shows "store_view E s' = store_view E (fst (snd (bucket_Incr_at E key cnt l w s c)))"
    and "store_ok s'" and "opts s' = opts s" and "store_nodeId s' = store_nodeId s"
    and "syncChannel s' @ still_waiting r = syncChannel s @
      (case fst (bucket_Incr_at E key cnt l w s c) of (blocked, y, dosync) \<Rightarrow>
         if \<not> blocked \<or> dosync
         then [\<lparr>sc_Key = key, sc_Count = cnt, sc_Expiry = y, sc_Force = dosync\<rparr>] else [])"
    and "length (syncChannel s) \<le> length (syncChannel s')"
proof -
  have node: "store_nodeId (fst (snd (bucket_Incr_at E key cnt l w s c))) = store_nodeId s"
    by (simp add: bucket_Incr_at_def Let_def split: prod.splits)
  note facts = assms(3) Store_Incr_cases [OF assms(1,2), of key cnt c mgr]
    bucket_at_frame [of E key cnt l w s c] bucket_at_ok(1) [of E key cnt l w s c] assms(1) node
  show "store_view E s' = store_view E (fst (snd (bucket_Incr_at E key cnt l w s c)))"
    and "store_ok s'" and "opts s' = opts s" and "store_nodeId s' = store_nodeId s"
    and "length (syncChannel s) \<le> length (syncChannel s')"
    using facts by (auto simp: Incr_finish_eq split: if_splits)
  show "syncChannel s' @ still_waiting r = syncChannel s @
      (case fst (bucket_Incr_at E key cnt l w s c) of (blocked, y, dosync) \<Rightarrow>
         if \<not> blocked \<or> dosync
         then [\<lparr>sc_Key = key, sc_Count = cnt, sc_Expiry = y, sc_Force = dosync\<rparr>] else [])"
    using facts by (auto simp: Incr_finish_eq still_waiting_def split: if_splits prod.splits)
qed

lemma Store_Incr_total:
  assumes "store_ok s" and "effective E threshold window peak = (l, w)"
    and "Store_Incr E key cnt threshold window peak s c mgr = Inr (r, s', c', mgr')"
    and "window_is x (store_view E s k)" and "key = k \<Longrightarrow> within x (c, CIncr key cnt l w)"
  obtains new where "syncChannel s' @ still_waiting r = syncChannel s @ new" and "of_window k x new"
    and "window_is x (store_view E s' k)"
    and "total_in x (store_view E s' k) = total_in x (store_view E s k) + count_in k new"
proof -
  let ?r = "bucket_Incr_at E key cnt l w s c"
  note res = Store_Incr_result [OF assms(1-3)]
  obtain blocked y dosync where out: "fst ?r = (blocked, y, dosync)" by (metis prod_cases3)
  let ?new = "if \<not> blocked \<or> dosync
     then [\<lparr>sc_Key = key, sc_Count = cnt, sc_Expiry = y, sc_Force = dosync\<rparr>] else []"
  have chan: "syncChannel s' @ still_waiting r = syncChannel s @ ?new" using res(5) out by simp
  have "of_window k x ?new \<and> window_is x (store_view E s' k) \<and>
      total_in x (store_view E s' k) = total_in x (store_view E s k) + count_in k ?new"
  proof (cases "key = k")
    case True
    note w = store.incr_within [OF assms(1,4), of c cnt l w, OF assms(5) [OF True, unfolded True]]
    show ?thesis
      using w out True res(1) by (auto simp: signed_less split: if_splits)
  next
    case False
    then show ?thesis
      using store.incr_frame [OF assms(1), of k key E cnt l w c] assms(4) res(1) by simp
  qed
  then show thesis using that [OF chan] by blast
qed

section \<open>The cluster\<close>

text \<open>
  The nodes are named by their node ids. Besides its store a node has calls that wait for room in
  the channel, and the pending map of its synchroniser; the network has the batches in flight,
  with sender and receiver.
\<close>

record ('tc, 'rp, 'sd) cluster =
  cl_store :: "string \<Rightarrow> ('tc, 'rp, 'sd) store"
  cl_waiting :: "string \<Rightarrow> SyncCommand list"
  cl_pending :: "string \<Rightarrow> pending"
  cl_flight :: "(string \<times> string \<times> SyncCommand list) list"
  gh_applied :: "string \<Rightarrow> i32"
  gh_received :: "string \<Rightarrow> string \<Rightarrow> i32"
  gh_lost :: "string \<Rightarrow> string \<Rightarrow> i32"

text \<open>What a node counted and no batch has yet: in waiting calls, in the channel, in the map.\<close>

definition unsynced :: "('tc, 'rp, 'sd) cluster \<Rightarrow> string \<Rightarrow> SyncCommand list" where
  "unsynced S i = cl_waiting S i @ syncChannel (cl_store S i) @ map snd (cl_pending S i)"

text \<open>The turn of node \<open>i\<close>'s synchroniser on \<open>ev\<close>, which leaves \<open>q\<close> in its channel.\<close>

definition worker_step ::
  "(pending \<Rightarrow> pending) \<Rightarrow> string list \<Rightarrow> key \<Rightarrow> string list option \<Rightarrow> string \<Rightarrow> sync_event \<Rightarrow>
   SyncCommand list \<Rightarrow> ('tc, 'rp, 'sd) cluster \<Rightarrow> ('tc, 'rp, 'sd) cluster" where
  "worker_step ro ms k reachable i ev q S =
     (let s = cl_store S i;
          (m, batch, _) = sync_turn ro (unsyncedCtrLimit (opts s)) (cl_pending S i) ev;
          b = (case batch of None \<Rightarrow> [] | Some b \<Rightarrow> b);
          sent = (case batch of
              None \<Rightarrow> []
            | Some b \<Rightarrow> (case sendSyncCommandToNodes reachable b s of None \<Rightarrow> [] | Some l \<Rightarrow> l))
      in S\<lparr>cl_store := (cl_store S)(i := s\<lparr>syncChannel := q\<rparr>),
           cl_pending := (cl_pending S)(i := m),
           cl_flight := map (\<lambda>(n, b). (i, n, b)) sent @ cl_flight S,
           gh_lost := (gh_lost S)(i := (\<lambda>n. gh_lost S i n +
             (if n \<in> set ms - {i} - fst ` set sent then count_in k b else 0)))\<rparr>)"

text \<open>
  The steps, for the members \<open>ms\<close>: a call on a node; a waiting call whose command finds room; the
  synchroniser receiving a command, taking it from a waiting call where the channel is unbuffered, or
  its timer; the delivery and the loss of a batch; a pass of
  the collector. \<open>reachable\<close> is what the ring answers the sender: any selection of the members.
  The event manager of a call is any (its handlers are known by name).
\<close>

inductive cluster_step ::
  "env \<Rightarrow> (pending \<Rightarrow> pending) \<Rightarrow> string list \<Rightarrow> key \<Rightarrow> i64 \<Rightarrow>
   ('tc, 'rp, 'sd) cluster \<Rightarrow> ('tc, 'rp, 'sd) cluster \<Rightarrow> bool"
  for E ro ms k x where
  call:
    "i \<in> set ms \<Longrightarrow>
     effective E threshold window peak = (l, w) \<Longrightarrow>
     (key = k \<Longrightarrow> within x (c, CIncr key cnt l w)) \<Longrightarrow>
     Store_Incr E key cnt threshold window peak (cl_store S i) c (mgr :: string event_manager option) =
       Inr (r, s', c', mgr') \<Longrightarrow>
     cluster_step E ro ms k x S
       (S\<lparr>cl_store := (cl_store S)(i := s'),
          cl_waiting := (cl_waiting S)(i := still_waiting r @ cl_waiting S i),
          gh_applied := (gh_applied S)(i := gh_applied S i + count_in k
            (drop (length (syncChannel (cl_store S i))) (syncChannel s') @ still_waiting r))\<rparr>)"
| room:
    "i \<in> set ms \<Longrightarrow> cl_waiting S i = ws @ cmd # ws' \<Longrightarrow>
     chan_send (unat (syncBuffer (opts (cl_store S i)))) (syncChannel (cl_store S i)) cmd = Some q \<Longrightarrow>
     cluster_step E ro ms k x S
       (S\<lparr>cl_store := (cl_store S)(i := (cl_store S i)\<lparr>syncChannel := q\<rparr>),
          cl_waiting := (cl_waiting S)(i := ws @ ws')\<rparr>)"
| receive:
    "i \<in> set ms \<Longrightarrow> set (case reachable of None \<Rightarrow> [] | Some ns \<Rightarrow> ns) \<subseteq> set ms \<Longrightarrow>
     distinct (case reachable of None \<Rightarrow> [] | Some ns \<Rightarrow> ns) \<Longrightarrow>
     chan_recv (syncChannel (cl_store S i)) = Some (cmd, q) \<Longrightarrow>
     cluster_step E ro ms k x S (worker_step ro ms k reachable i (Received cmd) q S)"
| hand_over:
    "i \<in> set ms \<Longrightarrow> set (case reachable of None \<Rightarrow> [] | Some ns \<Rightarrow> ns) \<subseteq> set ms \<Longrightarrow>
     distinct (case reachable of None \<Rightarrow> [] | Some ns \<Rightarrow> ns) \<Longrightarrow>
     cl_waiting S i = ws @ cmd # ws' \<Longrightarrow> syncBuffer (opts (cl_store S i)) = 0 \<Longrightarrow>
     syncChannel (cl_store S i) = [] \<Longrightarrow>
     cluster_step E ro ms k x S
       (worker_step ro ms k reachable i (Received cmd) [] (S\<lparr>cl_waiting := (cl_waiting S)(i := ws @ ws')\<rparr>))"
| timer:
    "i \<in> set ms \<Longrightarrow> set (case reachable of None \<Rightarrow> [] | Some ns \<Rightarrow> ns) \<subseteq> set ms \<Longrightarrow>
     distinct (case reachable of None \<Rightarrow> [] | Some ns \<Rightarrow> ns) \<Longrightarrow>
     cluster_step E ro ms k x S
       (worker_step ro ms k reachable i TimerFired (syncChannel (cl_store S i)) S)"
| deliver:
    "cl_flight S = fl @ (j, i, b) # fl' \<Longrightarrow> upto_reading x (4 * length b) c \<Longrightarrow>
     SyncKeys E b (cl_store S i) c = Inr (s', c') \<Longrightarrow>
     cluster_step E ro ms k x S
       (S\<lparr>cl_store := (cl_store S)(i := s'), cl_flight := fl @ fl',
          gh_received := (gh_received S)(j := (gh_received S j)(i := gh_received S j i + count_in k b))\<rparr>)"
| lose:
    "cl_flight S = fl @ (j, i, b) # fl' \<Longrightarrow>
     cluster_step E ro ms k x S
       (S\<lparr>cl_flight := fl @ fl',
          gh_lost := (gh_lost S)(j := (gh_lost S j)(i := gh_lost S j i + count_in k b))\<rparr>)"
| collect:
    "i \<in> set ms \<Longrightarrow> upto_reading x (gc_readings ord (keyBucket (cl_store S i))) c \<Longrightarrow>
     cluster_step E ro ms k x S
       (S\<lparr>cl_store := (cl_store S)(i := fst (gc_pass ord (cl_store S i) c))\<rparr>)"

text \<open>At the start the nodes carry their names and have nothing counted on \<open>k\<close> and nothing to send.\<close>

definition cluster_init ::
  "env \<Rightarrow> string list \<Rightarrow> key \<Rightarrow> ('tc, 'rp, 'sd) cluster \<Rightarrow> bool" where
  "cluster_init E ms k S \<longleftrightarrow>
     (\<forall>i. store_ok (cl_store S i) \<and> store_nodeId (cl_store S i) = i \<and>
          store_view E (cl_store S i) k = None \<and> unsynced S i = [] \<and> gh_applied S i = 0 \<and>
          (\<forall>j. gh_received S j i = 0 \<and> gh_lost S j i = 0)) \<and>
     cl_flight S = []"

text \<open>What is in flight from \<open>j\<close> to \<open>i\<close> for \<open>k\<close>.\<close>

definition in_flight :: "key \<Rightarrow> (string \<times> string \<times> SyncCommand list) list \<Rightarrow> string \<Rightarrow> string \<Rightarrow> i32" where
  "in_flight k fl j i = (\<Sum>(a, b, cs)\<leftarrow>fl. if a = j \<and> b = i then count_in k cs else 0)"

lemma in_flight_simps [simp]:
  "in_flight k [] j i = 0"
  "in_flight k ((a, b, cs) # fl) j i = (if a = j \<and> b = i then count_in k cs else 0) + in_flight k fl j i"
  "in_flight k (fl @ fl') j i = in_flight k fl j i + in_flight k fl' j i"
  by (simp_all add: in_flight_def)

text \<open>
  The invariant. On every node the window of \<open>k\<close> is \<open>x\<close> and its total is what was counted there
  plus what was received from the others; and for each pair of nodes, what one counted has been
  received by the other, was lost on the way, is on the way, or is still with the sender.
\<close>

definition node_ok :: "env \<Rightarrow> string list \<Rightarrow> key \<Rightarrow> i64 \<Rightarrow> ('tc, 'rp, 'sd) cluster \<Rightarrow> string \<Rightarrow> bool" where
  "node_ok E ms k x S i \<longleftrightarrow>
     store_ok (cl_store S i) \<and> store_nodeId (cl_store S i) = i \<and> filed (cl_pending S i) \<and>
     window_is x (store_view E (cl_store S i) k) \<and> of_window k x (unsynced S i) \<and>
     total_in x (store_view E (cl_store S i) k) =
       gh_applied S i + (\<Sum>j \<in> set ms - {i}. gh_received S j i)"

definition pair_ok :: "key \<Rightarrow> ('tc, 'rp, 'sd) cluster \<Rightarrow> string \<Rightarrow> string \<Rightarrow> bool" where
  "pair_ok k S j i \<longleftrightarrow>
     gh_applied S j = gh_received S j i + gh_lost S j i + in_flight k (cl_flight S) j i +
       count_in k (unsynced S j)"

definition flight_ok :: "string list \<Rightarrow> key \<Rightarrow> i64 \<Rightarrow> (string \<times> string \<times> SyncCommand list) list \<Rightarrow> bool" where
  "flight_ok ms k x fl \<longleftrightarrow>
     list_all (\<lambda>(j, i, b). j \<in> set ms \<and> i \<in> set ms \<and> j \<noteq> i \<and> of_window k x b) fl"

definition cluster_inv ::
  "env \<Rightarrow> string list \<Rightarrow> key \<Rightarrow> i64 \<Rightarrow> ('tc, 'rp, 'sd) cluster \<Rightarrow> bool" where
  "cluster_inv E ms k x S \<longleftrightarrow>
     (\<forall>i \<in> set ms. node_ok E ms k x S i \<and> (\<forall>j \<in> set ms. j \<noteq> i \<longrightarrow> pair_ok k S j i)) \<and>
     flight_ok ms k x (cl_flight S)"

lemma cluster_init_inv: "cluster_init E ms k S \<Longrightarrow> cluster_inv E ms k x S"
  by (simp add: cluster_init_def cluster_inv_def node_ok_def pair_ok_def flight_ok_def
      unsynced_def window_is_def filed_def)

section \<open>Every step keeps it\<close>

lemma cluster_invD:
  assumes "cluster_inv E ms k x S" and "i \<in> set ms"
  shows "node_ok E ms k x S i" and "\<And>j. j \<in> set ms \<Longrightarrow> j \<noteq> i \<Longrightarrow> pair_ok k S j i"
  using assms by (simp_all add: cluster_inv_def)

text \<open>A step inside one node: its total and what it has to send change by the same amount.\<close>

lemma cluster_inv_local:
  assumes inv: "cluster_inv E ms k x S" and i: "i \<in> set ms"
    and same: "cl_flight S' = cl_flight S" "gh_received S' = gh_received S" "gh_lost S' = gh_lost S"
    and others: "\<And>n. n \<noteq> i \<Longrightarrow> cl_store S' n = cl_store S n \<and> cl_waiting S' n = cl_waiting S n \<and>
        cl_pending S' n = cl_pending S n \<and> gh_applied S' n = gh_applied S n"
    and node: "store_ok (cl_store S' i)" "store_nodeId (cl_store S' i) = i" "filed (cl_pending S' i)"
      "window_is x (store_view E (cl_store S' i) k)" "of_window k x (unsynced S' i)"
    and gain: "gh_applied S' i = gh_applied S i + d"
      "total_in x (store_view E (cl_store S' i) k) = total_in x (store_view E (cl_store S i) k) + d"
      "count_in k (unsynced S' i) = count_in k (unsynced S i) + d"
  shows "cluster_inv E ms k x S'"
proof -
  have uns: "unsynced S' n = unsynced S n" if "n \<noteq> i" for n
    using others [OF that] by (simp add: unsynced_def)
  have "node_ok E ms k x S' n" if "n \<in> set ms" for n
    using cluster_invD(1) [OF inv that] others [of n] uns [of n] node gain same
    by (cases "n = i") (simp_all add: node_ok_def ac_simps)
  moreover have "pair_ok k S' j n" if "n \<in> set ms" "j \<in> set ms" "j \<noteq> n" for j n
    using cluster_invD(2) [OF inv that] others [of j] uns [of j] gain same
    by (cases "j = i") (simp_all add: pair_ok_def ac_simps)
  ultimately show ?thesis using inv same by (simp add: cluster_inv_def)
qed

lemma call_inv:
  assumes inv: "cluster_inv E ms k x S" and i: "i \<in> set ms"
    and eff: "effective E threshold window peak = (l, w)"
    and within: "key = k \<Longrightarrow> within x (c, CIncr key cnt l w)"
    and run: "Store_Incr E key cnt threshold window peak (cl_store S i) c mgr = Inr (r, s', c', mgr')"
  shows "cluster_inv E ms k x
       (S\<lparr>cl_store := (cl_store S)(i := s'),
          cl_waiting := (cl_waiting S)(i := still_waiting r @ cl_waiting S i),
          gh_applied := (gh_applied S)(i := gh_applied S i + count_in k
            (drop (length (syncChannel (cl_store S i))) (syncChannel s') @ still_waiting r))\<rparr>)"
proof -
  have ok: "node_ok E ms k x S i" by (rule cluster_invD [OF inv i])
  then have st: "store_ok (cl_store S i)" and win: "window_is x (store_view E (cl_store S i) k)"
    by (simp_all add: node_ok_def)
  note res = Store_Incr_result [OF st eff run]
  obtain new where new: "syncChannel s' @ still_waiting r = syncChannel (cl_store S i) @ new"
      "of_window k x new" "window_is x (store_view E s' k)"
      "total_in x (store_view E s' k) = total_in x (store_view E (cl_store S i) k) + count_in k new"
    by (rule Store_Incr_total [OF st eff run win within])
  have cnt: "count_in k (syncChannel s') + count_in k (still_waiting r) =
      count_in k (syncChannel (cl_store S i)) + count_in k new"
    using arg_cong [OF new(1), of "count_in k"] by simp
  have of: "of_window k x (syncChannel s') \<and> of_window k x (still_waiting r) \<longleftrightarrow>
      of_window k x (syncChannel (cl_store S i)) \<and> of_window k x new"
    using arg_cong [OF new(1), of "of_window k x"] by simp
  have len: "length (syncChannel (cl_store S i)) \<le> length (syncChannel s')"
    by (rule res(6))
  have "drop (length (syncChannel (cl_store S i))) (syncChannel s') @ still_waiting r =
      drop (length (syncChannel (cl_store S i))) (syncChannel s' @ still_waiting r)"
    using len by simp
  then have gain: "drop (length (syncChannel (cl_store S i))) (syncChannel s') @ still_waiting r = new"
    by (simp only: new(1)) simp
  have uns: "count_in k (unsynced S i) + count_in k new =
      count_in k (still_waiting r) + count_in k (cl_waiting S i) + count_in k (syncChannel s') +
      count_in k (map snd (cl_pending S i))"
    using cnt by (simp add: unsynced_def ac_simps)
  show ?thesis
    unfolding gain
    by (rule cluster_inv_local [OF inv i, where d = "count_in k new"])
      (use ok res new(2-4) of uns in \<open>auto simp: node_ok_def unsynced_def ac_simps\<close>)
qed

lemma moved_inv:
  assumes inv: "cluster_inv E ms k x S" and i: "i \<in> set ms"
    and wait: "cl_waiting S i = ws @ cmd # ws'"
  shows "cluster_inv E ms k x
       (S\<lparr>cl_store := (cl_store S)(i := (cl_store S i)\<lparr>syncChannel := syncChannel (cl_store S i) @ [cmd]\<rparr>),
          cl_waiting := (cl_waiting S)(i := ws @ ws')\<rparr>)"
  by (rule cluster_inv_local [OF inv i, where d = 0])
    (use cluster_invD(1) [OF inv i] wait in \<open>auto simp: node_ok_def unsynced_def ac_simps\<close>)

lemma room_inv:
  assumes "cluster_inv E ms k x S" and "i \<in> set ms"
    and "cl_waiting S i = ws @ cmd # ws'"
    and "chan_send (unat (syncBuffer (opts (cl_store S i)))) (syncChannel (cl_store S i)) cmd = Some q"
  shows "cluster_inv E ms k x
       (S\<lparr>cl_store := (cl_store S)(i := (cl_store S i)\<lparr>syncChannel := q\<rparr>),
          cl_waiting := (cl_waiting S)(i := ws @ ws')\<rparr>)"
  using moved_inv [OF assms(1-3)] go_chan.send_Some [OF assms(4)] by simp

lemma in_flight_sent:
  "distinct nodes \<Longrightarrow>
   in_flight k (map (\<lambda>(n, b). (i, n, b)) (map (\<lambda>n. (n, b)) nodes)) j n =
   (if j = i \<and> n \<in> set nodes then count_in k b else 0)"
  by (induction nodes) auto

text \<open>A turn of the synchroniser, whatever woke it, splits what the node had to send.\<close>

lemma worker_inv:
  assumes inv: "cluster_inv E ms k x S" and i: "i \<in> set ms" and ro: "permutes_pending ro"
    and reach: "set (case reachable of None \<Rightarrow> [] | Some ns \<Rightarrow> ns) \<subseteq> set ms"
      "distinct (case reachable of None \<Rightarrow> [] | Some ns \<Rightarrow> ns)"
    and ev: "arriving ev @ q = syncChannel (cl_store S i)"
  shows "cluster_inv E ms k x (worker_step ro ms k reachable i ev q S)"
proof -
  let ?s = "cl_store S i"
  let ?S' = "worker_step ro ms k reachable i ev q S"
  obtain m batch close where t: "sync_turn ro (unsyncedCtrLimit (opts ?s)) (cl_pending S i) ev = (m, batch, close)"
    by (metis prod_cases3)
  define b where "b = (case batch of None \<Rightarrow> [] | Some b \<Rightarrow> b)"
  define nodes where "nodes = (case batch of None \<Rightarrow> [] | Some _ \<Rightarrow>
    filter (\<lambda>n. n \<noteq> i) (case reachable of None \<Rightarrow> [] | Some ns \<Rightarrow> ns))"
  have ok: "node_ok E ms k x S i" by (rule cluster_invD [OF inv i])
  then have id: "store_nodeId ?s = i" and fil: "filed (cl_pending S i)" by (simp_all add: node_ok_def)
  have sent: "(case batch of
              None \<Rightarrow> []
            | Some b \<Rightarrow> (case sendSyncCommandToNodes reachable b ?s of None \<Rightarrow> [] | Some l \<Rightarrow> l)) =
      map (\<lambda>n. (n, b)) nodes"
    by (simp add: nodes_def b_def sendSyncCommandToNodes_def id split: option.splits)
  have nodes: "distinct nodes" "set nodes \<subseteq> set ms - {i}"
    using reach by (auto simp: nodes_def split: option.splits)
  have img: "fst ` set (map (\<lambda>n. (n, b)) nodes) = set nodes" by (simp add: image_image)
  have S': "?S' = S\<lparr>cl_store := (cl_store S)(i := ?s\<lparr>syncChannel := q\<rparr>),
           cl_pending := (cl_pending S)(i := m),
           cl_flight := map (\<lambda>(n, b). (i, n, b)) (map (\<lambda>n. (n, b)) nodes) @ cl_flight S,
           gh_lost := (gh_lost S)(i := (\<lambda>n. gh_lost S i n +
             (if n \<in> set ms - {i} - set nodes then count_in k b else 0)))\<rparr>"
    unfolding worker_step_def Let_def t prod.case sent b_def [symmetric] img ..
  have arr: "set (arriving ev) \<subseteq> set (syncChannel ?s)" by (simp flip: ev)
  have all: "\<forall>c \<in> set (map snd (cl_pending S i) @ arriving ev). sc_Key c = k \<longrightarrow> sc_Expiry c = x"
    using ok arr by (auto simp: node_ok_def unsynced_def of_window_iff)
  note split = worker.turn_keeps [OF conjI [OF fil ro] t all, folded b_def]
  have chan: "count_in k (syncChannel ?s) = count_in k (arriving ev) + count_in k q"
    "of_window k x (syncChannel ?s) \<longleftrightarrow> of_window k x (arriving ev) \<and> of_window k x q"
    unfolding ev [symmetric] by simp_all
  have uns: "count_in k (unsynced S i) = count_in k (unsynced ?S' i) + count_in k b"
    using conjunct1 [OF split] chan by (simp add: unsynced_def S' algebra_simps)
  have ofw: "of_window k x (map snd m)" "of_window k x b"
    using conjunct2 [OF split] by (auto simp: of_window_iff)
  have others: "unsynced ?S' n = unsynced S n" if "n \<noteq> i" for n
    using that by (simp add: S' unsynced_def)
  have "filed m" using sync_turn_filed [OF fil, of ro "unsyncedCtrLimit (opts ?s)" ev] t by simp
  have "node_ok E ms k x ?S' n" if "n \<in> set ms" for n
  proof (cases "n = i")
    case True
    then show ?thesis
      using ok \<open>filed m\<close> ofw chan by (simp add: node_ok_def S' unsynced_def)
  next
    case False
    then show ?thesis
      using cluster_invD(1) [OF inv that] others [OF False] by (simp add: node_ok_def S')
  qed
  moreover have "pair_ok k ?S' j n" if "n \<in> set ms" "j \<in> set ms" "j \<noteq> n" for j n
    using cluster_invD(2) [OF inv that] uns others [of j] in_flight_sent [OF nodes(1), of k i b j n] nodes(2) that
    by (cases "j = i") (auto simp: pair_ok_def S' ac_simps)
  moreover have "flight_ok ms k x (cl_flight ?S')"
    using inv nodes(2) i ofw(2) by (auto simp: cluster_inv_def flight_ok_def S' list_all_iff)
  ultimately show ?thesis by (simp add: cluster_inv_def)
qed

lemma deliver_inv:
  assumes inv: "cluster_inv E ms k x S" and fl: "cl_flight S = fl @ (j, i, b) # fl'"
    and clock: "upto_reading x (4 * length b) c"
    and run: "SyncKeys E b (cl_store S i) c = Inr (s', c')"
  shows "cluster_inv E ms k x
       (S\<lparr>cl_store := (cl_store S)(i := s'), cl_flight := fl @ fl',
          gh_received := (gh_received S)(j := (gh_received S j)(i := gh_received S j i + count_in k b))\<rparr>)"
    (is "cluster_inv E ms k x ?S'")
proof -
  have ji: "j \<in> set ms" "i \<in> set ms" "j \<noteq> i" "of_window k x b"
    and rest: "flight_ok ms k x (fl @ fl')"
    using inv fl by (auto simp: cluster_inv_def flight_ok_def)
  have ok: "node_ok E ms k x S i" by (rule cluster_invD [OF inv ji(2)])
  then have st: "store_ok (cl_store S i)" and win: "window_is x (store_view E (cl_store S i) k)"
    by (simp_all add: node_ok_def)
  note res = SyncKeys_total [OF run st win ji(4) clock]
  have uns: "unsynced ?S' n = unsynced S n" for n
    using res(5) by (simp add: unsynced_def)
  have "node_ok E ms k x ?S' n" if "n \<in> set ms" for n
  proof (cases "n = i")
    case True
    have "(\<Sum>a \<in> set ms - {i}. gh_received ?S' a i) = (\<Sum>a \<in> set ms - {i}. gh_received S a i) + count_in k b"
      using ji by (subst (1 2) sum.remove [of _ j]) (auto intro!: sum.cong)
    then show ?thesis
      using ok res uns [of i] True by (simp add: node_ok_def)
  next
    case False
    have "gh_received ?S' a n = gh_received S a n" for a using False by simp
    then show ?thesis
      using cluster_invD(1) [OF inv that] uns [of n] False by (simp add: node_ok_def)
  qed
  moreover have "pair_ok k ?S' a n" if "n \<in> set ms" "a \<in> set ms" "a \<noteq> n" for a n
    using cluster_invD(2) [OF inv that] uns [of a] fl
    by (simp add: pair_ok_def ac_simps)
  ultimately show ?thesis using rest by (simp add: cluster_inv_def)
qed

lemma sender_channel: "sendSyncCommandToNodes r b (s\<lparr>syncChannel := q\<rparr>) = sendSyncCommandToNodes r b s"
  by (simp add: sendSyncCommandToNodes_def split: option.split)

text \<open>A hand-over is a move into the channel and a turn in one.\<close>

lemma hand_over_as_receive:
  fixes S :: "('tc, 'rp, 'sd) cluster"
  defines "moved \<equiv> \<lambda>i ws cmd ws'. S\<lparr>cl_store := (cl_store S)(i :=
      (cl_store S i)\<lparr>syncChannel := syncChannel (cl_store S i) @ [cmd]\<rparr>), cl_waiting := (cl_waiting S)(i := ws @ ws')\<rparr>"
  shows "worker_step ro ms k reachable i (Received cmd) [] (S\<lparr>cl_waiting := (cl_waiting S)(i := ws @ ws')\<rparr>) =
    worker_step ro ms k reachable i (Received cmd) [] (moved i ws cmd ws')"
  by (cases "sync_turn ro (unsyncedCtrLimit (opts (cl_store S i))) (cl_pending S i) (Received cmd)")
    (auto simp: moved_def worker_step_def Let_def sender_channel split: option.split)

lemma hand_over_inv:
  assumes inv: "cluster_inv E ms k x S" and i: "i \<in> set ms" and ro: "permutes_pending ro"
    and reach: "set (case reachable of None \<Rightarrow> [] | Some ns \<Rightarrow> ns) \<subseteq> set ms"
      "distinct (case reachable of None \<Rightarrow> [] | Some ns \<Rightarrow> ns)"
    and wait: "cl_waiting S i = ws @ cmd # ws'" "syncChannel (cl_store S i) = []"
  shows "cluster_inv E ms k x
    (worker_step ro ms k reachable i (Received cmd) [] (S\<lparr>cl_waiting := (cl_waiting S)(i := ws @ ws')\<rparr>))"
  unfolding hand_over_as_receive
  by (rule worker_inv [OF moved_inv [OF inv i wait(1)] i ro reach]) (simp add: wait(2))

lemma lose_inv:
  assumes inv: "cluster_inv E ms k x S" and fl: "cl_flight S = fl @ (j, i, b) # fl'"
  shows "cluster_inv E ms k x
       (S\<lparr>cl_flight := fl @ fl',
          gh_lost := (gh_lost S)(j := (gh_lost S j)(i := gh_lost S j i + count_in k b))\<rparr>)"
    (is "cluster_inv E ms k x ?S'")
proof -
  have rest: "flight_ok ms k x (fl @ fl')"
    using inv fl by (auto simp: cluster_inv_def flight_ok_def)
  have uns: "unsynced ?S' n = unsynced S n" for n by (simp add: unsynced_def)
  have "node_ok E ms k x ?S' n" if "n \<in> set ms" for n
    using cluster_invD(1) [OF inv that] uns [of n] by (simp add: node_ok_def)
  moreover have "pair_ok k ?S' a n" if "n \<in> set ms" "a \<in> set ms" "a \<noteq> n" for a n
    using cluster_invD(2) [OF inv that] uns [of a] fl by (simp add: pair_ok_def ac_simps)
  ultimately show ?thesis using rest by (simp add: cluster_inv_def)
qed

text \<open>The collector leaves the open window alone: it only deletes, and only what has ended.\<close>

lemma gc_bucket_deletes:
  "lookup (fst (gc_bucket grace ks b c)) k = lookup b k \<or> lookup (fst (gc_bucket grace ks b c)) k = None"
proof (induction ks arbitrary: b c)
  case Nil
  then show ?case by (simp add: gc_bucket_def)
next
  case (Cons a ks)
  obtain b1 c1 where g: "gc_entry grace a (b, c) = (b1, c1)" by fastforce
  then have "lookup b1 k = lookup b k \<or> lookup b1 k = None"
    by (auto simp: gc_entry_def Let_def split: option.splits if_splits prod.splits)
  then show ?case using Cons.IH [of b1 c1] g by (auto simp: gc_bucket_def)
qed

lemma gc_buckets_deletes:
  assumes "gc_buckets grace ord bs c = (bs', c')" and "i < length bs"
  shows "lookup (bs' ! i) k = lookup (bs ! i) k \<or> lookup (bs' ! i) k = None"
  using assms
proof (induction bs arbitrary: c bs' i)
  case (Cons b bs)
  obtain b1 c1 where g: "gc_bucket grace (ord b) b c = (b1, c1)" by fastforce
  obtain bs1 c2 where gs: "gc_buckets grace ord bs c1 = (bs1, c2)" by fastforce
  have bs': "bs' = b1 # bs1" "c2 = c'" using Cons.prems(1) g gs by simp_all
  show ?case
    using gc_bucket_deletes [of grace "ord b" b c k] g gs bs' Cons.IH [of c1 bs1] Cons.prems(2)
    by (cases i) auto
qed simp

lemma gc_pass_open_window:
  assumes "store_ok s" and "upto_reading x (gc_readings ord (keyBucket s)) c"
    and "window_is x (store_view E s k)"
  shows "store_view E (fst (gc_pass ord s c)) k = store_view E s k"
proof -
  obtain bs c' where g: "gc_buckets (gcGrace (opts s)) ord (keyBucket s) c = (bs, c')" by fastforce
  have alike: "store_view E s k = store_view E (fst (gc_pass ord s c)) k \<or>
      ended x (store_view E s k)"
    using gc_pass_alike(1) [OF assms(1,2)] unfolding alike_from_def by blast
  moreover have "store_view E s k = None" if "ended x (store_view E s k)"
    using that assms(3) by (auto simp: ended_def window_is_def signed_less split: option.splits)
  moreover have "store_view E (fst (gc_pass ord s c)) k = None" if "store_view E s k = None"
    using that gc_buckets_deletes [OF g bucket_index_less [OF assms(1), of E k], of k]
    by (auto simp: store_view_def gc_pass_def g abs_bucket_def)
  ultimately show ?thesis by metis
qed

lemma collect_inv:
  assumes inv: "cluster_inv E ms k x S" and i: "i \<in> set ms"
    and clock: "upto_reading x (gc_readings ord (keyBucket (cl_store S i))) c"
  shows "cluster_inv E ms k x (S\<lparr>cl_store := (cl_store S)(i := fst (gc_pass ord (cl_store S i) c))\<rparr>)"
proof -
  have ok: "node_ok E ms k x S i" by (rule cluster_invD [OF inv i])
  then have st: "store_ok (cl_store S i)" and win: "window_is x (store_view E (cl_store S i) k)"
    by (simp_all add: node_ok_def)
  note view = gc_pass_open_window [OF st clock win]
  have frame: "store_nodeId (fst (gc_pass ord (cl_store S i) c)) = store_nodeId (cl_store S i)"
    "syncChannel (fst (gc_pass ord (cl_store S i) c)) = syncChannel (cl_store S i)"
    by (simp_all add: gc_pass_def split: prod.splits)
  show ?thesis
    by (rule cluster_inv_local [OF inv i, where d = 0])
      (use ok view frame gc_pass_alike(2) [OF st clock] in \<open>simp_all add: node_ok_def unsynced_def\<close>)
qed

lemma cluster_step_inv:
  assumes "cluster_step E ro ms k x S S'" and "cluster_inv E ms k x S" and "permutes_pending ro"
  shows "cluster_inv E ms k x S'"
  using assms(1)
proof cases
  case call
  then show ?thesis using call_inv [OF assms(2)] by blast
next
  case room
  then show ?thesis using room_inv [OF assms(2)] by blast
next
  case (receive i reachable cmd q)
  then have "arriving (Received cmd) @ q = syncChannel (cl_store S i)"
    using go_chan.recv_Some [OF receive(5)] by simp
  then show ?thesis
    using worker_inv [OF assms(2) receive(2) assms(3) receive(3,4)] receive(1) by blast
next
  case hand_over
  then show ?thesis using hand_over_inv [OF assms(2) _ assms(3)] by blast
next
  case (timer i reachable)
  have "arriving TimerFired @ syncChannel (cl_store S i) = syncChannel (cl_store S i)" by simp
  then show ?thesis
    using worker_inv [OF assms(2) timer(2) assms(3) timer(3,4)] timer(1) by blast
next
  case deliver
  then show ?thesis using deliver_inv [OF assms(2)] by blast
next
  case lose
  then show ?thesis using lose_inv [OF assms(2)] by blast
next
  case collect
  then show ?thesis using collect_inv [OF assms(2)] by blast
qed

interpretation cluster: invariant_system "\<lambda>S. cluster_init E ms k S \<and> permutes_pending ro"
    "cluster_step E ro ms k x" "\<lambda>S. cluster_inv E ms k x S \<and> permutes_pending ro" for E ro ms k x
  by unfold_locales (auto intro: cluster_init_inv cluster_step_inv)

section \<open>Properties\<close>

text \<open>What has not reached node \<open>i\<close>: lost, on the way, or still with the others.\<close>

definition outstanding :: "string list \<Rightarrow> key \<Rightarrow> ('tc, 'rp, 'sd) cluster \<Rightarrow> string \<Rightarrow> i32" where
  "outstanding ms k S i =
     (\<Sum>j \<in> set ms - {i}. gh_lost S j i + in_flight k (cl_flight S) j i + count_in k (unsynced S j))"

lemma total_outstanding:
  assumes "cluster_inv E ms k x S" and "i \<in> set ms"
  shows "total_in x (store_view E (cl_store S i) k) + outstanding ms k S i = (\<Sum>j \<in> set ms. gh_applied S j)"
proof -
  have "total_in x (store_view E (cl_store S i) k) + outstanding ms k S i =
      gh_applied S i + (\<Sum>j \<in> set ms - {i}. gh_received S j i + (gh_lost S j i +
        in_flight k (cl_flight S) j i + count_in k (unsynced S j)))"
    using cluster_invD(1) [OF assms] by (simp add: node_ok_def outstanding_def sum.distrib ac_simps)
  also have "(\<Sum>j \<in> set ms - {i}. gh_received S j i + (gh_lost S j i +
        in_flight k (cl_flight S) j i + count_in k (unsynced S j))) = (\<Sum>j \<in> set ms - {i}. gh_applied S j)"
    using cluster_invD(2) [OF assms] by (intro sum.cong) (simp_all add: pair_ok_def ac_simps)
  also have "gh_applied S i + (\<Sum>j \<in> set ms - {i}. gh_applied S j) = (\<Sum>j \<in> set ms. gh_applied S j)"
    using assms(2) by (simp add: sum.remove)
  finally show ?thesis .
qed

text \<open>
  C3: the cluster's accounting. In every state the cluster can reach, however calls,
  synchroniser turns, timers, deliveries, losses and collector passes interleave, the total that a
  node has for the key in its window, plus what is outstanding for the node (lost, in flight, or
  not yet sent by the others), is what all nodes together have counted: no count is ever applied
  twice, none is applied to the wrong window, and none disappears unnoticed. (Modulo \<open>2 ^ 32\<close>,
  as the counters are.)
\<close>

theorem cluster_accounts_for_every_count:
  assumes "permutes_pending ro"
    and "reach (\<lambda>S. cluster_init E ms k S \<and> permutes_pending ro) (cluster_step E ro ms k x) S"
    and "i \<in> set ms"
  shows "total_in x (store_view E (cl_store S i) k) + outstanding ms k S i =
         (\<Sum>j \<in> set ms. gh_applied S j)"
  using cluster.reach_inv [OF assms(2)] total_outstanding assms(3) by blast

text \<open>
  C4: the cluster converges. Once the synchronisers have sent everything and the network has
  delivered everything and lost nothing, all nodes have the same total for the key, and it is the
  sum of what they counted.
\<close>

theorem cluster_converges:
  assumes "permutes_pending ro"
    and "reach (\<lambda>S. cluster_init E ms k S \<and> permutes_pending ro) (cluster_step E ro ms k x) S"
    and "cl_flight S = []" and "\<forall>i \<in> set ms. unsynced S i = []"
    and "\<forall>i \<in> set ms. \<forall>j \<in> set ms. gh_lost S j i = 0" and "i \<in> set ms"
  shows "total_in x (store_view E (cl_store S i) k) = (\<Sum>j \<in> set ms. gh_applied S j)"
proof -
  have "outstanding ms k S i = 0"
    using assms(3-6) by (simp add: outstanding_def)
  then show ?thesis
    using cluster.reach_inv [OF assms(2)] total_outstanding [OF _ assms(6)] by force
qed

text \<open>A run of two nodes: a call on one, its synchroniser, its timer, the delivery to the other.\<close>

definition sample_node :: "string \<Rightarrow> (unit, unit, unit) store" where
  "sample_node i = (alloc_store (sample_options\<lparr>buckets := 1\<rparr>))\<lparr>store_nodeId := i\<rparr>"

definition sample_entry :: "KeyBucket list" where
  "sample_entry = [\<lparr>lookup = [''k'' \<mapsto> \<lparr>expires = 1000000000, lastmodified = 5, ecount = 2\<rparr>]\<rparr>]"

definition sample_command :: SyncCommand where
  "sample_command = \<lparr>sc_Key = ''k'', sc_Count = 2, sc_Expiry = 1000000000, sc_Force = False\<rparr>"

definition sample_cluster :: "(unit, unit, unit) cluster" where
  "sample_cluster = \<lparr>cl_store = sample_node, cl_waiting = (\<lambda>_. []), cl_pending = (\<lambda>_. []),
     cl_flight = [], gh_applied = (\<lambda>_. 0), gh_received = (\<lambda>_ _. 0), gh_lost = (\<lambda>_ _. 0)\<rparr>"

text \<open>The states after the call, after the synchroniser received, after its timer, and at the end.\<close>

definition sample_called :: "(unit, unit, unit) cluster" where
  "sample_called = sample_cluster
     \<lparr>cl_store := sample_node(''a'' := (sample_node ''a'')
        \<lparr>keyBucket := sample_entry, syncChannel := [sample_command]\<rparr>),
      gh_applied := (\<lambda>_. 0)(''a'' := 2)\<rparr>"

definition sample_received :: "(unit, unit, unit) cluster" where
  "sample_received = sample_called
     \<lparr>cl_store := sample_node(''a'' := (sample_node ''a'')\<lparr>keyBucket := sample_entry\<rparr>),
      cl_pending := (\<lambda>_. [])(''a'' := [(''k'', sample_command)])\<rparr>"

definition sample_flushed :: "(unit, unit, unit) cluster" where
  "sample_flushed = sample_received
     \<lparr>cl_pending := (\<lambda>_. []), cl_flight := [(''a'', ''b'', [sample_command])]\<rparr>"

definition sample_delivered :: "(unit, unit, unit) cluster" where
  "sample_delivered = sample_flushed
     \<lparr>cl_store := sample_node(''a'' := (sample_node ''a'')\<lparr>keyBucket := sample_entry\<rparr>,
        ''b'' := (sample_node ''b'')\<lparr>keyBucket := sample_entry\<rparr>),
      cl_flight := [], gh_received := (\<lambda>_ _. 0)(''a'' := (\<lambda>_. 0)(''b'' := 2))\<rparr>"

abbreviation sample_step :: "(unit, unit, unit) cluster \<Rightarrow> (unit, unit, unit) cluster \<Rightarrow> bool" where
  "sample_step \<equiv> cluster_step sample_env rev [''a'', ''b''] ''k'' 1000000000"

lemmas sample_defs = sample_called_def sample_received_def sample_flushed_def sample_delivered_def
  sample_cluster_def

lemma sample_node_ok: "store_ok (sample_node i)"
  using alloc_store_ok [of "sample_options\<lparr>buckets := 1\<rparr>"] by (simp add: sample_node_def store_ok_def)

lemma sample_index [simp]: "bucket_index sample_env key (sample_node i) = 0"
  using bucket_index_less [OF sample_node_ok, of sample_env key i]
  by (simp add: sample_node_def alloc_store_def)

lemma sample_node_fields [simp]:
  "keyBucket (sample_node i) = [NewKeyBucket]" "syncChannel (sample_node i) = []"
  "opts (sample_node i) = sample_options\<lparr>buckets := 1\<rparr>" "store_nodeId (sample_node i) = i"
  by (simp_all add: sample_node_def alloc_store_def)

lemma sample_call:
  "Store_Incr sample_env ''k'' 2 5 1 False (sample_node ''a'') (UnReal \<lparr>current = 5\<rparr>)
     (None :: string event_manager option) =
   Inr (Replied False, (sample_node ''a'')\<lparr>keyBucket := sample_entry, syncChannel := [sample_command]\<rparr>,
     UnReal \<lparr>current = 5\<rparr>, None)"
  by (simp add: Store_Incr_cases [OF sample_node_ok, of sample_env 5 1 False 5 1] effective_def
      bucket_Incr_at_def KeyBucket_Incr_def GetEntry_def NewKeyBucket_def entry_eqs Now_eq GenExpiry_def
      go_rem64_def signed_less Let_def Incr_finish_def sample_entry_def sample_command_def
      sample_options_def defaultOptions_def)

lemma sample_step1: "sample_step sample_cluster sample_called"
proof -
  have "sample_called = sample_cluster\<lparr>cl_store := (cl_store sample_cluster)
        (''a'' := (sample_node ''a'')\<lparr>keyBucket := sample_entry, syncChannel := [sample_command]\<rparr>),
      cl_waiting := (cl_waiting sample_cluster)(''a'' := still_waiting (Replied False) @ cl_waiting sample_cluster ''a''),
      gh_applied := (gh_applied sample_cluster)(''a'' := gh_applied sample_cluster ''a'' + count_in ''k''
        (drop (length (syncChannel (cl_store sample_cluster ''a'')))
          (syncChannel ((sample_node ''a'')\<lparr>keyBucket := sample_entry, syncChannel := [sample_command]\<rparr>)) @
         still_waiting (Replied False)))\<rparr>"
    by (simp add: sample_defs still_waiting_def sample_command_def fun_eq_iff)
  moreover have "sample_step sample_cluster \<dots>"
    by (rule cluster_step.call [where threshold = 5 and window = 1 and peak = False and key = "''k''"
        and cnt = 2 and l = 5 and w = 1 and c = "UnReal \<lparr>current = 5\<rparr>" and mgr = None])
      (use sample_call in \<open>simp_all add: sample_cluster_def effective_def GenExpiry_def go_rem64_def\<close>)
  ultimately show ?thesis by simp
qed

lemma sample_step2: "sample_step sample_called sample_received"
proof -
  have "sample_received = worker_step rev [''a'', ''b''] ''k'' (Some [''a'', ''b'']) ''a''
      (Received sample_command) [] sample_called"
    by (simp add: worker_step_def sync_turn_def aggregate_def sample_defs sample_command_def
      sample_options_def defaultOptions_def signed_less Let_def fun_eq_iff)
  moreover have "sample_step sample_called \<dots>"
    by (rule cluster_step.receive) (simp_all add: sample_defs chan_recv_def)
  ultimately show ?thesis by simp
qed

lemma sample_step3: "sample_step sample_received sample_flushed"
proof -
  have "sample_flushed = worker_step rev [''a'', ''b''] ''k'' (Some [''a'', ''b'']) ''a''
      TimerFired (syncChannel (cl_store sample_received ''a'')) sample_received"
    by (simp add: worker_step_def sync_turn_def sample_defs sendSyncCommandToNodes_def Let_def fun_eq_iff)
  moreover have "sample_step sample_received \<dots>"
    by (rule cluster_step.timer) (simp_all add: sample_defs)
  ultimately show ?thesis by simp
qed

lemma sample_step4: "sample_step sample_flushed sample_delivered"
proof -
  let ?s' = "(sample_node ''b'')\<lparr>keyBucket := sample_entry\<rparr>"
  have run: "SyncKeys sample_env [sample_command] (cl_store sample_flushed ''b'') (UnReal \<lparr>current = 5\<rparr>) =
      Inr (?s', UnReal \<lparr>current = 5\<rparr>)"
    by (simp add: sample_defs getKeyBucket_ok [OF sample_node_ok] bucket_Sync_at_def KeyBucket_Sync_def
      GetEntry_def NewKeyBucket_def entry_eqs Now_eq signed_less Let_def sample_entry_def sample_command_def)
  have "sample_delivered = sample_flushed\<lparr>cl_store := (cl_store sample_flushed)(''b'' := ?s'),
      cl_flight := [] @ [], gh_received := (gh_received sample_flushed)(''a'' :=
        (gh_received sample_flushed ''a'')(''b'' := gh_received sample_flushed ''a'' ''b'' +
          count_in ''k'' [sample_command]))\<rparr>"
    by (simp add: sample_defs sample_command_def fun_eq_iff)
  moreover have "sample_step sample_flushed \<dots>"
    by (rule cluster_step.deliver [OF _ _ run])
      (simp_all add: sample_defs signed_less eval_nat_numeral)
  ultimately show ?thesis by simp
qed

lemma sample_init: "cluster_init sample_env [''a'', ''b''] ''k'' sample_cluster"
proof -
  have "store_view sample_env (sample_node i) ''k'' = None" for i
    by (simp add: store_view_def abs_bucket_def NewKeyBucket_def)
  then show ?thesis
    by (simp add: cluster_init_def sample_cluster_def unsynced_def sample_node_ok)
qed

lemma sample_run:
  "reach (\<lambda>S. cluster_init sample_env [''a'', ''b''] ''k'' S \<and> permutes_pending rev) sample_step sample_delivered"
  "reach (\<lambda>S. cluster_init sample_env [''a'', ''b''] ''k'' S \<and> permutes_pending rev) sample_step sample_flushed"
proof -
  let ?reach = "reach (\<lambda>S. cluster_init sample_env [''a'', ''b''] ''k'' S \<and> permutes_pending rev) sample_step"
  have "?reach sample_cluster"
    by (rule reach_init) (simp add: sample_init permutes_pending_def)
  then show "?reach sample_flushed"
    using sample_step1 sample_step2 sample_step3 by (blast intro: reach_step)
  then show "?reach sample_delivered" using sample_step4 by (rule reach_step)
qed

theorem cluster_accounts_for_every_count_witness:
  "total_in 1000000000 (store_view sample_env (cl_store sample_flushed ''b'') ''k'') +
     outstanding [''a'', ''b''] ''k'' sample_flushed ''b'' =
   (\<Sum>j \<in> set [''a'', ''b'']. gh_applied sample_flushed j)"
  by (rule cluster_accounts_for_every_count [OF _ sample_run(2)]) (simp_all add: permutes_pending_def)

theorem cluster_converges_witness:
  "total_in 1000000000 (store_view sample_env (cl_store sample_delivered ''b'') ''k'') =
   (\<Sum>j \<in> set [''a'', ''b'']. gh_applied sample_delivered j)"
  by (rule cluster_converges [OF _ sample_run(1)])
    (simp_all add: permutes_pending_def sample_defs unsynced_def)

text \<open>A call that finds the window over its limit is blocked at once, and nothing is counted or sent.\<close>

lemma Store_Incr_over_limit:
  assumes ok: "store_ok s" and eff: "effective E threshold window peak = (l, w)"
    and win: "window_is x (store_view E s k)" and within: "within x (c, CIncr k cnt l w)"
    and over: "l <s total_in x (store_view E s k)"
  shows "\<exists>s' c' mgr'. Store_Incr E k cnt threshold window peak s c mgr = Inr (Replied True, s', c', mgr') \<and>
    total_in x (store_view E s' k) = total_in x (store_view E s k) \<and> syncChannel s' = syncChannel s"
proof -
  let ?p = "total_in x (store_view E s k)"
  have p: "\<not> ?p \<le>s l" using over by (simp add: signed_less)
  have "open_window (reading (tick c)) (store_view E s k) (GenExpiry (reading c) w) = (x, ?p)"
    using open_window_within [OF win, of "reading (tick c)"] within by simp
  then have "spec_Incr (reading c) (reading (tick c)) k cnt l w (store_view E s) =
      ((True, x, False), (store_view E s)(k \<mapsto> (x, ?p)))"
    using p over by (simp add: spec_Incr_def signed_less)
  then have r: "fst (bucket_Incr_at E k cnt l w s c) = (True, x, False)"
    "store_view E (fst (snd (bucket_Incr_at E k cnt l w s c))) = (store_view E s)(k \<mapsto> (x, ?p))"
    using bucket_Incr_at_refines [OF ok, of E k cnt l w c] by simp_all
  show ?thesis
    using r Store_Incr_cases [OF ok eff, of k cnt c mgr] bucket_at_frame [of E k cnt l w s c]
    by (simp add: Incr_finish_eq)
qed

text \<open>
  C5: the limit is the cluster's, once it has converged. If the counts of all nodes together are
  above the limit, then on whatever node the next call in the window comes in, it is blocked; it
  is answered without waiting, and neither counted nor sent to anyone.
\<close>

theorem converged_cluster_blocks:
  assumes "permutes_pending ro"
    and "reach (\<lambda>S. cluster_init E ms k S \<and> permutes_pending ro) (cluster_step E ro ms k x) S"
    and "cl_flight S = []" and "\<forall>i \<in> set ms. unsynced S i = []"
    and "\<forall>i \<in> set ms. \<forall>j \<in> set ms. gh_lost S j i = 0" and "i \<in> set ms"
    and "effective E threshold window peak = (l, w)" and "within x (c, CIncr k cnt l w)"
    and "l <s (\<Sum>j \<in> set ms. gh_applied S j)"
  shows "case Store_Incr E k cnt threshold window peak (cl_store S i) c mgr of
      Inl _ \<Rightarrow> False
    | Inr (r, s', _, _) \<Rightarrow>
        r = Replied True \<and> total_in x (store_view E s' k) = (\<Sum>j \<in> set ms. gh_applied S j) \<and>
        syncChannel s' = syncChannel (cl_store S i)"
proof -
  have inv: "cluster_inv E ms k x S" using cluster.reach_inv [OF assms(2)] by blast
  have "outstanding ms k S i = 0"
    using assms(3-6) by (simp add: outstanding_def)
  then have total: "total_in x (store_view E (cl_store S i) k) = (\<Sum>j \<in> set ms. gh_applied S j)"
    using total_outstanding [OF inv assms(6)] by simp
  have "store_ok (cl_store S i)" "window_is x (store_view E (cl_store S i) k)"
    using cluster_invD(1) [OF inv assms(6)] by (simp_all add: node_ok_def)
  from Store_Incr_over_limit [OF this(1) assms(7) this(2) assms(8), of mgr] total assms(9)
  show ?thesis by auto
qed

theorem converged_cluster_blocks_witness:
  "case Store_Incr sample_env ''k'' 1 1 1 False (cl_store sample_delivered ''b'') (UnReal \<lparr>current = 6\<rparr>)
      (None :: string event_manager option) of
     Inl _ \<Rightarrow> False
   | Inr (r, s', _, _) \<Rightarrow> r = Replied True \<and> total_in 1000000000 (store_view sample_env s' ''k'') = 2"
  using converged_cluster_blocks [OF _ sample_run(1), where i = "''b''" and threshold = 1 and window = 1 and peak = False
      and l = 1 and w = 1 and c = "UnReal \<lparr>current = 6\<rparr>" and cnt = 1 and mgr = "None :: string event_manager option"]
  by (simp add: permutes_pending_def sample_defs unsynced_def effective_def GenExpiry_def go_rem64_def signed_less
      split: sum.splits prod.splits)

end
