(* ===== verification/Drain.thy ===== *)
theory Drain
  imports Convergence
begin

text \<open>
  The cluster can always catch up: from every state it can reach, its own steps (waiting calls going
  on, turns of the synchronisers, deliveries) lead to one in which nothing is left to send or on
  its way. A measure on states decreases with every such step.
\<close>

section \<open>The work that is left\<close>

text \<open>
  A waiting command becomes one in the channel, then one in the pending map, and the map a batch for
  every other node; a batch in flight is delivered.
\<close>

definition node_work :: "('tc, 'rp, 'sd) cluster \<Rightarrow> string \<Rightarrow> nat" where
  "node_work S i = 3 * length (cl_waiting S i) + 2 * length (syncChannel (cl_store S i)) +
     (if cl_pending S i = [] then 0 else 1)"

definition work :: "string list \<Rightarrow> ('tc, 'rp, 'sd) cluster \<Rightarrow> nat" where
  "work ms S = (\<Sum>i \<in> set ms. node_work S i)"

lemma work_less:
  assumes "i \<in> set ms" and "node_work S' i < node_work S i" and "\<And>n. n \<noteq> i \<Longrightarrow> node_work S' n = node_work S n"
  shows "work ms S' < work ms S"
proof -
  have "node_work S' n \<le> node_work S n" for n using assms(2) assms(3) [of n] by (cases "n = i") simp_all
  then show ?thesis unfolding work_def by (intro sum_strict_mono_ex1) (use assms(1,2) in auto)
qed

lemma no_work: "work ms S = 0 \<Longrightarrow> i \<in> set ms \<Longrightarrow> unsynced S i = []"
  by (auto simp: work_def node_work_def unsynced_def split: if_splits)

text \<open>What a state needs for this: nothing lost, and the invariant.\<close>

definition drainable :: "env \<Rightarrow> string list \<Rightarrow> key \<Rightarrow> i64 \<Rightarrow> ('tc, 'rp, 'sd) cluster \<Rightarrow> bool" where
  "drainable E ms k x S \<longleftrightarrow>
     cluster_inv E ms k x S \<and>
     (\<forall>i \<in> set ms. \<forall>j \<in> set ms. gh_lost S j i = 0)"

text \<open>One step that reduces the work and keeps the counts.\<close>

definition progress ::
  "env \<Rightarrow> (pending \<Rightarrow> pending) \<Rightarrow> string list \<Rightarrow> key \<Rightarrow> i64 \<Rightarrow>
   ('tc, 'rp, 'sd) cluster \<Rightarrow> ('tc, 'rp, 'sd) cluster \<Rightarrow> bool" where
  "progress E ro ms k x S S' \<longleftrightarrow>
     cluster_step E ro ms k x S S' \<and> drainable E ms k x S' \<and> gh_applied S' = gh_applied S \<and>
     (S', S) \<in> measures [work ms, \<lambda>S. length (cl_flight S)]"

text \<open>A turn of a synchroniser for which all members are reachable loses nothing.\<close>

lemma worker_step_all:
  fixes S :: "('tc, 'rp, 'sd) cluster" and q :: "SyncCommand list" and ro :: "pending \<Rightarrow> pending"
    and ms :: "string list" and k :: key and ev :: sync_event and i :: string
  assumes "store_nodeId (cl_store S i) = i"
  defines "S' \<equiv> worker_step ro ms k (Some (remdups ms)) i ev q S"
  shows "gh_lost S' = gh_lost S" and "gh_applied S' = gh_applied S" and "cl_waiting S' = cl_waiting S"
    and "cl_store S' = (cl_store S)(i := (cl_store S i)\<lparr>syncChannel := q\<rparr>)"
    and "cl_pending S' = (cl_pending S)(i := fst (sync_turn ro (unsyncedCtrLimit (opts (cl_store S i))) (cl_pending S i) ev))"
proof -
  obtain m batch close where t: "sync_turn ro (unsyncedCtrLimit (opts (cl_store S i))) (cl_pending S i) ev = (m, batch, close)"
    by (metis prod_cases3)
  have "fst ` set (map (\<lambda>node. (node, b)) (filter (\<lambda>node. node \<noteq> i) (remdups ms))) = set ms - {i}" for b :: "SyncCommand list"
    by (auto simp: image_image)
  then show "gh_lost S' = gh_lost S"
    unfolding S'_def worker_step_def Let_def t
    by (cases batch) (auto simp: sendSyncCommandToNodes_def assms(1) fun_eq_iff)
  show "gh_applied S' = gh_applied S" "cl_waiting S' = cl_waiting S"
    "cl_store S' = (cl_store S)(i := (cl_store S i)\<lparr>syncChannel := q\<rparr>)"
    "cl_pending S' = (cl_pending S)(i := fst (sync_turn ro (unsyncedCtrLimit (opts (cl_store S i))) (cl_pending S i) ev))"
    unfolding S'_def worker_step_def Let_def t by simp_all
qed

lemma worker_progress:
  assumes d: "drainable E ms k x S" and i: "i \<in> set ms" and w: "\<And>n. n \<noteq> i \<Longrightarrow> w n = cl_waiting S n"
  defines "S0 \<equiv> S\<lparr>cl_waiting := w\<rparr>"
  assumes step: "cluster_step E ro ms k x S (worker_step ro ms k (Some (remdups ms)) i ev q S0)"
    and ro: "permutes_pending ro"
    and less: "node_work (worker_step ro ms k (Some (remdups ms)) i ev q S0) i < node_work S i"
  shows "progress E ro ms k x S (worker_step ro ms k (Some (remdups ms)) i ev q S0)" (is "progress _ _ _ _ _ _ ?S'")
proof -
  have inv: "cluster_inv E ms k x S" using d by (simp add: drainable_def)
  have "store_nodeId (cl_store S0 i) = i" using cluster_invD(1) [OF inv i] by (simp add: node_ok_def S0_def)
  note all = worker_step_all [OF this, of ro ms k ev q]
  have "work ms ?S' < work ms S"
    by (rule work_less [OF i less]) (simp add: node_work_def all, simp add: S0_def w)
  moreover have "drainable E ms k x ?S'"
    using d cluster_step_inv [OF step inv ro] by (simp add: drainable_def all) (simp add: S0_def)
  moreover have "gh_applied ?S' = gh_applied S" by (simp add: all) (simp add: S0_def)
  ultimately show ?thesis using step by (simp add: progress_def)
qed

lemma receive_progress:
  assumes d: "drainable E ms k x S" and i: "i \<in> set ms" and ro: "permutes_pending ro"
    and q: "syncChannel (cl_store S i) = cmd # q"
  shows "\<exists>S'. progress E ro ms k x S S'"
proof -
  let ?S' = "worker_step ro ms k (Some (remdups ms)) i (Received cmd) q S"
  have id: "store_nodeId (cl_store S i) = i"
    using cluster_invD(1) [OF _ i] d by (auto simp: drainable_def node_ok_def)
  have "cluster_step E ro ms k x S ?S'"
    by (rule cluster_step.receive [OF i]) (simp_all add: q chan_recv_def)
  moreover have "node_work ?S' i < node_work S i"
    by (simp add: node_work_def worker_step_all [OF id] q)
  ultimately show ?thesis using worker_progress [OF d i refl, of ro] ro by auto
qed

lemma timer_progress:
  assumes d: "drainable E ms k x S" and i: "i \<in> set ms" and ro: "permutes_pending ro"
    and "cl_pending S i \<noteq> []"
  shows "\<exists>S'. progress E ro ms k x S S'"
proof -
  let ?S' = "worker_step ro ms k (Some (remdups ms)) i TimerFired (syncChannel (cl_store S i)) S"
  have id: "store_nodeId (cl_store S i) = i"
    using cluster_invD(1) [OF _ i] d by (auto simp: drainable_def node_ok_def)
  have "cluster_step E ro ms k x S ?S'"
    by (rule cluster_step.timer [OF i]) simp_all
  moreover have "node_work ?S' i < node_work S i"
    using assms(4) by (simp add: node_work_def worker_step_all [OF id] sync_turn_def)
  ultimately show ?thesis using worker_progress [OF d i refl, of ro] ro by auto
qed

lemma waiting_progress:
  assumes d: "drainable E ms k x S" and i: "i \<in> set ms" and ro: "permutes_pending ro"
    and w: "cl_waiting S i = cmd # ws" and q: "syncChannel (cl_store S i) = []"
  shows "\<exists>S'. progress E ro ms k x S S'"
proof (cases "syncBuffer (opts (cl_store S i)) = 0")
  case True
  define wt where "wt = (cl_waiting S)(i := [] @ ws)"
  let ?S' = "worker_step ro ms k (Some (remdups ms)) i (Received cmd) [] (S\<lparr>cl_waiting := wt\<rparr>)"
  have id: "store_nodeId (cl_store (S\<lparr>cl_waiting := wt\<rparr>) i) = i"
    using cluster_invD(1) [OF _ i] d by (auto simp: drainable_def node_ok_def)
  have "cluster_step E ro ms k x S ?S'"
    unfolding wt_def by (rule cluster_step.hand_over [OF i]) (simp_all add: w q True)
  moreover have "node_work ?S' i < node_work S i"
    by (simp add: node_work_def worker_step_all [OF id] w q) (simp add: wt_def)
  ultimately show ?thesis using worker_progress [OF d i, of wt ro "Received cmd" "[]"] ro by (auto simp: wt_def)
next
  case False
  let ?S' = "S\<lparr>cl_store := (cl_store S)(i := (cl_store S i)\<lparr>syncChannel := [cmd]\<rparr>),
     cl_waiting := (cl_waiting S)(i := [] @ ws)\<rparr>"
  have inv: "cluster_inv E ms k x S" using d by (simp add: drainable_def)
  have step: "cluster_step E ro ms k x S ?S'"
    by (rule cluster_step.room [OF i]) (use assms False in \<open>auto simp: chan_send_def unat_gt_0\<close>)
  have "work ms ?S' < work ms S"
    by (rule work_less [OF i]) (simp_all add: node_work_def assms)
  moreover have "drainable E ms k x ?S'"
    using d cluster_step_inv [OF step inv ro] by (simp add: drainable_def)
  ultimately show ?thesis using step by (auto simp: progress_def)
qed

lemma deliver_progress:
  assumes d: "drainable E ms k x S" and ro: "permutes_pending ro" and fl: "cl_flight S = (j, i, b) # fl"
  shows "\<exists>S'. progress E ro ms k x S S'"
proof -
  have inv: "cluster_inv E ms k x S" using d by (simp add: drainable_def)
  have i: "i \<in> set ms" "of_window k x b"
    using inv fl by (auto simp: cluster_inv_def flight_ok_def)
  then have ok: "store_ok (cl_store S i)" "window_is x (store_view E (cl_store S i) k)"
    using cluster_invD(1) [OF inv] by (auto simp: node_ok_def)
  have clock: "upto_reading x n (UnReal \<lparr>current = x\<rparr>)" for n by (rule upto_reading_frozen) simp
  obtain s' c' where run: "SyncKeys E b (cl_store S i) (UnReal \<lparr>current = x\<rparr>) = Inr (s', c')"
    using SyncKeys_ok [OF ok(1)] by blast
  let ?S' = "S\<lparr>cl_store := (cl_store S)(i := s'), cl_flight := [] @ fl,
     gh_received := (gh_received S)(j := (gh_received S j)(i := gh_received S j i + count_in k b))\<rparr>"
  have step: "cluster_step E ro ms k x S ?S'"
    by (rule cluster_step.deliver [OF _ clock run]) (simp add: fl)
  note res = SyncKeys_total [OF run ok i(2) clock]
  have "work ms ?S' = work ms S"
    unfolding work_def by (rule sum.cong) (auto simp: node_work_def res)
  moreover have "drainable E ms k x ?S'"
    using d cluster_step_inv [OF step inv ro] by (auto simp: drainable_def res)
  ultimately show ?thesis using step by (auto simp: progress_def fl)
qed

lemma progress_or_quiet:
  assumes d: "drainable E ms k x S" and ro: "permutes_pending ro"
    and "\<not> (cl_flight S = [] \<and> (\<forall>i \<in> set ms. unsynced S i = []))"
  shows "\<exists>S'. progress E ro ms k x S S'"
proof (cases "cl_flight S")
  case (Cons f fl)
  then show ?thesis using deliver_progress [OF d ro] by (cases f) blast
next
  case Nil
  then obtain i where i: "i \<in> set ms" "unsynced S i \<noteq> []" using assms(3) by blast
  show ?thesis
  proof (cases "syncChannel (cl_store S i)")
    case (Cons cmd q)
    then show ?thesis by (rule receive_progress [OF d i(1) ro])
  next
    case Nil
    then show ?thesis
      using i(2) timer_progress [OF d i(1) ro] waiting_progress [OF d i(1) ro _ Nil]
      by (cases "cl_waiting S i") (auto simp: unsynced_def)
  qed
qed

lemma drains:
  assumes "drainable E ms k x S" and ro: "permutes_pending ro"
  shows "\<exists>S'. (cluster_step E ro ms k x)\<^sup>*\<^sup>* S S' \<and> drainable E ms k x S' \<and> gh_applied S' = gh_applied S \<and>
    cl_flight S' = [] \<and> (\<forall>i \<in> set ms. unsynced S' i = [])"
  using assms(1)
proof (induction S rule: wf_induct_rule [OF wf_measures [of "[work ms, \<lambda>S. length (cl_flight S)]"]])
  case (1 S)
  show ?case
  proof (cases "cl_flight S = [] \<and> (\<forall>i \<in> set ms. unsynced S i = [])")
    case True
    then show ?thesis using 1(2) by blast
  next
    case False
    from progress_or_quiet [OF 1(2) ro False] obtain S1 where S1: "progress E ro ms k x S S1" by blast
    then have "(S1, S) \<in> measures [work ms, \<lambda>S. length (cl_flight S)]" "drainable E ms k x S1"
      "cluster_step E ro ms k x S S1" "gh_applied S1 = gh_applied S"
      by (simp_all only: progress_def)
    with 1(1) [of S1] show ?thesis by (metis converse_rtranclp_into_rtranclp)
  qed
qed

section \<open>Properties\<close>

text \<open>
  C6: the cluster can always catch up. Whatever has happened, as long as no batch was lost, there
  are steps of the nodes and the network alone,
  without further calls, after which every node has the sum of all counts as its total for the
  key, and nothing is left to send.
\<close>

theorem cluster_can_catch_up:
  assumes "permutes_pending ro"
    and "reach (\<lambda>S. cluster_init E ms k S \<and> permutes_pending ro) (cluster_step E ro ms k x) S"
    and "\<forall>i \<in> set ms. \<forall>j \<in> set ms. gh_lost S j i = 0"
  shows "\<exists>S'. (cluster_step E ro ms k x)\<^sup>*\<^sup>* S S' \<and> gh_applied S' = gh_applied S \<and> cl_flight S' = [] \<and>
    list_all (\<lambda>i. unsynced S' i = [] \<and>
      total_in x (store_view E (cl_store S' i) k) = (\<Sum>j \<in> set ms. gh_applied S j)) ms"
proof -
  have "drainable E ms k x S" using cluster.reach_inv [OF assms(2)] assms(3) by (simp add: drainable_def)
  from drains [OF this assms(1)] obtain S' where
    S': "(cluster_step E ro ms k x)\<^sup>*\<^sup>* S S'" "drainable E ms k x S'" "gh_applied S' = gh_applied S"
      "cl_flight S' = []" "\<forall>i \<in> set ms. unsynced S' i = []" by blast
  have "total_in x (store_view E (cl_store S' i) k) = (\<Sum>j \<in> set ms. gh_applied S j)" if "i \<in> set ms" for i
  proof -
    have "outstanding ms k S' i = 0"
      using S'(2,4,5) that by (simp add: outstanding_def drainable_def)
    then show ?thesis
      using total_outstanding [of E ms k x S' i] S'(2,3) that by (simp add: drainable_def)
  qed
  with S' show ?thesis by (auto simp: list_all_iff)
qed

theorem cluster_can_catch_up_witness:
  "\<exists>S'. sample_step\<^sup>*\<^sup>* sample_flushed S' \<and> cl_flight S' = [] \<and>
    total_in 1000000000 (store_view sample_env (cl_store S' ''b'') ''k'') = 2"
proof -
  have "\<exists>S'. sample_step\<^sup>*\<^sup>* sample_flushed S' \<and> gh_applied S' = gh_applied sample_flushed \<and> cl_flight S' = [] \<and>
    list_all (\<lambda>i. unsynced S' i = [] \<and> total_in 1000000000 (store_view sample_env (cl_store S' i) ''k'') =
      (\<Sum>j \<in> set [''a'', ''b'']. gh_applied sample_flushed j)) [''a'', ''b'']"
    by (rule cluster_can_catch_up [OF _ sample_run(2)])
      (simp_all add: permutes_pending_def sample_defs)
  then show ?thesis by (auto simp: sample_defs)
qed

end
