(* ===== verification/Admission.thy ===== *)
theory Admission
  imports Convergence
begin

text \<open>
  How much a cluster admits. The account of \<open>Convergence\<close> is modulo \<open>2 ^ 32\<close>; here it is made exact for
  calls that share one limit and do not count backwards, by an invariant on the counts read as
  integers (\<open>exact\<close>): no total overflows, so a node's total is at least what it admitted itself.
  From it follow the bound on what all nodes admit together, and the bound of the excess over the
  limit by what has not reached the admitting node.
\<close>

section \<open>Counts as integers\<close>

definition size_in :: "key \<Rightarrow> SyncCommand list \<Rightarrow> int" where
  "size_in k cs = (\<Sum>c\<leftarrow>cs. if sc_Key c = k then sint (sc_Count c) else 0)"

definition nonneg :: "key \<Rightarrow> SyncCommand list \<Rightarrow> bool" where
  "nonneg k cs \<longleftrightarrow> list_all (\<lambda>c. sc_Key c = k \<longrightarrow> 0 \<le> sint (sc_Count c)) cs"

lemma size_in_simps [simp]:
  "size_in k [] = 0"
  "size_in k (c # cs) = (if sc_Key c = k then sint (sc_Count c) else 0) + size_in k cs"
  "size_in k (cs @ ds) = size_in k cs + size_in k ds"
  by (simp_all add: size_in_def)

lemma nonneg_simps [simp]:
  "nonneg k []"
  "nonneg k (c # cs) \<longleftrightarrow> (sc_Key c = k \<longrightarrow> 0 \<le> sint (sc_Count c)) \<and> nonneg k cs"
  "nonneg k (cs @ ds) \<longleftrightarrow> nonneg k cs \<and> nonneg k ds"
  by (simp_all add: nonneg_def)

lemma size_in_nonneg: "nonneg k cs \<Longrightarrow> 0 \<le> size_in k cs"
  by (induction cs) auto

lemma size_in_mset: "mset cs = mset ds \<Longrightarrow> size_in k cs = size_in k ds"
  by (simp add: size_in_def flip: sum_mset_sum_list)

lemma nonneg_mset: "mset cs = mset ds \<Longrightarrow> nonneg k cs = nonneg k ds"
  by (simp add: nonneg_def list_all_iff flip: set_mset_mset)

lemma sint_count_in:
  assumes "nonneg k cs" and "size_in k cs \<le> 2147483647"
  shows "sint (count_in k cs) = size_in k cs"
  using assms
proof (induction cs)
  case (Cons c cs)
  then have "0 \<le> size_in k cs" using size_in_nonneg by simp
  with Cons show ?case by (auto simp: sint32_add)
qed simp

lemma sint_sum:
  fixes f :: "'a \<Rightarrow> i32"
  assumes "finite A" and "\<And>a. a \<in> A \<Longrightarrow> 0 \<le> sint (f a)" and "(\<Sum>a\<in>A. sint (f a)) \<le> 2147483647"
  shows "sint (\<Sum>a\<in>A. f a) = (\<Sum>a\<in>A. sint (f a))"
  using assms
proof (induction A rule: finite_induct)
  case (insert a A)
  have pos: "0 \<le> (\<Sum>a\<in>A. sint (f a))" "0 \<le> sint (f a)"
    using insert.prems(1) by (auto intro: sum_nonneg)
  have le: "sint (f a) + (\<Sum>a\<in>A. sint (f a)) \<le> 2147483647" using insert.prems(2) insert.hyps by simp
  have "(\<Sum>a\<in>A. sint (f a)) \<le> 2147483647" using pos le by linarith
  then have "sint (sum f A) = (\<Sum>a\<in>A. sint (f a))" using insert.IH insert.prems(1) by simp
  then show ?case using sint32_add [of "f a" "sum f A"] insert.hyps pos le by simp
qed simp

text \<open>What the commands of one node are worth does not change by aggregating them.\<close>

lemma aggregate_size:
  assumes "filed m" and "\<forall>c \<in> snd ` set m. sc_Key c = k \<longrightarrow> sc_Expiry c = x"
    and "sc_Key sCmd = k \<Longrightarrow> sc_Expiry sCmd = x"
    and "nonneg k (sCmd # map snd m)" and "size_in k (sCmd # map snd m) \<le> 2147483647"
  shows "size_in k (map snd (aggregate sCmd m)) = size_in k (sCmd # map snd m)"
    and "nonneg k (map snd (aggregate sCmd m))"
proof -
  let ?m = "aggregate sCmd m"
  have one: "size_in k (map snd m) = (case map_of m k of None \<Rightarrow> 0 | Some c \<Rightarrow> sint (sc_Count c))"
    if "filed m" for m
    using that
  proof (induction m)
    case (Cons kc m)
    obtain k' c where kc: "kc = (k', c)" by (cases kc)
    have "filed m" and "map_of m k' = None"
      using Cons.prems kc by (simp_all add: filed_def map_of_eq_None_iff)
    then show ?case using Cons.IH Cons.prems kc by (auto simp: filed_def)
  qed simp
  have cnt: "sint (count_in k (sCmd # map snd m)) = size_in k (sCmd # map snd m)"
    by (rule sint_count_in [OF assms(4,5)])
  have eq: "count_in k (map snd ?m) = count_in k (sCmd # map snd m)"
    by (rule count_in_aggregate [OF assms(1-3)])
  have f: "filed ?m" by (rule filed_aggregate [OF assms(1)])
  have "sint (count_in k (map snd ?m)) = size_in k (map snd ?m)"
    by (simp add: count_in_pending [OF f] one [OF f] split: option.split)
  then show size: "size_in k (map snd ?m) = size_in k (sCmd # map snd m)" using eq cnt by simp
  show "nonneg k (map snd ?m)"
    unfolding nonneg_def list_all_iff
  proof (intro ballI impI)
    fix c assume c: "c \<in> set (map snd ?m)" "sc_Key c = k"
    then obtain a where a: "(a, c) \<in> set ?m" by auto
    then have "map_of ?m k = Some c" using f c(2) by (auto simp: filed_def)
    then have "size_in k (map snd ?m) = sint (sc_Count c)" by (simp add: one [OF f])
    then show "0 \<le> sint (sc_Count c)" using size size_in_nonneg [OF assms(4)] by simp
  qed
qed

lemma turn_size:
  assumes "permutes_pending ro" and "sync_turn ro ctrLimit m ev = (m', batch, close)"
    and "filed m" and "of_window k x (map snd m @ arriving ev)"
    and "nonneg k (map snd m @ arriving ev)" and "size_in k (map snd m @ arriving ev) \<le> 2147483647"
  defines "b \<equiv> (case batch of None \<Rightarrow> [] | Some b \<Rightarrow> b)"
  shows "size_in k (map snd m' @ b) = size_in k (map snd m @ arriving ev)" and "nonneg k (map snd m' @ b)"
proof -
  have split: "mset (map snd m' @ b) = mset (map snd (next_pending m ev))"
    unfolding b_def by (rule turn_splits [OF assms(1,2)])
  have "size_in k (map snd (next_pending m ev)) = size_in k (map snd m @ arriving ev) \<and>
      nonneg k (map snd (next_pending m ev))"
  proof (cases ev)
    case (Received c)
    then show ?thesis
      using aggregate_size [OF assms(3), of k x c] assms(4-6) by (simp add: next_pending_def of_window_iff)
  qed (use assms(5) in \<open>simp_all add: next_pending_def\<close>)
  then show "size_in k (map snd m' @ b) = size_in k (map snd m @ arriving ev)" and "nonneg k (map snd m' @ b)"
    using size_in_mset [OF split, of k] nonneg_mset [OF split, of k] by simp_all
qed

section \<open>An exact account\<close>

definition carried :: "key \<Rightarrow> (string \<times> string \<times> SyncCommand list) list \<Rightarrow> string \<Rightarrow> string \<Rightarrow> int" where
  "carried k fl j i = (\<Sum>(a, b, cs)\<leftarrow>fl. if a = j \<and> b = i then size_in k cs else 0)"

lemma carried_simps [simp]:
  "carried k [] j i = 0"
  "carried k ((a, b, cs) # fl) j i = (if a = j \<and> b = i then size_in k cs else 0) + carried k fl j i"
  "carried k (fl @ fl') j i = carried k fl j i + carried k fl' j i"
  by (simp_all add: carried_def)

definition flight_nonneg :: "key \<Rightarrow> (string \<times> string \<times> SyncCommand list) list \<Rightarrow> bool" where
  "flight_nonneg k fl \<longleftrightarrow> list_all (\<lambda>(_, _, b). nonneg k b) fl"

lemma flight_nonneg_simps [simp]:
  "flight_nonneg k []"
  "flight_nonneg k ((a, b, cs) # fl) \<longleftrightarrow> nonneg k cs \<and> flight_nonneg k fl"
  "flight_nonneg k (fl @ fl') \<longleftrightarrow> flight_nonneg k fl \<and> flight_nonneg k fl'"
  by (simp_all add: flight_nonneg_def)

lemma carried_nonneg: "flight_nonneg k fl \<Longrightarrow> 0 \<le> carried k fl j i"
  by (induction fl) (auto simp: size_in_nonneg)

text \<open>
  The counts of a node, as integers: at most \<open>B\<close>, and what each other node received, what was lost
  on the way, what is on the way and what is still with the node add up to them.
\<close>

definition exact_node :: "int \<Rightarrow> key \<Rightarrow> ('tc, 'rp, 'sd) cluster \<Rightarrow> string \<Rightarrow> bool" where
  "exact_node B k S i \<longleftrightarrow>
     0 \<le> sint (gh_applied S i) \<and> sint (gh_applied S i) \<le> B \<and> nonneg k (unsynced S i) \<and>
     size_in k (unsynced S i) \<le> sint (gh_applied S i)"

definition exact_pair :: "key \<Rightarrow> ('tc, 'rp, 'sd) cluster \<Rightarrow> string \<Rightarrow> string \<Rightarrow> bool" where
  "exact_pair k S j i \<longleftrightarrow>
     0 \<le> sint (gh_received S j i) \<and> 0 \<le> sint (gh_lost S j i) \<and>
     sint (gh_applied S j) = sint (gh_received S j i) + sint (gh_lost S j i) +
       carried k (cl_flight S) j i + size_in k (unsynced S j)"

definition exact :: "int \<Rightarrow> string list \<Rightarrow> key \<Rightarrow> ('tc, 'rp, 'sd) cluster \<Rightarrow> bool" where
  "exact B ms k S \<longleftrightarrow>
     (\<forall>i \<in> set ms. exact_node B k S i \<and> (\<forall>j \<in> set ms. j \<noteq> i \<longrightarrow> exact_pair k S j i)) \<and>
     flight_nonneg k (cl_flight S)"

lemma exactD:
  assumes "exact B ms k S" and "i \<in> set ms"
  shows "exact_node B k S i" and "\<And>j. j \<in> set ms \<Longrightarrow> j \<noteq> i \<Longrightarrow> exact_pair k S j i"
  using assms by (simp_all add: exact_def)

lemma exact_init: "cluster_init E ms k S \<Longrightarrow> 0 \<le> B \<Longrightarrow> exact B ms k S"
  by (simp add: cluster_init_def exact_def exact_node_def exact_pair_def)

lemma exact_local:
  assumes ex: "exact B ms k S"
    and same: "cl_flight S' = cl_flight S" "gh_received S' = gh_received S" "gh_lost S' = gh_lost S"
    and others: "\<And>n. n \<noteq> i \<Longrightarrow> gh_applied S' n = gh_applied S n \<and> unsynced S' n = unsynced S n"
    and node: "nonneg k (unsynced S' i)" "sint (gh_applied S' i) \<le> B"
    and gain: "0 \<le> d" "sint (gh_applied S' i) = sint (gh_applied S i) + d"
      "size_in k (unsynced S' i) = size_in k (unsynced S i) + d"
  shows "exact B ms k S'"
proof -
  have "exact_node B k S' n" if "n \<in> set ms" for n
    using exactD(1) [OF ex that] others [of n] node gain by (cases "n = i") (simp_all add: exact_node_def)
  moreover have "exact_pair k S' j n" if "n \<in> set ms" "j \<in> set ms" "j \<noteq> n" for j n
    using exactD(2) [OF ex that] others [of j] gain same by (cases "j = i") (simp_all add: exact_pair_def)
  ultimately show ?thesis using ex same by (simp add: exact_def)
qed

lemma exact_room:
  assumes ex: "exact B ms k S" and i: "i \<in> set ms" and wait: "cl_waiting S i = ws @ cmd # ws'"
  shows "exact B ms k
       (S\<lparr>cl_store := (cl_store S)(i := (cl_store S i)\<lparr>syncChannel := syncChannel (cl_store S i) @ [cmd]\<rparr>),
          cl_waiting := (cl_waiting S)(i := ws @ ws')\<rparr>)"
  by (rule exact_local [OF ex, where d = 0 and i = i])
    (use exactD(1) [OF ex i] wait in \<open>auto simp: exact_node_def unsynced_def\<close>)

lemma exact_worker:
  assumes ex: "exact B ms k S" and inv: "cluster_inv E ms k x S" and i: "i \<in> set ms"
    and ro: "permutes_pending ro" and B: "B \<le> 2147483647"
    and reach: "distinct (case reachable of None \<Rightarrow> [] | Some ns \<Rightarrow> ns)"
    and ev: "arriving ev @ q = syncChannel (cl_store S i)"
  shows "exact B ms k (worker_step ro ms k reachable i ev q S)"
proof -
  let ?s = "cl_store S i"
  let ?S' = "worker_step ro ms k reachable i ev q S"
  obtain m batch close where t: "sync_turn ro (unsyncedCtrLimit (opts ?s)) (cl_pending S i) ev = (m, batch, close)"
    by (metis prod_cases3)
  define b where "b = (case batch of None \<Rightarrow> [] | Some b \<Rightarrow> b)"
  define nodes where "nodes = (case batch of None \<Rightarrow> [] | Some _ \<Rightarrow>
    filter (\<lambda>n. n \<noteq> i) (case reachable of None \<Rightarrow> [] | Some ns \<Rightarrow> ns))"
  have ok: "node_ok E ms k x S i" by (rule cluster_invD [OF inv i])
  then have id: "store_nodeId ?s = i" and fil: "filed (cl_pending S i)" by (simp_all add: node_ok_def)
  have sent: "(case batch of
              None \<Rightarrow> []
            | Some b \<Rightarrow> (case sendSyncCommandToNodes reachable b ?s of None \<Rightarrow> [] | Some l \<Rightarrow> l)) =
      map (\<lambda>n. (n, b)) nodes"
    by (simp add: nodes_def b_def sendSyncCommandToNodes_def id split: option.splits)
  have img: "fst ` set (map (\<lambda>n. (n, b)) nodes) = set nodes" by (simp add: image_image)
  have nodes: "distinct nodes"
    using reach by (auto simp: nodes_def split: option.splits)
  have S': "?S' = S\<lparr>cl_store := (cl_store S)(i := ?s\<lparr>syncChannel := q\<rparr>),
           cl_pending := (cl_pending S)(i := m),
           cl_flight := map (\<lambda>(n, b). (i, n, b)) (map (\<lambda>n. (n, b)) nodes) @ cl_flight S,
           gh_lost := (gh_lost S)(i := (\<lambda>n. gh_lost S i n +
             (if n \<in> set ms - {i} - set nodes then count_in k b else 0)))\<rparr>"
    unfolding worker_step_def Let_def t prod.case sent b_def [symmetric] img ..
  have en: "exact_node B k S i" by (rule exactD [OF ex i])
  have chan: "syncChannel ?s = arriving ev @ q" by (simp add: ev)
  have held: "nonneg k (map snd (cl_pending S i) @ arriving ev)"
      "of_window k x (map snd (cl_pending S i) @ arriving ev)"
    using en ok by (simp_all add: exact_node_def node_ok_def unsynced_def chan)
  have sizes: "size_in k (unsynced S i) = size_in k (cl_waiting S i) + size_in k q +
      size_in k (map snd (cl_pending S i) @ arriving ev)" "nonneg k (cl_waiting S i)" "nonneg k q"
    using en by (simp_all add: exact_node_def unsynced_def chan)
  have "size_in k (map snd (cl_pending S i) @ arriving ev) \<le> 2147483647"
    using en B sizes size_in_nonneg [OF sizes(2)] size_in_nonneg [OF sizes(3)] by (simp add: exact_node_def)
  note turn = turn_size [OF ro t fil held(2,1) this, folded b_def]
  have uns: "size_in k (unsynced S i) = size_in k (unsynced ?S' i) + size_in k b" "nonneg k (unsynced ?S' i)"
    and b: "nonneg k b"
    using turn sizes by (simp_all add: unsynced_def S')
  have b_le: "0 \<le> size_in k b" "size_in k b + size_in k (unsynced ?S' i) \<le> B"
    using uns en size_in_nonneg [OF b] by (simp_all add: exact_node_def)
  have cnt: "sint (count_in k b) = size_in k b"
    by (rule sint_count_in [OF b]) (use b_le B size_in_nonneg [OF uns(2)] in simp)
  have others: "unsynced ?S' n = unsynced S n" if "n \<noteq> i" for n
    using that by (simp add: S' unsynced_def)
  have app: "gh_applied ?S' = gh_applied S" "gh_received ?S' = gh_received S" by (simp_all add: S')
  have fly: "carried k (cl_flight ?S') j n =
      (if j = i \<and> n \<in> set nodes then size_in k b else 0) + carried k (cl_flight S) j n" for j n
    using nodes unfolding S' by (simp, induction nodes) auto
  have "exact_node B k ?S' n" if "n \<in> set ms" for n
    using exactD(1) [OF ex that] others [of n] uns b_le en
    by (cases "n = i") (simp_all add: exact_node_def app)
  moreover have "exact_pair k ?S' j n" if n: "n \<in> set ms" "j \<in> set ms" "j \<noteq> n" for j n
  proof (cases "j = i")
    case False
    then show ?thesis
      using exactD(2) [OF ex n] others [of j] fly [of j n] by (simp add: exact_pair_def app) (simp add: S')
  next
    case True
    have ep: "exact_pair k S i n" using exactD(2) [OF ex n] True by simp
    have "0 \<le> carried k (cl_flight S) i n" using ex by (simp add: exact_def carried_nonneg)
    then have "sint (gh_lost S i n + count_in k b) = sint (gh_lost S i n) + size_in k b"
      using ep en uns b_le B size_in_nonneg [OF uns(2)] cnt
      by (subst sint32_add) (simp_all add: exact_pair_def exact_node_def)
    then have lost: "sint (gh_lost ?S' i n) = sint (gh_lost S i n) + (if n \<in> set nodes then 0 else size_in k b)"
      using n True by (simp add: S')
    show ?thesis
      using ep fly [of i n] uns(1) b_le(1) lost True by (simp add: exact_pair_def app)
  qed
  moreover have "flight_nonneg k (cl_flight ?S')"
    using ex b by (auto simp: exact_def S' flight_nonneg_def list_all_iff)
  ultimately show ?thesis by (simp add: exact_def)
qed

text \<open>A batch that leaves the network is received or lost.\<close>

lemma exact_arrival:
  assumes ex: "exact B ms k S" and B: "B \<le> 2147483647" and fo: "flight_ok ms k x (cl_flight S)"
    and fl: "cl_flight S = fl @ (j, i, b) # fl'"
    and same: "gh_applied S' = gh_applied S" "\<And>n. unsynced S' n = unsynced S n" "cl_flight S' = fl @ fl'"
    and gain: "(gh_received S' = (gh_received S)(j := (gh_received S j)(i := gh_received S j i + count_in k b)) \<and>
        gh_lost S' = gh_lost S) \<or>
      (gh_lost S' = (gh_lost S)(j := (gh_lost S j)(i := gh_lost S j i + count_in k b)) \<and>
        gh_received S' = gh_received S)"
  shows "exact B ms k S'"
proof -
  have ji: "j \<in> set ms" "i \<in> set ms" "j \<noteq> i" using fo fl by (auto simp: flight_ok_def)
  have b: "nonneg k b" "flight_nonneg k (fl @ fl')" using ex fl by (simp_all add: exact_def)
  have ep: "exact_pair k S j i" by (rule exactD(2) [OF ex ji(2,1,3)])
  have en: "exact_node B k S j" by (rule exactD(1) [OF ex ji(1)])
  have "0 \<le> carried k (fl @ fl') j i" using b(2) by (rule carried_nonneg)
  then have le: "sint (gh_received S j i) + sint (gh_lost S j i) + size_in k b \<le> 2147483647"
    using ep en B size_in_nonneg [of k "unsynced S j"] by (simp add: exact_pair_def exact_node_def fl)
  have pos: "0 \<le> size_in k b" "0 \<le> sint (gh_received S j i)" "0 \<le> sint (gh_lost S j i)"
    using ep size_in_nonneg [OF b(1)] by (simp_all add: exact_pair_def)
  have cnt: "sint (count_in k b) = size_in k b" by (rule sint_count_in [OF b(1)]) (use le pos in simp)
  have add: "sint (gh_received S j i + count_in k b) = sint (gh_received S j i) + size_in k b"
    "sint (gh_lost S j i + count_in k b) = sint (gh_lost S j i) + size_in k b"
    using le pos cnt by (subst sint32_add; simp)+
  have "exact_pair k S' a n" if "n \<in> set ms" "a \<in> set ms" "a \<noteq> n" for a n
    using gain exactD(2) [OF ex that] add pos
    by (cases "a = j \<and> n = i") (auto simp: exact_pair_def same fl)
  moreover have "exact_node B k S' n" if "n \<in> set ms" for n
    using exactD(1) [OF ex that] by (simp add: exact_node_def same)
  ultimately show ?thesis using b(2) by (simp add: exact_def same)
qed

lemma exact_same:
  assumes "exact B ms k S" and "cl_flight S' = cl_flight S" "gh_received S' = gh_received S" "gh_lost S' = gh_lost S"
    and "gh_applied S' = gh_applied S" "\<And>n. unsynced S' n = unsynced S n"
  shows "exact B ms k S'"
  using assms by (simp add: exact_def exact_node_def exact_pair_def)

text \<open>The command a call queues, if it counted.\<close>

definition queued :: "('tc, 'rp, 'sd) store \<Rightarrow> ('tc, 'rp, 'sd) store \<Rightarrow> reply \<Rightarrow> SyncCommand list" where
  "queued s s' r = drop (length (syncChannel s)) (syncChannel s') @ still_waiting r"

lemma queued_eq:
  assumes "syncChannel s' @ still_waiting r = syncChannel s @ new" and "length (syncChannel s) \<le> length (syncChannel s')"
  shows "queued s s' r = new"
proof -
  have "queued s s' r = drop (length (syncChannel s)) (syncChannel s' @ still_waiting r)"
    using assms(2) by (simp add: queued_def)
  then show ?thesis by (simp only: assms(1)) simp
qed

lemma exact_call:
  assumes ex: "exact B ms k S" and i: "i \<in> set ms" and B: "B \<le> 2147483647"
    and chan: "syncChannel s' @ still_waiting r = syncChannel (cl_store S i) @ new"
    and new: "nonneg k new" "sint (gh_applied S i) + size_in k new \<le> B"
  shows "exact B ms k
       (S\<lparr>cl_store := (cl_store S)(i := s'),
          cl_waiting := (cl_waiting S)(i := still_waiting r @ cl_waiting S i),
          gh_applied := (gh_applied S)(i := gh_applied S i + count_in k new)\<rparr>)" (is "exact B ms k ?S'")
proof -
  have en: "exact_node B k S i" by (rule exactD(1) [OF ex i])
  have d: "0 \<le> size_in k new" using new(1) by (rule size_in_nonneg)
  have "sint (count_in k new) = size_in k new"
    by (rule sint_count_in [OF new(1)]) (use new(2) B en in \<open>simp add: exact_node_def\<close>)
  then have add: "sint (gh_applied S i + count_in k new) = sint (gh_applied S i) + size_in k new"
    using new(2) B d en by (subst sint32_add) (simp_all add: exact_node_def)
  have size: "size_in k (syncChannel s') + size_in k (still_waiting r) = size_in k (syncChannel (cl_store S i)) + size_in k new"
    using arg_cong [OF chan, of "size_in k"] by simp
  have "nonneg k (syncChannel s' @ still_waiting r)"
    unfolding chan using en new(1) by (simp add: exact_node_def unsynced_def)
  then have non: "nonneg k (unsynced ?S' i)" using en by (simp add: exact_node_def unsynced_def)
  show ?thesis
    by (rule exact_local [OF ex, where i = i and d = "size_in k new"])
      (use non d new(2) add size in \<open>simp_all add: unsynced_def\<close>)
qed

section \<open>What calls admit\<close>

fun admits :: "reply \<Rightarrow> bool" where
  "admits (Replied blocked) = (\<not> blocked)"
| "admits (WaitingToSync _ blocked) = (\<not> blocked)"

text \<open>
  The cluster with what every node has admitted on \<open>k\<close> in the window. Calls on \<open>k\<close> all carry the
  limit \<open>L\<close> and a count of 0 to \<open>N\<close>; the other steps are those of the cluster that count nothing
  on \<open>k\<close>, calls on other keys among them.
\<close>

inductive admission_step ::
  "env \<Rightarrow> (pending \<Rightarrow> pending) \<Rightarrow> string list \<Rightarrow> key \<Rightarrow> i64 \<Rightarrow> i32 \<Rightarrow> int \<Rightarrow>
   ('tc, 'rp, 'sd) cluster \<times> (string \<Rightarrow> int) \<Rightarrow> ('tc, 'rp, 'sd) cluster \<times> (string \<Rightarrow> int) \<Rightarrow> bool"
  for E ro ms k x L N where
  limited_call:
    "i \<in> set ms \<Longrightarrow> effective E threshold window peak = (L, w) \<Longrightarrow> within x (c, CIncr k cnt L w) \<Longrightarrow>
     0 \<le> sint cnt \<Longrightarrow> sint cnt \<le> N \<Longrightarrow>
     Store_Incr E k cnt threshold window peak (cl_store S i) c (mgr :: string event_manager option) =
       Inr (r, s', c', mgr') \<Longrightarrow>
     admission_step E ro ms k x L N (S, adm)
       (S\<lparr>cl_store := (cl_store S)(i := s'),
          cl_waiting := (cl_waiting S)(i := still_waiting r @ cl_waiting S i),
          gh_applied := (gh_applied S)(i := gh_applied S i + count_in k (queued (cl_store S i) s' r))\<rparr>,
        adm(i := adm i + (if admits r then sint cnt else 0)))"
| counts_nothing:
    "cluster_step E ro ms k x S S' \<Longrightarrow> gh_applied S' = gh_applied S \<Longrightarrow>
     admission_step E ro ms k x L N (S, adm) (S', adm)"

text \<open>Both are steps of the cluster.\<close>

lemma admission_is_cluster_step:
  "admission_step E ro ms k x L N T T' \<Longrightarrow> cluster_step E ro ms k x (fst T) (fst T')"
proof (induction rule: admission_step.induct)
  case (limited_call i threshold window peak w c cnt S mgr r s' c' mgr' adm)
  have "cluster_step E ro ms k x S
      (S\<lparr>cl_store := (cl_store S)(i := s'),
         cl_waiting := (cl_waiting S)(i := still_waiting r @ cl_waiting S i),
         gh_applied := (gh_applied S)(i := gh_applied S i + count_in k
           (drop (length (syncChannel (cl_store S i))) (syncChannel s') @ still_waiting r))\<rparr>)"
    by (rule cluster_step.call [OF limited_call(1,2) _ limited_call(6)]) (rule limited_call(3))
  then show ?case by (simp add: queued_def)
qed simp

lemma call_queues:
  assumes "store_ok s" and "effective E threshold window peak = (l, w)"
    and "Store_Incr E key cnt threshold window peak s c mgr = Inr (r, s', c', mgr')"
  obtains y f where "syncChannel s' @ still_waiting r = syncChannel s @ queued s s' r"
    and "queued s s' r = [] \<or> queued s s' r = [\<lparr>sc_Key = key, sc_Count = cnt, sc_Expiry = y, sc_Force = f\<rparr>]"
proof -
  obtain blocked y dosync where out: "fst (bucket_Incr_at E key cnt l w s c) = (blocked, y, dosync)"
    by (metis prod_cases3)
  let ?new = "if \<not> blocked \<or> dosync
     then [\<lparr>sc_Key = key, sc_Count = cnt, sc_Expiry = y, sc_Force = dosync\<rparr>] else []"
  note res = Store_Incr_result [OF assms]
  have chan: "syncChannel s' @ still_waiting r = syncChannel s @ ?new" using res(5) out by simp
  have "queued s s' r = ?new" by (rule queued_eq [OF chan res(6)])
  with chan show thesis by (intro that [of y dosync]) (auto split: if_splits)
qed

lemma Incr_in_window:
  assumes ok: "store_ok s" and eff: "effective E threshold window peak = (l, w)"
    and run: "Store_Incr E k cnt threshold window peak s c mgr = Inr (r, s', c', mgr')"
    and win: "window_is x (store_view E s k)" "within x (c, CIncr k cnt l w)"
  defines "p \<equiv> total_in x (store_view E s k)"
  shows "admits r \<longleftrightarrow> p \<le>s l \<and> p + cnt \<le>s l"
    and "size_in k (queued s s' r) = (if p \<le>s l then sint cnt else 0)"
    and "nonneg k (queued s s' r) \<longleftrightarrow> (p \<le>s l \<longrightarrow> 0 \<le> sint cnt)"
proof -
  let ?q = "if p \<le>s l then p + cnt else p"
  have out: "fst (bucket_Incr_at E k cnt l w s c) = (l <s ?q, x, l <s ?q \<and> p <s ?q)"
    using store.incr_within(1) [OF ok win] by (simp add: p_def)
  have "admits r \<longleftrightarrow> \<not> l <s ?q"
    using run Store_Incr_cases [OF ok eff, of k cnt c mgr] out by (auto simp: Incr_finish_eq split: if_splits)
  then show "admits r \<longleftrightarrow> p \<le>s l \<and> p + cnt \<le>s l" by (auto simp: signed_less split: if_splits)
  note res = Store_Incr_result [OF ok eff run]
  have "syncChannel s' @ still_waiting r = syncChannel s @
      (if p \<le>s l then [\<lparr>sc_Key = k, sc_Count = cnt, sc_Expiry = x, sc_Force = l <s ?q \<and> p <s ?q\<rparr>] else [])"
    using res(5) out by (auto simp: signed_less split: if_splits)
  from queued_eq [OF this res(6)]
  show "size_in k (queued s s' r) = (if p \<le>s l then sint cnt else 0)"
    and "nonneg k (queued s s' r) \<longleftrightarrow> (p \<le>s l \<longrightarrow> 0 \<le> sint cnt)" by simp_all
qed

text \<open>Totals as integers: what a node counted and what it received.\<close>

definition room_for_all :: "string list \<Rightarrow> i32 \<Rightarrow> int \<Rightarrow> bool" where
  "room_for_all ms L N \<longleftrightarrow>
     0 \<le> sint L \<and> 0 \<le> N \<and> ms \<noteq> [] \<and> int (card (set ms)) * (sint L + N) \<le> 2147483647"

lemma room_for_allD:
  assumes "room_for_all ms L N"
  shows "0 \<le> sint L" and "0 \<le> N" and "sint L + N \<le> 2147483647"
proof -
  have "0 < card (set ms)" using assms by (simp add: room_for_all_def card_gt_0_iff)
  then have "1 * (sint L + N) \<le> int (card (set ms)) * (sint L + N)"
    using assms unfolding room_for_all_def by (intro mult_right_mono) linarith+
  then show "0 \<le> sint L" and "0 \<le> N" and "sint L + N \<le> 2147483647" using assms by (simp_all add: room_for_all_def)
qed

lemma exact_total:
  assumes inv: "cluster_inv E ms k x S" and ex: "exact (sint L + N) ms k S" and room: "room_for_all ms L N"
    and i: "i \<in> set ms"
  shows "sint (total_in x (store_view E (cl_store S i) k)) =
      sint (gh_applied S i) + (\<Sum>j \<in> set ms - {i}. sint (gh_received S j i))"
    and "sint (gh_applied S i) \<le> sint (total_in x (store_view E (cl_store S i) k))"
proof -
  let ?B = "sint L + N" and ?n = "card (set ms)"
  have rec: "0 \<le> sint (gh_received S j i) \<and> sint (gh_received S j i) \<le> ?B" if j: "j \<in> set ms - {i}" for j
  proof -
    have "exact_pair k S j i" "exact_node ?B k S j" using exactD [OF ex] i j by auto
    moreover have "0 \<le> carried k (cl_flight S) j i" using ex by (simp add: exact_def carried_nonneg)
    ultimately show ?thesis
      using size_in_nonneg [of k "unsynced S j"] by (auto simp: exact_pair_def exact_node_def)
  qed
  have node: "0 \<le> sint (gh_applied S i)" "sint (gh_applied S i) \<le> ?B"
    using exactD(1) [OF ex i] by (simp_all add: exact_node_def)
  have "(\<Sum>j \<in> set ms - {i}. sint (gh_received S j i)) \<le> of_nat (card (set ms - {i})) * ?B"
    using rec by (intro sum_bounded_above) blast
  moreover have card: "?n = Suc (card (set ms - {i}))" using card_Suc_Diff1 [OF finite_set i] by simp
  ultimately have le: "?B + (\<Sum>j \<in> set ms - {i}. sint (gh_received S j i)) \<le> int ?n * ?B"
    by (simp add: card algebra_simps)
  have big: "int ?n * ?B \<le> 2147483647" using room by (simp add: room_for_all_def)
  have pos: "0 \<le> (\<Sum>j \<in> set ms - {i}. sint (gh_received S j i))" using rec by (intro sum_nonneg) blast
  have "sint (\<Sum>j \<in> set ms - {i}. gh_received S j i) = (\<Sum>j \<in> set ms - {i}. sint (gh_received S j i))"
  proof (rule sint_sum)
    show "(\<Sum>j \<in> set ms - {i}. sint (gh_received S j i)) \<le> 2147483647" using le big node by linarith
  qed (use rec in auto)
  moreover have "total_in x (store_view E (cl_store S i) k) =
      gh_applied S i + (\<Sum>j \<in> set ms - {i}. gh_received S j i)"
    using cluster_invD(1) [OF inv i] by (simp add: node_ok_def)
  ultimately show eq: "sint (total_in x (store_view E (cl_store S i) k)) =
      sint (gh_applied S i) + (\<Sum>j \<in> set ms - {i}. sint (gh_received S j i))"
    using node pos le big sint32_add [of "gh_applied S i" "\<Sum>j \<in> set ms - {i}. gh_received S j i"] by simp
  show "sint (gh_applied S i) \<le> sint (total_in x (store_view E (cl_store S i) k))"
    using eq pos by simp
qed

definition admission_inv ::
  "env \<Rightarrow> string list \<Rightarrow> key \<Rightarrow> i64 \<Rightarrow> i32 \<Rightarrow> int \<Rightarrow> ('tc, 'rp, 'sd) cluster \<times> (string \<Rightarrow> int) \<Rightarrow> bool" where
  "admission_inv E ms k x L N T \<longleftrightarrow>
     (case T of (S, adm) \<Rightarrow>
        cluster_inv E ms k x S \<and> exact (sint L + N) ms k S \<and>
        (\<forall>i \<in> set ms. 0 \<le> adm i \<and> adm i \<le> sint L \<and> adm i \<le> sint (gh_applied S i)))"

lemma exact_step:
  assumes "cluster_step E ro ms k x S S'" and "gh_applied S' = gh_applied S"
    and inv: "cluster_inv E ms k x S" and ex: "exact B ms k S" and ro: "permutes_pending ro"
    and B: "B \<le> 2147483647"
  shows "exact B ms k S'"
  using assms(1)
proof cases
  case (call i threshold window peak l w key c cnt mgr r s' c' mgr')
  have ok: "store_ok (cl_store S i)" using cluster_invD(1) [OF inv call(2)] by (simp add: node_ok_def)
  let ?new = "queued (cl_store S i) s' r"
  obtain y f where q: "syncChannel s' @ still_waiting r = syncChannel (cl_store S i) @ ?new"
      "?new = [] \<or> ?new = [\<lparr>sc_Key = key, sc_Count = cnt, sc_Expiry = y, sc_Force = f\<rparr>]"
    by (rule call_queues [OF ok call(3,5)])
  have "gh_applied S i + count_in k ?new = gh_applied S i"
    using fun_cong [OF assms(2), of i] by (simp add: call(1) flip: queued_def)
  then have new: "nonneg k ?new" "size_in k ?new = 0" using q(2) by (auto split: if_splits)
  have "sint (gh_applied S i) \<le> B" using exactD(1) [OF ex call(2)] by (simp add: exact_node_def)
  then show ?thesis
    unfolding call(1) by (fold queued_def) (rule exact_call [OF ex call(2) B q(1) new(1)], simp add: new(2))
next
  case (room i ws cmd ws' q)
  then show ?thesis using exact_room [OF ex room(2,3)] go_chan.send_Some [OF room(4)] by simp
next
  case (receive i reachable cmd q)
  then have "arriving (Received cmd) @ q = syncChannel (cl_store S i)"
    using go_chan.recv_Some [OF receive(5)] by simp
  then show ?thesis using exact_worker [OF ex inv receive(2) ro B receive(4)] receive(1) by blast
next
  case (hand_over i reachable ws cmd ws')
  show ?thesis
    unfolding hand_over(1) hand_over_as_receive
    by (rule exact_worker [OF exact_room [OF ex hand_over(2,5)] moved_inv [OF inv hand_over(2,5)] hand_over(2) ro B hand_over(4)])
      (simp add: hand_over(7))
next
  case (timer i reachable)
  have "arriving TimerFired @ syncChannel (cl_store S i) = syncChannel (cl_store S i)" by simp
  then show ?thesis using exact_worker [OF ex inv timer(2) ro B timer(4)] timer(1) by blast
next
  case (deliver fl j i b fl' c s' c')
  have fo: "flight_ok ms k x (cl_flight S)" using inv by (simp add: cluster_inv_def)
  then have "i \<in> set ms" "of_window k x b" using deliver(2) by (simp_all add: flight_ok_def)
  then have node: "store_ok (cl_store S i)" "window_is x (store_view E (cl_store S i) k)"
    using cluster_invD(1) [OF inv] by (simp_all add: node_ok_def)
  note chan = SyncKeys_total(5) [OF deliver(4) node \<open>of_window k x b\<close> deliver(3)]
  show ?thesis
    by (rule exact_arrival [OF ex B fo deliver(2)]) (simp_all add: deliver(1) unsynced_def chan)
next
  case (lose fl j i b fl')
  have fo: "flight_ok ms k x (cl_flight S)" using inv by (simp add: cluster_inv_def)
  show ?thesis by (rule exact_arrival [OF ex B fo lose(2)]) (simp_all add: lose(1) unsynced_def)
next
  case (collect i ord c)
  show ?thesis
    by (rule exact_same [OF ex]) (simp_all add: collect(1) unsynced_def gc_pass_def split: prod.splits)
qed

lemma admission_step_inv:
  assumes "admission_step E ro ms k x L N T T'" and I: "admission_inv E ms k x L N T"
    and ro: "permutes_pending ro" and room: "room_for_all ms L N"
  shows "admission_inv E ms k x L N T'"
  using assms(1)
proof cases
  case (counts_nothing S S' adm)
  have inv: "cluster_inv E ms k x S" and ex: "exact (sint L + N) ms k S"
    using I by (simp_all add: admission_inv_def counts_nothing(1))
  show ?thesis
    using I cluster_step_inv [OF counts_nothing(3) inv ro]
      exact_step [OF counts_nothing(3,4) inv ex ro room_for_allD(3) [OF room]]
    by (simp add: admission_inv_def counts_nothing(1,2,4))
next
  case (limited_call i threshold window peak w c cnt S mgr r s' c' mgr' adm)
  have inv: "cluster_inv E ms k x S" and ex: "exact (sint L + N) ms k S"
    using I by (simp_all add: admission_inv_def limited_call(1))
  have adm: "0 \<le> adm j \<and> adm j \<le> sint L \<and> adm j \<le> sint (gh_applied S j)" if "j \<in> set ms" for j
    using I that by (simp add: admission_inv_def limited_call(1))
  note B = room_for_allD [OF room]
  have st: "store_ok (cl_store S i)" and win: "window_is x (store_view E (cl_store S i) k)"
    using cluster_invD(1) [OF inv limited_call(3)] by (simp_all add: node_ok_def)
  let ?new = "queued (cl_store S i) s' r" and ?p = "total_in x (store_view E (cl_store S i) k)"
  note one = Incr_in_window [OF st limited_call(4,8) win limited_call(5)]
  have chan: "syncChannel s' @ still_waiting r = syncChannel (cl_store S i) @ ?new"
    by (rule call_queues [OF st limited_call(4,8)])
  have le: "sint (gh_applied S i) \<le> sint ?p" by (rule exact_total(2) [OF inv ex room limited_call(3)])
  have node: "0 \<le> sint (gh_applied S i)" "sint (gh_applied S i) \<le> sint L + N"
    using exactD(1) [OF ex limited_call(3)] by (simp_all add: exact_node_def)
  have new: "nonneg k ?new" "sint (gh_applied S i) + size_in k ?new \<le> sint L + N"
    using one(2,3) le node limited_call(6,7) by (simp_all add: signed_less split: if_splits)
  note ex' = exact_call [OF ex limited_call(3) B(3) chan new]
  have cnt: "sint (count_in k ?new) = size_in k ?new"
    by (rule sint_count_in [OF new(1)]) (use new(2) B(3) node in simp)
  then have app: "sint (gh_applied S i + count_in k ?new) = sint (gh_applied S i) + size_in k ?new"
    using new(2) B(3) node size_in_nonneg [OF new(1)] by (subst sint32_add) simp_all
  have add: "sint (?p + cnt) = sint ?p + sint cnt" if "?p \<le>s L"
    using that le node limited_call(6,7) B(3) by (intro sint32_add) (simp_all add: signed_less)
  have "adm i + (if admits r then sint cnt else 0) \<le> sint L \<and>
      adm i + (if admits r then sint cnt else 0) \<le> sint (gh_applied S i + count_in k ?new)"
    using adm [OF limited_call(3)] one(1,2) app add le limited_call(6) by (auto simp: signed_less)
  moreover have "0 \<le> adm i + (if admits r then sint cnt else 0)"
    using adm [OF limited_call(3)] limited_call(6) by simp
  moreover have "cluster_inv E ms k x (fst T')"
    by (rule cluster_step_inv [OF admission_is_cluster_step [OF assms(1)] _ ro]) (simp add: limited_call(1) inv)
  ultimately show ?thesis
    using adm ex' by (cases "admits r") (simp_all add: admission_inv_def limited_call(2))
qed

interpretation admission: invariant_system
    "\<lambda>(S, adm). cluster_init E ms k S \<and> permutes_pending ro \<and> room_for_all ms L N \<and> adm = (\<lambda>_. 0)"
    "admission_step E ro ms k x L N"
    "\<lambda>T. admission_inv E ms k x L N T \<and> permutes_pending ro \<and> room_for_all ms L N"
  for E ro ms k x L N
proof
  fix T :: "('a, 'b, 'c) cluster \<times> (string \<Rightarrow> int)"
  assume "case T of (S, adm) \<Rightarrow>
    cluster_init E ms k S \<and> permutes_pending ro \<and> room_for_all ms L N \<and> adm = (\<lambda>_. 0)"
  then obtain S where T: "T = (S, \<lambda>_. 0)" and S: "cluster_init E ms k S" "permutes_pending ro" "room_for_all ms L N"
    by auto
  have "exact (sint L + N) ms k S" by (rule exact_init [OF S(1)]) (use room_for_allD [OF S(3)] in simp)
  then show "admission_inv E ms k x L N T \<and> permutes_pending ro \<and> room_for_all ms L N"
    using cluster_init_inv [OF S(1)] S room_for_allD(1) [OF S(3)]
    by (simp add: admission_inv_def T) (simp add: cluster_init_def)
next
  fix T T' :: "('a, 'b, 'c) cluster \<times> (string \<Rightarrow> int)"
  assume "admission_step E ro ms k x L N T T'"
    and "admission_inv E ms k x L N T \<and> permutes_pending ro \<and> room_for_all ms L N"
  then show "admission_inv E ms k x L N T' \<and> permutes_pending ro \<and> room_for_all ms L N"
    by (blast intro: admission_step_inv)
qed

section \<open>Properties\<close>

text \<open>
  C7: a cluster of \<open>n\<close> nodes admits at most \<open>n\<close> times the limit. If all calls on a key in a window
  carry the limit \<open>L\<close>, count between 0 and \<open>N\<close>, and \<open>n * (L + N)\<close> fits an \<open>int32\<close>, then in every state the
  cluster can reach each node has admitted at most \<open>L\<close>, and never more than its own total says,
  whatever batches were delayed, lost or not yet sent.
\<close>

theorem cluster_admission_bound:
  assumes "reach (\<lambda>(S, adm). cluster_init E ms k S \<and> permutes_pending ro \<and> room_for_all ms L N \<and> adm = (\<lambda>_. 0))
    (admission_step E ro ms k x L N) (S, adm)"
  shows "(\<Sum>i \<in> set ms. adm i) \<le> int (card (set ms)) * sint L \<and>
    list_all (\<lambda>i. adm i \<le> sint L \<and> adm i \<le> sint (total_in x (store_view E (cl_store S i) k))) ms"
proof -
  have I: "admission_inv E ms k x L N (S, adm)" and room: "room_for_all ms L N"
    using admission.reach_inv [OF assms] by simp_all
  have "adm i \<le> sint L \<and> adm i \<le> sint (total_in x (store_view E (cl_store S i) k))" if "i \<in> set ms" for i
    using I that exact_total(2) [OF _ _ room that, of E k x S] by (auto simp: admission_inv_def)
  then show ?thesis
    using sum_bounded_above [of "set ms" adm "sint L"] by (simp add: list_all_iff)
qed

text \<open>
  C8: what a cluster lets through beyond its limit is what has not reached the node yet. A call that
  a node admits (its count included) keeps the sum of all the counts that all nodes made within the limit plus what is
  outstanding for that node: lost, in flight, or still with the others. With nothing outstanding
  the limit holds for the cluster as a whole.
\<close>

theorem admitted_within_outstanding:
  assumes "reach (\<lambda>(S, adm). cluster_init E ms k S \<and> permutes_pending ro \<and> room_for_all ms L N \<and> adm = (\<lambda>_. 0))
      (admission_step E ro ms k x L N) (S, adm)"
    and "i \<in> set ms" and "effective E threshold window peak = (L, w)" and "within x (c, CIncr k cnt L w)"
    and "0 \<le> sint cnt" and "sint cnt \<le> N"
    and "Store_Incr E k cnt threshold window peak (cl_store S i) c (mgr :: string event_manager option) =
      Inr (r, s', c', mgr')"
    and "admits r"
  shows "0 \<le> sint (outstanding ms k S i) \<and>
    (\<Sum>j \<in> set ms. sint (gh_applied S j)) + sint cnt \<le> sint L + sint (outstanding ms k S i)"
proof -
  have "admission_inv E ms k x L N (S, adm)" and room: "room_for_all ms L N"
    using admission.reach_inv [OF assms(1)] by simp_all
  then have inv: "cluster_inv E ms k x S" and ex: "exact (sint L + N) ms k S"
    by (simp_all add: admission_inv_def)
  let ?p = "total_in x (store_view E (cl_store S i) k)" and ?A = "\<Sum>j \<in> set ms. sint (gh_applied S j)"
  have app: "0 \<le> sint (gh_applied S j)" "sint (gh_applied S j) \<le> sint L + N" if "j \<in> set ms" for j
    using exactD(1) [OF ex that] by (simp_all add: exact_node_def)
  have "?A \<le> of_nat (card (set ms)) * (sint L + N)" using app by (intro sum_bounded_above) blast
  then have A: "?A \<le> 2147483647" using room by (simp add: room_for_all_def)
  have "sint (\<Sum>j \<in> set ms. gh_applied S j) = ?A" by (rule sint_sum) (use app A in auto)
  moreover have "?p + outstanding ms k S i = (\<Sum>j \<in> set ms. gh_applied S j)"
    by (rule total_outstanding [OF inv assms(2)])
  ultimately have sum: "sint (?p + outstanding ms k S i) = ?A" by simp
  have rec: "sint (gh_received S j i) \<le> sint (gh_applied S j)" "0 \<le> sint (gh_received S j i)" if j: "j \<in> set ms - {i}" for j
  proof -
    have "exact_pair k S j i" "exact_node (sint L + N) k S j" using exactD [OF ex] assms(2) j by auto
    moreover have "0 \<le> carried k (cl_flight S) j i" using ex by (simp add: exact_def carried_nonneg)
    ultimately show "sint (gh_received S j i) \<le> sint (gh_applied S j)" "0 \<le> sint (gh_received S j i)"
      using size_in_nonneg [of k "unsynced S j"] by (auto simp: exact_pair_def exact_node_def)
  qed
  note total = exact_total [OF inv ex room assms(2)]
  have "(\<Sum>j \<in> set ms - {i}. sint (gh_received S j i)) \<le> (\<Sum>j \<in> set ms - {i}. sint (gh_applied S j))"
    using rec by (intro sum_mono) blast
  then have p_le: "sint ?p \<le> ?A" using total(1) assms(2) by (simp add: sum.remove [of "set ms" i])
  have p: "0 \<le> sint ?p" using total(2) app [OF assms(2)] by simp
  have w: "outstanding ms k S i = word_of_int (?A - sint ?p)"
  proof -
    have "word_of_int ?A = ?p + outstanding ms k S i" using sum by (simp flip: sum)
    then show ?thesis by simp
  qed
  have out: "sint (outstanding ms k S i) = ?A - sint ?p"
    unfolding w by (rule sint32_of_int) (use p p_le A in linarith)+
  have st: "store_ok (cl_store S i)" and win: "window_is x (store_view E (cl_store S i) k)"
    using cluster_invD(1) [OF inv assms(2)] by (simp_all add: node_ok_def)
  have "?p \<le>s L" "?p + cnt \<le>s L"
    using Incr_in_window(1) [OF st assms(3,7) win assms(4)] assms(8) by simp_all
  moreover have "sint (?p + cnt) = sint ?p + sint cnt" if "sint ?p \<le> sint L"
    using that p assms(5,6) room_for_allD(3) [OF room] by (intro sint32_add) simp_all
  ultimately have "sint ?p + sint cnt \<le> sint L" by (simp add: signed_less)
  then show ?thesis using out p_le by simp
qed

text \<open>Both nodes admit a count of 2 under a limit of 2 before anything is sent: the bound is reached.\<close>

definition sample_admitted :: "string \<Rightarrow> int" where
  "sample_admitted = (\<lambda>_. 0)(''a'' := 2)"

definition sample_both :: "(unit, unit, unit) cluster" where
  "sample_both = sample_called
     \<lparr>cl_store := (cl_store sample_called)(''b'' := (sample_node ''b'')
        \<lparr>keyBucket := sample_entry, syncChannel := [sample_command]\<rparr>),
      gh_applied := (gh_applied sample_called)(''b'' := 2)\<rparr>"

abbreviation sample_reach :: "(unit, unit, unit) cluster \<times> (string \<Rightarrow> int) \<Rightarrow> bool" where
  "sample_reach \<equiv> reach
     (\<lambda>(S, adm). cluster_init sample_env [''a'', ''b''] ''k'' S \<and> permutes_pending rev \<and>
        room_for_all [''a'', ''b''] 2 2 \<and> adm = (\<lambda>_. 0))
     (admission_step sample_env rev [''a'', ''b''] ''k'' 1000000000 2 2)"

lemma sample_call_2:
  "Store_Incr sample_env ''k'' 2 2 1 False (sample_node i) (UnReal \<lparr>current = 5\<rparr>)
     (None :: string event_manager option) =
   Inr (Replied False, (sample_node i)\<lparr>keyBucket := sample_entry, syncChannel := [sample_command]\<rparr>,
     UnReal \<lparr>current = 5\<rparr>, None)"
  by (simp add: Store_Incr_cases [OF sample_node_ok, of sample_env 2 1 False 2 1] effective_def
      bucket_Incr_at_def KeyBucket_Incr_def GetEntry_def NewKeyBucket_def entry_eqs Now_eq GenExpiry_def
      go_rem64_def signed_less Let_def Incr_finish_def sample_entry_def sample_command_def
      sample_options_def defaultOptions_def)

lemma sample_admit:
  assumes "i = ''a'' \<or> i = ''b''" and "cl_store S i = sample_node i" and "cl_waiting S i = []" and "gh_applied S i = 0"
  shows "admission_step sample_env rev [''a'', ''b''] ''k'' 1000000000 2 2 (S, adm)
    (S\<lparr>cl_store := (cl_store S)(i := (sample_node i)\<lparr>keyBucket := sample_entry, syncChannel := [sample_command]\<rparr>),
       cl_waiting := (cl_waiting S)(i := []), gh_applied := (gh_applied S)(i := 2)\<rparr>, adm(i := adm i + 2))"
proof -
  have "i \<in> set [''a'', ''b'']" using assms(1) by auto
  from admission_step.limited_call [OF this, of sample_env 2 1 False 2 1 1000000000 "UnReal \<lparr>current = 5\<rparr>" "''k''" 2 2
      S None "Replied False" "(sample_node i)\<lparr>keyBucket := sample_entry, syncChannel := [sample_command]\<rparr>"
      "UnReal \<lparr>current = 5\<rparr>" None rev adm]
  show ?thesis
    using sample_call_2 [of i] assms(2-4)
    by (simp add: effective_def GenExpiry_def go_rem64_def still_waiting_def queued_def sample_command_def)
qed

lemma sample_reached: "sample_reach (sample_called, sample_admitted)"
  "sample_reach (sample_both, sample_admitted(''b'' := 2))"
proof -
  have init: "sample_reach (sample_cluster, \<lambda>_. 0)"
    by (rule reach_init) (simp add: sample_init permutes_pending_def room_for_all_def)
  have one: "admission_step sample_env rev [''a'', ''b''] ''k'' 1000000000 2 2
      (sample_cluster, \<lambda>_. 0) (sample_called, sample_admitted)"
    using sample_admit [of "''a''" sample_cluster "\<lambda>_. 0"]
    by (simp add: sample_called_def sample_admitted_def) (simp add: sample_cluster_def fun_upd_def)
  then show "sample_reach (sample_called, sample_admitted)" using init by (rule reach_step [rotated])
  moreover have "admission_step sample_env rev [''a'', ''b''] ''k'' 1000000000 2 2
      (sample_called, sample_admitted) (sample_both, sample_admitted(''b'' := 2))"
    using sample_admit [of "''b''" sample_called sample_admitted]
    by (simp add: sample_both_def sample_admitted_def) (simp add: sample_defs fun_upd_def)
  ultimately show "sample_reach (sample_both, sample_admitted(''b'' := 2))" by (rule reach_step)
qed

theorem cluster_admission_bound_witness:
  "(\<Sum>i \<in> set [''a'', ''b'']. (sample_admitted(''b'' := 2)) i) = int (card (set [''a'', ''b''])) * sint (2 :: i32) \<and>
   list_all (\<lambda>i. (sample_admitted(''b'' := 2)) i \<le>
     sint (total_in 1000000000 (store_view sample_env (cl_store sample_both i) ''k''))) [''a'', ''b'']"
  using cluster_admission_bound [OF sample_reached(2)] by (simp add: sample_admitted_def)

theorem admitted_within_outstanding_witness:
  "(\<Sum>j \<in> set [''a'', ''b'']. sint (gh_applied sample_called j)) + sint (2 :: i32) \<le>
   sint (2 :: i32) + sint (outstanding [''a'', ''b''] ''k'' sample_called ''b'')"
  by (rule conjunct2 [OF admitted_within_outstanding [OF sample_reached(1), of "''b''" 2 1 False 1
        "UnReal \<lparr>current = 5\<rparr>" 2 None "Replied False" _ "UnReal \<lparr>current = 5\<rparr>" None]])
    (use sample_call_2 [of "''b''"] in \<open>simp_all add: effective_def GenExpiry_def go_rem64_def sample_defs\<close>)

end
