(* ===== verification/Node.thy ===== *)
theory Node
  imports Cluster
begin

text \<open>
  One process: the store with the clock it reads, the process-wide event manager and the files.
  The HTTP server and the server of the remote methods act on it.
\<close>

record ('tc, 'rp, 'sd, 'h) node =
  node_store :: "('tc, 'rp, 'sd) store"
  node_clock :: clock
  node_mgr :: "'h event_manager option"
  node_files :: files

text \<open>
  How a call into the process ends: with an answer, not yet (the goroutine waits for room in the
  channel of the synchroniser, after it has counted), or in a panic. A panic in one of the
  store's own goroutines ends the process; net/http catches one in its handlers.
\<close>

datatype ('r, 'w) answer = Answer 'r 'w | Waits 'w | Crashes panic

definition map_answer :: "('r \<Rightarrow> 'q) \<Rightarrow> ('r, 'w) answer \<Rightarrow> ('q, 'w) answer" where
  "map_answer f a = (case a of Answer r w \<Rightarrow> Answer (f r) w | Waits w \<Rightarrow> Waits w | Crashes p \<Rightarrow> Crashes p)"

definition limiter_answer ::
  "(panic + reply \<times> ('tc, 'rp, 'sd) store \<times> clock \<times> 'h event_manager option) \<Rightarrow>
   ('tc, 'rp, 'sd, 'h) node \<Rightarrow> (bool, ('tc, 'rp, 'sd, 'h) node) answer" where
  "limiter_answer r nd =
     (case r of
        Inl p \<Rightarrow> Crashes p
      | Inr (rep, s, c, mgr) \<Rightarrow>
          (let nd = nd\<lparr>node_store := s, node_clock := c, node_mgr := mgr\<rparr>
           in case rep of
                Replied blocked \<Rightarrow> Answer blocked nd
              | WaitingToSync _ _ \<Rightarrow> Waits nd))"

end
