(* ===== verification/Processor.thy ===== *)
theory Processor
  imports Codec Node
begin

text \<open>
  The client and the processor of gen-go/com/store.go (\<open>StoreNodeClient\<close>, \<open>StoreNodeProcessor\<close>): the
  same four methods as theory \<open>Rpc\<close>, here with Thrift's own framing of messages. The generator
  expands one scheme for every method; the schemes are \<open>send_call\<close>, \<open>recv_reply\<close> and \<open>process_call\<close>.
  The operations of \<open>thrift.TProtocol\<close> on messages and \<open>thrift.TApplicationException\<close> are
  parameters, as are those of theory \<open>Thrift\<close>.
\<close>

section \<open>Messages\<close>

text \<open>A protocol with its operations on messages.\<close>

record ('w, 'e) TMessageProtocol =
  fields_of :: "('w, 'e) TProtocol"
  WriteMessageBegin :: "string \<Rightarrow> mtype \<Rightarrow> i32 \<Rightarrow> ('w, 'e) writer"
  WriteMessageEnd :: "('w, 'e) writer"
  Flush :: "('w, 'e) writer"
  TApplicationException_Write :: "app_exception \<Rightarrow> string \<Rightarrow> ('w, 'e) writer"
  ReadMessageBegin :: "'w \<Rightarrow> (string \<times> mtype \<times> i32 \<times> 'e option) \<times> 'w"
  ReadMessageEnd :: "('w, 'e) writer"
  TApplicationException_Read :: "'w \<Rightarrow> ('e + 'e) \<times> 'w"

text \<open>\<open>NewTApplicationException\<close> as an error, and \<open>Error()\<close>.\<close>

record 'e thrift_errors =
  NewTApplicationException :: "app_exception \<Rightarrow> string \<Rightarrow> 'e"
  error_text :: "'e \<Rightarrow> string"

section \<open>The client\<close>

text \<open>
  Protocols act on one world \<open>'w\<close>, the connections. A nil protocol is made from the transport when
  it is first needed; without a factory that is a nil dereference.
\<close>

record ('t, 'w, 'e) StoreNodeClient =
  Transport :: 't
  ProtocolFactory :: "('t \<Rightarrow> ('w, 'e) TMessageProtocol) option"
  InputProtocol :: "('w, 'e) TMessageProtocol option"
  OutputProtocol :: "('w, 'e) TMessageProtocol option"
  SeqId :: i32

definition NewStoreNodeClientFactory ::
  "'t \<Rightarrow> ('t \<Rightarrow> ('w, 'e) TMessageProtocol) \<Rightarrow> ('t, 'w, 'e) StoreNodeClient" where
  "NewStoreNodeClientFactory t f = \<lparr>Transport = t, ProtocolFactory = Some f, InputProtocol = Some (f t),
     OutputProtocol = Some (f t), SeqId = 0\<rparr>"

definition NewStoreNodeClientProtocol ::
  "'t \<Rightarrow> ('w, 'e) TMessageProtocol option \<Rightarrow> ('w, 'e) TMessageProtocol option \<Rightarrow> ('t, 'w, 'e) StoreNodeClient" where
  "NewStoreNodeClientProtocol t iprot oprot = \<lparr>Transport = t, ProtocolFactory = None, InputProtocol = iprot,
     OutputProtocol = oprot, SeqId = 0\<rparr>"

definition or_made ::
  "('w, 'e) TMessageProtocol option \<Rightarrow> ('t, 'w, 'e) StoreNodeClient \<Rightarrow> ('w, 'e) TMessageProtocol option" where
  "or_made prot p =
     (case prot of Some x \<Rightarrow> Some x | None \<Rightarrow> map_option (\<lambda>f. f (Transport p)) (ProtocolFactory p))"

definition send_call ::
  "string \<Rightarrow> (('w, 'e) TProtocol \<Rightarrow> ('w, 'e) writer) \<Rightarrow> ('t, 'w, 'e) StoreNodeClient \<Rightarrow> 'w \<Rightarrow>
   'e failure option \<times> ('t, 'w, 'e) StoreNodeClient \<times> 'w" where
  "send_call name args_Write p w =
     (case or_made (OutputProtocol p) p of
        None \<Rightarrow> (Some (Crash NilDereference), p, w)
      | Some oprot \<Rightarrow>
          (let p = p\<lparr>OutputProtocol := Some oprot\<rparr>;
               p = p\<lparr>SeqId := SeqId p + 1\<rparr>;
               (err, w) = attempt
                 [WriteMessageBegin oprot name CALL (SeqId p),
                  args_Write (fields_of oprot),
                  WriteMessageEnd oprot,
                  Flush oprot] w
           in (map_option Err err, p, w)))"

text \<open>
  The reply: its header is checked, then an exception or the result struct is read. A read that
  never returns is \<^const>\<open>None\<close>.
\<close>

definition recv_reply ::
  "'e thrift_errors \<Rightarrow> string \<Rightarrow> (('w, 'e) TProtocol \<Rightarrow> ('r, 'w, 'e) reader) \<Rightarrow> 'r \<Rightarrow>
   ('t, 'w, 'e) StoreNodeClient \<Rightarrow> 'w \<Rightarrow> ('e failure option \<times> 'r \<times> ('t, 'w, 'e) StoreNodeClient \<times> 'w) option" where
  "recv_reply X name decode result p w =
     (case or_made (InputProtocol p) p of
        None \<Rightarrow> Some (Some (Crash NilDereference), result, p, w)
      | Some iprot \<Rightarrow>
          (let p = p\<lparr>InputProtocol := Some iprot\<rparr>;
               ((method, mTypeId, seqId, err), w) = ReadMessageBegin iprot w
           in case err of
                Some e \<Rightarrow> Some (Some (Err e), result, p, w)
              | None \<Rightarrow>
                  if method \<noteq> name then
                    Some (Some (Err (NewTApplicationException X WRONG_METHOD_NAME
                      (name @ '' failed: wrong method name''))), result, p, w)
                  else if SeqId p \<noteq> seqId then
                    Some (Some (Err (NewTApplicationException X BAD_SEQUENCE_ID
                      (name @ '' failed: out of sequence response''))), result, p, w)
                  else if mTypeId = EXCEPTION then
                    (case TApplicationException_Read iprot w of
                       (Inl e, w) \<Rightarrow> Some (Some (Err e), result, p, w)
                     | (Inr e, w) \<Rightarrow>
                         (case ReadMessageEnd iprot w of
                            (Some e', w) \<Rightarrow> Some (Some (Err e'), result, p, w)
                          | (None, w) \<Rightarrow> Some (Some (Err e), result, p, w)))
                  else if mTypeId \<noteq> REPLY then
                    Some (Some (Err (NewTApplicationException X INVALID_MESSAGE_TYPE_EXCEPTION
                      (name @ '' failed: invalid message type''))), result, p, w)
                  else
                    Option.bind (decode (fields_of iprot) result w) (\<lambda>(failed, result, w).
                      case failed of
                        Some f \<Rightarrow> Some (Some f, result, p, w)
                      | None \<Rightarrow>
                          (case ReadMessageEnd iprot w of
                             (Some e, w) \<Rightarrow> Some (Some (Err e), result, p, w)
                           | (None, w) \<Rightarrow> Some (None, result, p, w)))))"

text \<open>\<open>if err = send(...); err != nil { return }\<close>, then the reply.\<close>

definition call_with ::
  "('e failure option \<times> ('t, 'w, 'e) StoreNodeClient \<times> 'w) \<Rightarrow> 'v \<Rightarrow>
   (('t, 'w, 'e) StoreNodeClient \<Rightarrow> 'w \<Rightarrow> ('e failure option \<times> 'v \<times> ('t, 'w, 'e) StoreNodeClient \<times> 'w) option) \<Rightarrow>
   ('e failure option \<times> 'v \<times> ('t, 'w, 'e) StoreNodeClient \<times> 'w) option" where
  "call_with sent zero recv =
     (case sent of
        (Some f, p, w) \<Rightarrow> Some (Some f, zero, p, w)
      | (None, p, w) \<Rightarrow> recv p w)"

text \<open>The value of a reply that came without an error, the zero value otherwise.\<close>

definition reply_value ::
  "('r \<Rightarrow> 'v) \<Rightarrow> 'v \<Rightarrow> ('e failure option \<times> 'r \<times> 'c \<times> 'w) option \<Rightarrow> ('e failure option \<times> 'v \<times> 'c \<times> 'w) option" where
  "reply_value get zero reply =
     map_option (\<lambda>(failed, result, p, w). (failed, if failed = None then get result else zero, p, w)) reply"

subsection \<open>The methods of the client\<close>

definition sendSyncKeys ::
  "SyncCommand option list \<Rightarrow> ('t, 'w, 'e) StoreNodeClient \<Rightarrow> 'w \<Rightarrow>
   'e failure option \<times> ('t, 'w, 'e) StoreNodeClient \<times> 'w" where
  "sendSyncKeys syncs = send_call ''SyncKeys'' (\<lambda>P. SyncKeysArgs_Write P (Some \<lparr>Syncs = syncs\<rparr>))"

definition recvSyncKeys ::
  "'e thrift_errors \<Rightarrow> ('t, 'w, 'e) StoreNodeClient \<Rightarrow> 'w \<Rightarrow>
   ('e failure option \<times> unit \<times> ('t, 'w, 'e) StoreNodeClient \<times> 'w) option" where
  "recvSyncKeys X p w =
     reply_value (\<lambda>_. ()) () (recv_reply X ''SyncKeys'' SyncKeysResult_Read NewSyncKeysResult p w)"

definition StoreNodeClient_SyncKeys ::
  "'e thrift_errors \<Rightarrow> SyncCommand option list \<Rightarrow> ('t, 'w, 'e) StoreNodeClient \<Rightarrow> 'w \<Rightarrow>
   ('e failure option \<times> unit \<times> ('t, 'w, 'e) StoreNodeClient \<times> 'w) option" where
  "StoreNodeClient_SyncKeys X syncs p w = call_with (sendSyncKeys syncs p w) () (recvSyncKeys X)"

definition sendSyncRateConfig ::
  "string \<Rightarrow> i32 \<Rightarrow> i32 \<Rightarrow> bool \<Rightarrow> ('t, 'w, 'e) StoreNodeClient \<Rightarrow> 'w \<Rightarrow>
   'e failure option \<times> ('t, 'w, 'e) StoreNodeClient \<times> 'w" where
  "sendSyncRateConfig key threshold window peakaveraged =
     send_call ''SyncRateConfig'' (\<lambda>P. SyncRateConfigArgs_Write P
       (Some \<lparr>arg_Key = key, arg_Threshold = threshold, arg_Window = window, arg_Peakaveraged = peakaveraged\<rparr>))"

definition recvSyncRateConfig ::
  "'e thrift_errors \<Rightarrow> ('t, 'w, 'e) StoreNodeClient \<Rightarrow> 'w \<Rightarrow>
   ('e failure option \<times> unit \<times> ('t, 'w, 'e) StoreNodeClient \<times> 'w) option" where
  "recvSyncRateConfig X p w =
     reply_value (\<lambda>_. ()) () (recv_reply X ''SyncRateConfig'' SyncRateConfigResult_Read NewSyncRateConfigResult p w)"

definition StoreNodeClient_SyncRateConfig ::
  "'e thrift_errors \<Rightarrow> string \<Rightarrow> i32 \<Rightarrow> i32 \<Rightarrow> bool \<Rightarrow> ('t, 'w, 'e) StoreNodeClient \<Rightarrow> 'w \<Rightarrow>
   ('e failure option \<times> unit \<times> ('t, 'w, 'e) StoreNodeClient \<times> 'w) option" where
  "StoreNodeClient_SyncRateConfig X key threshold window peakaveraged p w =
     call_with (sendSyncRateConfig key threshold window peakaveraged p w) () (recvSyncRateConfig X)"

definition sendIncrAction ::
  "string \<Rightarrow> i32 \<Rightarrow> i32 \<Rightarrow> i32 \<Rightarrow> bool \<Rightarrow> ('t, 'w, 'e) StoreNodeClient \<Rightarrow> 'w \<Rightarrow>
   'e failure option \<times> ('t, 'w, 'e) StoreNodeClient \<times> 'w" where
  "sendIncrAction key cnt threshold window peakaveraged =
     send_call ''IncrAction'' (\<lambda>P. IncrActionArgs_Write P
       (Some \<lparr>inc_Key = key, inc_Count = cnt, inc_Threshold = threshold, inc_Window = window,
          inc_Peakaveraged = peakaveraged\<rparr>))"

definition recvIncrAction ::
  "'e thrift_errors \<Rightarrow> ('t, 'w, 'e) StoreNodeClient \<Rightarrow> 'w \<Rightarrow>
   ('e failure option \<times> bool \<times> ('t, 'w, 'e) StoreNodeClient \<times> 'w) option" where
  "recvIncrAction X p w =
     reply_value IncrActionResult_GetSuccess False
       (recv_reply X ''IncrAction'' IncrActionResult_Read NewIncrActionResult p w)"

definition StoreNodeClient_IncrAction ::
  "'e thrift_errors \<Rightarrow> string \<Rightarrow> i32 \<Rightarrow> i32 \<Rightarrow> i32 \<Rightarrow> bool \<Rightarrow> ('t, 'w, 'e) StoreNodeClient \<Rightarrow> 'w \<Rightarrow>
   ('e failure option \<times> bool \<times> ('t, 'w, 'e) StoreNodeClient \<times> 'w) option" where
  "StoreNodeClient_IncrAction X key cnt threshold window peakaveraged p w =
     call_with (sendIncrAction key cnt threshold window peakaveraged p w) False (recvIncrAction X)"

definition sendRateLimitGlobalAction ::
  "string \<Rightarrow> i32 \<Rightarrow> ('t, 'w, 'e) StoreNodeClient \<Rightarrow> 'w \<Rightarrow>
   'e failure option \<times> ('t, 'w, 'e) StoreNodeClient \<times> 'w" where
  "sendRateLimitGlobalAction key cnt =
     send_call ''RateLimitGlobalAction'' (\<lambda>P. RateLimitGlobalActionArgs_Write P
       (Some \<lparr>glob_Key = key, glob_Count = cnt\<rparr>))"

definition recvRateLimitGlobalAction ::
  "'e thrift_errors \<Rightarrow> ('t, 'w, 'e) StoreNodeClient \<Rightarrow> 'w \<Rightarrow>
   ('e failure option \<times> bool \<times> ('t, 'w, 'e) StoreNodeClient \<times> 'w) option" where
  "recvRateLimitGlobalAction X p w =
     reply_value RateLimitGlobalActionResult_GetSuccess False
       (recv_reply X ''RateLimitGlobalAction'' RateLimitGlobalActionResult_Read NewRateLimitGlobalActionResult p w)"

definition StoreNodeClient_RateLimitGlobalAction ::
  "'e thrift_errors \<Rightarrow> string \<Rightarrow> i32 \<Rightarrow> ('t, 'w, 'e) StoreNodeClient \<Rightarrow> 'w \<Rightarrow>
   ('e failure option \<times> bool \<times> ('t, 'w, 'e) StoreNodeClient \<times> 'w) option" where
  "StoreNodeClient_RateLimitGlobalAction X key cnt p w =
     call_with (sendRateLimitGlobalAction key cnt p w) False (recvRateLimitGlobalAction X)"

section \<open>The processor\<close>

text \<open>The interface of the handler (\<open>StoreNode\<close>), acting on a state \<open>'s\<close>.\<close>

record ('s, 'e) StoreNode =
  sn_SyncKeys :: "SyncCommand option list \<Rightarrow> 's \<Rightarrow> ('e + unit, 's) answer"
  sn_SyncRateConfig :: "string \<Rightarrow> i32 \<Rightarrow> i32 \<Rightarrow> bool \<Rightarrow> 's \<Rightarrow> ('e + unit, 's) answer"
  sn_IncrAction :: "string \<Rightarrow> i32 \<Rightarrow> i32 \<Rightarrow> i32 \<Rightarrow> bool \<Rightarrow> 's \<Rightarrow> ('e + bool, 's) answer"
  sn_RateLimitGlobalAction :: "string \<Rightarrow> i32 \<Rightarrow> 's \<Rightarrow> ('e + bool, 's) answer"

text \<open>What \<open>Process\<close> returns, with the states after it.\<close>

datatype ('s, 'w, 'e) processed =
    Processed bool "'e option" 's 'w
  | ProcessorWaits 's
  | ProcessorCrashes panic

type_synonym ('s, 'w, 'e) TProcessorFunction =
  "i32 \<Rightarrow> ('w, 'e) TMessageProtocol \<Rightarrow> ('w, 'e) TMessageProtocol \<Rightarrow> 's \<Rightarrow> 'w \<Rightarrow> ('s, 'w, 'e) processed option"

text \<open>Statements whose errors are not looked at, and statements of which the first error is kept.\<close>

fun ignoring :: "('w, 'e) writer list \<Rightarrow> 'w \<Rightarrow> 'w" where
  "ignoring [] w = w"
| "ignoring (act # acts) w = ignoring acts (snd (act w))"

fun first_error :: "'e option \<Rightarrow> ('w, 'e) writer list \<Rightarrow> ('w, 'e) writer" where
  "first_error err [] w = (err, w)"
| "first_error err (act # acts) w =
     (case act w of (err2, w) \<Rightarrow> first_error (if err = None then err2 else err) acts w)"

definition send_exception ::
  "('w, 'e) TMessageProtocol \<Rightarrow> string \<Rightarrow> app_exception \<Rightarrow> string \<Rightarrow> i32 \<Rightarrow> 'w \<Rightarrow> 'w" where
  "send_exception oprot name kind text seqId = ignoring
     [WriteMessageBegin oprot name EXCEPTION seqId, TApplicationException_Write oprot kind text,
      WriteMessageEnd oprot, Flush oprot]"

definition internal_error_text :: "'e thrift_errors \<Rightarrow> string \<Rightarrow> 'e \<Rightarrow> string" where
  "internal_error_text X name e = ''Internal error processing '' @ name @ '': '' @ error_text X e"

definition process_call ::
  "'e thrift_errors \<Rightarrow> string \<Rightarrow> (('w, 'e) TProtocol \<Rightarrow> ('a, 'w, 'e) reader) \<Rightarrow> 'a \<Rightarrow>
   ('a \<Rightarrow> 's \<Rightarrow> ('e + 'r, 's) answer) \<Rightarrow> ('r \<Rightarrow> ('w, 'e) TProtocol \<Rightarrow> ('w, 'e) writer) \<Rightarrow>
   ('s, 'w, 'e) TProcessorFunction" where
  "process_call X name decode args action result_Write seqId iprot oprot s w =
     (case decode (fields_of iprot) args w of
        None \<Rightarrow> None
      | Some (Some (Crash c), _, _) \<Rightarrow> Some (ProcessorCrashes c)
      | Some (Some (Err e), _, w) \<Rightarrow>
          (let w = ignoring [ReadMessageEnd iprot] w;
               w = send_exception oprot name PROTOCOL_ERROR (error_text X e) seqId w
           in Some (Processed False (Some e) s w))
      | Some (None, args, w) \<Rightarrow>
          (let w = ignoring [ReadMessageEnd iprot] w
           in Some (case action args s of
                Crashes c \<Rightarrow> ProcessorCrashes c
              | Waits s \<Rightarrow> ProcessorWaits s
              | Answer (Inl err2) s \<Rightarrow>
                  Processed True (Some err2) s
                    (send_exception oprot name INTERNAL_ERROR (internal_error_text X name err2) seqId w)
              | Answer (Inr r) s \<Rightarrow>
                  (case first_error None
                     [WriteMessageBegin oprot name REPLY seqId, result_Write r (fields_of oprot),
                      WriteMessageEnd oprot, Flush oprot] w of
                     (err, w) \<Rightarrow> Processed (err = None) err s w))))"

definition processSyncKeys ::
  "'e thrift_errors \<Rightarrow> ('s, 'e) StoreNode \<Rightarrow> ('s, 'w, 'e) TProcessorFunction" where
  "processSyncKeys X h = process_call X ''SyncKeys'' SyncKeysArgs_Read NewSyncKeysArgs
     (\<lambda>args. sn_SyncKeys h (Syncs args)) (\<lambda>_ P. SyncKeysResult_Write P (Some NewSyncKeysResult))"

definition processSyncRateConfig ::
  "'e thrift_errors \<Rightarrow> ('s, 'e) StoreNode \<Rightarrow> ('s, 'w, 'e) TProcessorFunction" where
  "processSyncRateConfig X h = process_call X ''SyncRateConfig'' SyncRateConfigArgs_Read NewSyncRateConfigArgs
     (\<lambda>args. sn_SyncRateConfig h (arg_Key args) (arg_Threshold args) (arg_Window args) (arg_Peakaveraged args))
     (\<lambda>_ P. SyncRateConfigResult_Write P (Some NewSyncRateConfigResult))"

definition processIncrAction ::
  "'e thrift_errors \<Rightarrow> ('s, 'e) StoreNode \<Rightarrow> ('s, 'w, 'e) TProcessorFunction" where
  "processIncrAction X h = process_call X ''IncrAction'' IncrActionArgs_Read NewIncrActionArgs
     (\<lambda>args. sn_IncrAction h (inc_Key args) (inc_Count args) (inc_Threshold args) (inc_Window args)
        (inc_Peakaveraged args))
     (\<lambda>retval P. IncrActionResult_Write P (Some (NewIncrActionResult\<lparr>inc_Success := Some retval\<rparr>)))"

definition processRateLimitGlobalAction ::
  "'e thrift_errors \<Rightarrow> ('s, 'e) StoreNode \<Rightarrow> ('s, 'w, 'e) TProcessorFunction" where
  "processRateLimitGlobalAction X h =
     process_call X ''RateLimitGlobalAction'' RateLimitGlobalActionArgs_Read NewRateLimitGlobalActionArgs
     (\<lambda>args. sn_RateLimitGlobalAction h (glob_Key args) (glob_Count args))
     (\<lambda>retval P. RateLimitGlobalActionResult_Write P
        (Some (NewRateLimitGlobalActionResult\<lparr>glob_Success := Some retval\<rparr>)))"

record ('s, 'w, 'e) StoreNodeProcessor =
  processorMap :: "string \<rightharpoonup> ('s, 'w, 'e) TProcessorFunction"
  handler :: "('s, 'e) StoreNode"

definition AddToProcessorMap ::
  "string \<Rightarrow> ('s, 'w, 'e) TProcessorFunction \<Rightarrow> ('s, 'w, 'e) StoreNodeProcessor \<Rightarrow> ('s, 'w, 'e) StoreNodeProcessor" where
  "AddToProcessorMap key processor p = p\<lparr>processorMap := (processorMap p)(key \<mapsto> processor)\<rparr>"

definition GetProcessorFunction ::
  "string \<Rightarrow> ('s, 'w, 'e) StoreNodeProcessor \<Rightarrow> ('s, 'w, 'e) TProcessorFunction option" where
  "GetProcessorFunction key p = processorMap p key"

definition NewStoreNodeProcessor ::
  "'e thrift_errors \<Rightarrow> ('s, 'e) StoreNode \<Rightarrow> ('s, 'w, 'e) StoreNodeProcessor" where
  "NewStoreNodeProcessor X h = \<lparr>processorMap =
       [''SyncKeys'' \<mapsto> processSyncKeys X h, ''SyncRateConfig'' \<mapsto> processSyncRateConfig X h,
        ''IncrAction'' \<mapsto> processIncrAction X h, ''RateLimitGlobalAction'' \<mapsto> processRateLimitGlobalAction X h],
     handler = h\<rparr>"

definition Process ::
  "'e thrift_errors \<Rightarrow> ('s, 'w, 'e) StoreNodeProcessor \<Rightarrow> ('w, 'e) TMessageProtocol \<Rightarrow> ('w, 'e) TMessageProtocol \<Rightarrow>
   's \<Rightarrow> 'w \<Rightarrow> ('s, 'w, 'e) processed option" where
  "Process X p iprot oprot s w =
     (case ReadMessageBegin iprot w of ((name, _, seqId, err), w) \<Rightarrow>
        (case err of
           Some e \<Rightarrow> Some (Processed False (Some e) s w)
         | None \<Rightarrow>
             (case GetProcessorFunction name p of
                Some processor \<Rightarrow> processor seqId iprot oprot s w
              | None \<Rightarrow>
                  (let w = ignoring [Skip (fields_of iprot) STRUCT, ReadMessageEnd iprot] w;
                       w = send_exception oprot name UNKNOWN_METHOD (''Unknown function '' @ name) seqId w
                   in Some (Processed False
                        (Some (NewTApplicationException X UNKNOWN_METHOD (''Unknown function '' @ name))) s w)))))"

section \<open>What the framing relies on\<close>

text \<open>
  A protocol is faithful on messages if it carries their headers, ends and exceptions as it carries
  the tokens of structs; \<open>Flush\<close> adds nothing. On a connection there are two directions: \<open>both w us vs\<close>
  says that the requests \<open>us\<close> and the replies \<open>vs\<close> are on their way. The request protocol \<open>Q\<close> (written
  by the client, read by the processor) leaves the replies alone, and the reply protocol \<open>R\<close> the
  requests.
\<close>

definition faithful_messages ::
  "'e thrift_errors \<Rightarrow> ('w, 'e) TMessageProtocol \<Rightarrow> ('w \<Rightarrow> token list \<Rightarrow> bool) \<Rightarrow> bool" where
  "faithful_messages X M holds \<longleftrightarrow>
     faithful (fields_of M) holds \<and>
     (\<forall>n t q. fits (length n) \<longrightarrow> writes holds (WriteMessageBegin M n t q) [MessageBegin n t q]) \<and>
     writes holds (WriteMessageEnd M) [MessageEnd] \<and>
     writes holds (Flush M) [] \<and>
     (\<forall>k s. fits (length s) \<longrightarrow> writes holds (TApplicationException_Write M k s) [TException k s]) \<and>
     (\<forall>n t q. reads holds (ReadMessageBegin M) [MessageBegin n t q] (\<lambda>r. r = (n, t, q, None))) \<and>
     reads holds (ReadMessageEnd M) [MessageEnd] (\<lambda>r. r = None) \<and>
     (\<forall>k s. reads holds (TApplicationException_Read M) [TException k s]
        (\<lambda>r. r = Inr (NewTApplicationException X k s)))"

definition duplex ::
  "'e thrift_errors \<Rightarrow> ('w, 'e) TMessageProtocol \<Rightarrow> ('w, 'e) TMessageProtocol \<Rightarrow>
   ('w \<Rightarrow> token list \<Rightarrow> token list \<Rightarrow> bool) \<Rightarrow> bool" where
  "duplex X Q R both \<longleftrightarrow>
     (\<forall>vs. faithful_messages X Q (\<lambda>w us. both w us vs)) \<and>
     (\<forall>us. faithful_messages X R (\<lambda>w vs. both w us vs))"

text \<open>A message on the wire.\<close>

definition framed :: "string \<Rightarrow> mtype \<Rightarrow> i32 \<Rightarrow> token list \<Rightarrow> token list" where
  "framed name t q body = MessageBegin name t q # body @ [MessageEnd]"

lemma fits_small [simp]: "fits (length ''SyncKeys'')" "fits (length ''SyncRateConfig'')"
    "fits (length ''IncrAction'')" "fits (length ''RateLimitGlobalAction'')"
  by (simp_all add: fits_def)

lemma duplexD:
  assumes "duplex X Q R both"
  shows "faithful_messages X Q (\<lambda>w us. both w us vs)" and "faithful_messages X R (\<lambda>w vs. both w us vs)"
    and "faithful (fields_of Q) (\<lambda>w us. both w us vs)" and "faithful (fields_of R) (\<lambda>w vs. both w us vs)"
  using assms by (auto simp: duplex_def faithful_messages_def)

lemma first_error_writes:
  "writes holds (attempt acts) ts \<Longrightarrow> holds w us \<Longrightarrow>
    \<exists>w'. first_error None acts w = (None, w') \<and> attempt acts w = (None, w') \<and> holds w' (us @ ts)"
proof -
  assume wr: "writes holds (attempt acts) ts" and h: "holds w us"
  have same: "attempt acts w = (None, w') \<Longrightarrow> first_error None acts w = (None, w')" for w'
    by (induction acts arbitrary: w) (auto split: prod.splits option.splits)
  obtain w' where "attempt acts w = (None, w')" "holds w' (us @ ts)" using writesD [OF wr h] by blast
  with same show ?thesis by blast
qed

lemma ignoring_attempt: "attempt acts w = (None, w') \<Longrightarrow> ignoring acts w = w'"
  by (induction acts arbitrary: w) (auto split: prod.splits option.splits)

lemma message_writes:
  assumes M: "faithful_messages X M holds" and "fits (length name)" and "writes holds act body"
  shows "writes holds (attempt [WriteMessageBegin M name t q, act, WriteMessageEnd M, Flush M]) (framed name t q body)"
proof -
  have "writes holds (attempt [WriteMessageBegin M name t q, act, WriteMessageEnd M, Flush M])
      (concat [[MessageBegin name t q], body, [MessageEnd], []])"
    by (rule writes_attempt) (use assms in \<open>simp add: faithful_messages_def\<close>)
  then show ?thesis by (simp add: framed_def)
qed

lemma send_exception_sends:
  assumes M: "faithful_messages X M holds" and "fits (length name)" and "fits (length text)" and "holds w us"
  shows "holds (send_exception M name k text q w) (us @ framed name EXCEPTION q [TException k text])"
proof -
  have "writes holds (attempt [WriteMessageBegin M name EXCEPTION q, TApplicationException_Write M k text,
      WriteMessageEnd M, Flush M]) (framed name EXCEPTION q [TException k text])"
    by (rule message_writes [OF M assms(2)]) (use M assms(3) in \<open>simp add: faithful_messages_def\<close>)
  from writesD [OF this assms(4)] show ?thesis
    unfolding send_exception_def using ignoring_attempt by metis
qed

lemma ReadMessageBegin_framed:
  assumes "faithful_messages X M holds" and "holds w (framed name t q body @ us)"
  obtains w' where "ReadMessageBegin M w = ((name, t, q, None), w')" and "holds w' (body @ MessageEnd # us)"
proof -
  have "reads holds (ReadMessageBegin M) [MessageBegin name t q] (\<lambda>r. r = (name, t, q, None))"
    using assms(1) by (simp add: faithful_messages_def)
  moreover have "holds w (MessageBegin name t q # body @ MessageEnd # us)"
    using assms(2) by (simp add: framed_def)
  ultimately show ?thesis using that by (blast elim: reads1D)
qed

lemma ReadMessageEnd_framed:
  assumes "faithful_messages X M holds" and "holds w (MessageEnd # us)"
  obtains w' where "ReadMessageEnd M w = (None, w')" and "holds w' us"
proof -
  have "reads holds (ReadMessageEnd M) [MessageEnd] (\<lambda>r. r = None)"
    using assms(1) by (simp add: faithful_messages_def)
  then show ?thesis using that assms(2) by (blast elim: reads1D)
qed

section \<open>One call\<close>

text \<open>The parts of a call of one method, for any method whose structs keep the contract of messages.\<close>

locale remote_method = args: message encode decode fresh wire small received +
    result: message encode_result decode_result fresh_result wire_result "\<lambda>_. True" "\<lambda>r. r"
  for encode :: "('w, 'e) TProtocol \<Rightarrow> 'a option \<Rightarrow> ('w, 'e) writer"
    and decode :: "('w, 'e) TProtocol \<Rightarrow> ('a, 'w, 'e) reader"
    and fresh :: 'a and wire :: "'a \<Rightarrow> tvalue" and small :: "'a \<Rightarrow> bool" and received :: "'a \<Rightarrow> 'a"
    and encode_result :: "('w, 'e) TProtocol \<Rightarrow> 'r option \<Rightarrow> ('w, 'e) writer"
    and decode_result :: "('w, 'e) TProtocol \<Rightarrow> ('r, 'w, 'e) reader"
    and fresh_result :: 'r and wire_result :: "'r \<Rightarrow> tvalue" +
  fixes name :: string
  assumes name_fits: "fits (length name)"
begin

lemma call_sent:
  assumes D: "duplex X Q R both" and "OutputProtocol c = Some Q" and "small m" and "both w us vs"
  shows "\<exists>w'. send_call name (\<lambda>P. encode P (Some m)) c w = (None, c\<lparr>SeqId := SeqId c + 1\<rparr>, w') \<and>
    both w' (us @ framed name CALL (SeqId c + 1) (tokens (wire m))) vs"
proof -
  have "writes (\<lambda>w us. both w us vs) (attempt [WriteMessageBegin Q name CALL (SeqId c + 1), encode (fields_of Q) (Some m),
      WriteMessageEnd Q, Flush Q]) (framed name CALL (SeqId c + 1) (tokens (wire m)))"
    by (rule message_writes [OF duplexD(1) [OF D] name_fits]) (rule args.write_wire [OF duplexD(3) [OF D] assms(3)])
  from writesD [OF this, where us = us] assms(4) obtain w' where
    "attempt [WriteMessageBegin Q name CALL (SeqId c + 1), encode (fields_of Q) (Some m), WriteMessageEnd Q, Flush Q] w = (None, w')"
    "both w' (us @ framed name CALL (SeqId c + 1) (tokens (wire m))) vs" by blast
  with assms(2) show ?thesis by (cases c) (simp add: send_call_def or_made_def)
qed

text \<open>The processor takes the request off and puts a reply on: the result, or the handler's error.\<close>

definition reply_tokens :: "'x thrift_errors \<Rightarrow> ('v \<Rightarrow> 'r) \<Rightarrow> i32 \<Rightarrow> 'x + 'v \<Rightarrow> token list" where
  "reply_tokens X res q ans =
     (case ans of
        Inr r \<Rightarrow> framed name REPLY q (tokens (wire_result (res r)))
      | Inl e \<Rightarrow> framed name EXCEPTION q
          [TException INTERNAL_ERROR (internal_error_text X name e)])"

definition answer_fits :: "'x thrift_errors \<Rightarrow> 'x + 'v \<Rightarrow> bool" where
  "answer_fits X ans =
     (case ans of
        Inr _ \<Rightarrow> True
      | Inl e \<Rightarrow> fits (length (internal_error_text X name e)))"

lemma call_processed:
  assumes D: "duplex X Q R both" and "both w (tokens (wire m) @ MessageEnd # us) vs"
    and "action (received m) s = Answer ans s'" and "answer_fits X ans"
  shows "\<exists>err w'. process_call X name decode fresh action (\<lambda>r P. encode_result P (Some (res r))) q Q R s w =
      Some (Processed True err s' w') \<and> both w' us (vs @ reply_tokens X res q ans)"
proof -
  obtain w1 where w1: "decode (fields_of Q) fresh w = Some (None, received m, w1)" "both w1 (MessageEnd # us) vs"
    using takesD [OF args.read_wire [OF duplexD(3) [OF D, of vs], of m], of w "MessageEnd # us"] assms(2) by blast
  obtain w2 where w2: "ReadMessageEnd Q w1 = (None, w2)" "both w2 us vs"
    using ReadMessageEnd_framed [OF duplexD(1) [OF D, of vs] w1(2)] by blast
  show ?thesis
  proof (cases ans)
    case (Inl e)
    let ?t = "internal_error_text X name e"
    have "both (send_exception R name INTERNAL_ERROR ?t q w2) us (vs @ framed name EXCEPTION q [TException INTERNAL_ERROR ?t])"
      by (rule send_exception_sends [OF duplexD(2) [OF D] name_fits _ w2(2)])
        (use assms(4) Inl in \<open>simp add: answer_fits_def\<close>)
    then show ?thesis
      using w1(1) w2(1) assms(3) by (simp add: process_call_def Inl reply_tokens_def)
  next
    case (Inr r)
    have "writes (\<lambda>w vs. both w us vs)
        (attempt [WriteMessageBegin R name REPLY q, encode_result (fields_of R) (Some (res r)), WriteMessageEnd R, Flush R])
        (framed name REPLY q (tokens (wire_result (res r))))"
      by (rule message_writes [OF duplexD(2) [OF D] name_fits]) (rule result.write_wire [OF duplexD(4) [OF D] TrueI])
    from first_error_writes [OF this, where us = vs] w2(2) obtain w3 where
      "first_error None [WriteMessageBegin R name REPLY q, encode_result (fields_of R) (Some (res r)), WriteMessageEnd R,
         Flush R] w2 = (None, w3)" "both w3 us (vs @ framed name REPLY q (tokens (wire_result (res r))))" by blast
    then show ?thesis
      using w1(1) w2(1) assms(3) by (simp add: process_call_def Inr reply_tokens_def)
  qed
qed

text \<open>The client takes the reply off.\<close>

lemma reply_received:
  assumes D: "duplex X Q R both" and "InputProtocol c = Some R"
    and "both w us (reply_tokens X res (SeqId c) ans @ vs)"
  shows "\<exists>r w'. recv_reply X name decode_result fresh_result c w =
      Some (case ans of Inl e \<Rightarrow> Some (Err (NewTApplicationException X INTERNAL_ERROR
          (internal_error_text X name e))) | Inr _ \<Rightarrow> None, r, c, w') \<and>
    (case ans of Inl _ \<Rightarrow> True | Inr v \<Rightarrow> r = res v) \<and> both w' us vs"
proof -
  have c: "c\<lparr>InputProtocol := Some R\<rparr> = c" using assms(2) by (cases c) simp
  note R = duplexD(2) [OF D, of us]
  show ?thesis
  proof (cases ans)
    case (Inl e)
    let ?t = "internal_error_text X name e"
    have "both w us (framed name EXCEPTION (SeqId c) [TException INTERNAL_ERROR ?t] @ vs)"
      using assms(3) by (simp add: reply_tokens_def Inl)
    from ReadMessageBegin_framed [OF R this] obtain w1 where
      w1: "ReadMessageBegin R w = ((name, EXCEPTION, SeqId c, None), w1)"
        "both w1 us (TException INTERNAL_ERROR ?t # MessageEnd # vs)" by auto
    have "reads (\<lambda>w vs. both w us vs) (TApplicationException_Read R) [TException INTERNAL_ERROR ?t]
        (\<lambda>r. r = Inr (NewTApplicationException X INTERNAL_ERROR ?t))"
      using R by (simp add: faithful_messages_def)
    with w1(2) obtain w2 where w2: "TApplicationException_Read R w1 = (Inr (NewTApplicationException X INTERNAL_ERROR ?t), w2)"
      "both w2 us (MessageEnd # vs)" by (auto elim: reads1D)
    obtain w3 where "ReadMessageEnd R w2 = (None, w3)" "both w3 us vs"
      using ReadMessageEnd_framed [OF R w2(2)] by blast
    then show ?thesis
      using assms(2) w1(1) w2(1) by (simp add: recv_reply_def or_made_def c Inl)
  next
    case (Inr v)
    have "both w us (framed name REPLY (SeqId c) (tokens (wire_result (res v))) @ vs)"
      using assms(3) by (simp add: reply_tokens_def Inr)
    from ReadMessageBegin_framed [OF R this] obtain w1 where
      w1: "ReadMessageBegin R w = ((name, REPLY, SeqId c, None), w1)"
        "both w1 us (tokens (wire_result (res v)) @ MessageEnd # vs)" by auto
    obtain w2 where w2: "decode_result (fields_of R) fresh_result w1 = Some (None, res v, w2)" "both w2 us (MessageEnd # vs)"
      using takesD [OF result.read_wire [OF duplexD(4) [OF D, of us], of "res v"], of w1 "MessageEnd # vs"] w1(2) by blast
    obtain w3 where "ReadMessageEnd R w2 = (None, w3)" "both w3 us vs"
      using ReadMessageEnd_framed [OF R w2(2)] by blast
    then show ?thesis
      using assms(2) w1(1) w2(1) by (simp add: recv_reply_def or_made_def c Inr)
  qed
qed

lemma call_dispatched:
  assumes D: "duplex X Q R both" and w: "both w (framed name CALL q (tokens (wire m)) @ us) vs"
    and p: "processorMap p name = Some (process_call X name decode fresh action (\<lambda>r P. encode_result P (Some (res r))))"
    and act: "action (received m) s = Answer ans s'" "answer_fits X ans"
  shows "\<exists>err w'. Process X p Q R s w = Some (Processed True err s' w') \<and> both w' us (vs @ reply_tokens X res q ans)"
proof -
  obtain w1 where w1: "ReadMessageBegin Q w = ((name, CALL, q, None), w1)" "both w1 (tokens (wire m) @ MessageEnd # us) vs"
    using ReadMessageBegin_framed [OF duplexD(1) [OF D, of vs] w] by blast
  from call_processed [OF D w1(2), where action = action and s = s, OF act] show ?thesis
    by (simp add: Process_def GetProcessorFunction_def w1(1) p)
qed

lemma call_answered:
  assumes D: "duplex X Q R both" and c: "OutputProtocol c = Some Q" "InputProtocol c = Some R"
    and "small m" and "both w [] []"
    and "processorMap p name = Some (process_call X name decode fresh action (\<lambda>r P. encode_result P (Some (res r))))"
    and "action (received m) s = Answer ans s'" and "answer_fits X ans"
  defines "c' \<equiv> c\<lparr>SeqId := SeqId c + 1\<rparr>"
  shows "\<exists>w1 err w2 r w3. send_call name (\<lambda>P. encode P (Some m)) c w = (None, c', w1) \<and>
    Process X p Q R s w1 = Some (Processed True err s' w2) \<and>
    recv_reply X name decode_result fresh_result c' w2 =
      Some (case ans of Inl e \<Rightarrow> Some (Err (NewTApplicationException X INTERNAL_ERROR (internal_error_text X name e)))
        | Inr _ \<Rightarrow> None, r, c', w3) \<and>
    (case ans of Inl _ \<Rightarrow> True | Inr v \<Rightarrow> r = res v) \<and> both w3 [] []"
proof -
  obtain w1 where w1: "send_call name (\<lambda>P. encode P (Some m)) c w = (None, c', w1)"
    "both w1 (framed name CALL (SeqId c') (tokens (wire m)) @ []) []"
    using call_sent [OF D c(1) assms(4,5)] by (auto simp: c'_def)
  obtain err w2 where w2: "Process X p Q R s w1 = Some (Processed True err s' w2)"
    "both w2 [] (reply_tokens X res (SeqId c') ans @ [])"
    using call_dispatched [OF D w1(2) assms(6-8)] by auto
  have "InputProtocol c' = Some R" using c(2) by (simp add: c'_def)
  from reply_received [OF D this w2(2)] w1(1) w2(1) show ?thesis by blast
qed

end

interpretation keys: remote_method SyncKeysArgs_Write SyncKeysArgs_Read NewSyncKeysArgs SyncKeysArgs_value SyncKeysArgs_small
    as_received SyncKeysResult_Write SyncKeysResult_Read NewSyncKeysResult "\<lambda>_. VStruct []" "''SyncKeys''"
  by (intro remote_method.intro remote_method_axioms.intro SyncKeysArgs.message_axioms SyncKeysResult.message_axioms fits_small)

interpretation config: remote_method SyncRateConfigArgs_Write SyncRateConfigArgs_Read NewSyncRateConfigArgs
    SyncRateConfigArgs_value SyncRateConfigArgs_small "\<lambda>m. m" SyncRateConfigResult_Write SyncRateConfigResult_Read
    NewSyncRateConfigResult "\<lambda>_. VStruct []" "''SyncRateConfig''"
  by (intro remote_method.intro remote_method_axioms.intro SyncRateConfigArgs.message_axioms SyncRateConfigResult.message_axioms fits_small)

interpretation incr: remote_method IncrActionArgs_Write IncrActionArgs_Read NewIncrActionArgs IncrActionArgs_value
    IncrActionArgs_small "\<lambda>m. m" IncrActionResult_Write IncrActionResult_Read NewIncrActionResult IncrActionResult_value
    "''IncrAction''"
  by (intro remote_method.intro remote_method_axioms.intro IncrActionArgs.message_axioms IncrActionResult.message_axioms fits_small)

interpretation global: remote_method RateLimitGlobalActionArgs_Write RateLimitGlobalActionArgs_Read
    NewRateLimitGlobalActionArgs RateLimitGlobalActionArgs_value RateLimitGlobalActionArgs_small "\<lambda>m. m"
    RateLimitGlobalActionResult_Write RateLimitGlobalActionResult_Read NewRateLimitGlobalActionResult
    RateLimitGlobalActionResult_value "''RateLimitGlobalAction''"
  by (intro remote_method.intro remote_method_axioms.intro RateLimitGlobalActionArgs.message_axioms
      RateLimitGlobalActionResult.message_axioms fits_small)

section \<open>Sessions\<close>

text \<open>
  A request, and what a caller sees of its answer. \<open>local_call\<close> asks the handler directly;
  \<open>remote_call\<close> sends the request with the client, lets the processor process it and receives the
  reply (\<open>StoreNodeClient_...\<close> is the first half followed by the second). They are \<^const>\<open>None\<close> if
  something does not return.
\<close>

datatype api_request =
    ReqSyncKeys "SyncCommand list"
  | ReqSyncRateConfig string i32 i32 bool
  | ReqIncrAction string i32 i32 i32 bool
  | ReqRateLimitGlobalAction string i32

datatype 'e response = Done | Value bool | Failed 'e

definition respond ::
  "'e thrift_errors \<Rightarrow> string \<Rightarrow> ('v \<Rightarrow> 'e response) \<Rightarrow> ('e + 'v, 's) answer \<Rightarrow> ('e response \<times> 's) option" where
  "respond X name f ans =
     (case ans of
        Answer (Inr v) s \<Rightarrow> Some (f v, s)
      | Answer (Inl e) s \<Rightarrow> Some (Failed (NewTApplicationException X INTERNAL_ERROR (internal_error_text X name e)), s)
      | _ \<Rightarrow> None)"

fun local_call :: "'e thrift_errors \<Rightarrow> ('s, 'e) StoreNode \<Rightarrow> api_request \<Rightarrow> 's \<Rightarrow> ('e response \<times> 's) option" where
  "local_call X h (ReqSyncKeys syncs) s = respond X ''SyncKeys'' (\<lambda>_. Done) (sn_SyncKeys h (map Some syncs) s)"
| "local_call X h (ReqSyncRateConfig k t wd pk) s =
     respond X ''SyncRateConfig'' (\<lambda>_. Done) (sn_SyncRateConfig h k t wd pk s)"
| "local_call X h (ReqIncrAction k n t wd pk) s = respond X ''IncrAction'' Value (sn_IncrAction h k n t wd pk s)"
| "local_call X h (ReqRateLimitGlobalAction k n) s =
     respond X ''RateLimitGlobalAction'' Value (sn_RateLimitGlobalAction h k n s)"

fun send_request :: "api_request \<Rightarrow> ('t, 'w, 'e) StoreNodeClient \<Rightarrow> 'w \<Rightarrow> 'e failure option \<times> ('t, 'w, 'e) StoreNodeClient \<times> 'w" where
  "send_request (ReqSyncKeys syncs) = sendSyncKeys (map Some syncs)"
| "send_request (ReqSyncRateConfig k t wd pk) = sendSyncRateConfig k t wd pk"
| "send_request (ReqIncrAction k n t wd pk) = sendIncrAction k n t wd pk"
| "send_request (ReqRateLimitGlobalAction k n) = sendRateLimitGlobalAction k n"

definition response_of ::
  "('v \<Rightarrow> 'e response) \<Rightarrow> ('e failure option \<times> 'v \<times> 'c \<times> 'w) option \<Rightarrow> ('e response \<times> 'c \<times> 'w) option" where
  "response_of f r =
     (case r of
        Some (None, v, c, w) \<Rightarrow> Some (f v, c, w)
      | Some (Some (Err e), _, c, w) \<Rightarrow> Some (Failed e, c, w)
      | _ \<Rightarrow> None)"

fun recv_response :: "'e thrift_errors \<Rightarrow> api_request \<Rightarrow> ('t, 'w, 'e) StoreNodeClient \<Rightarrow> 'w \<Rightarrow> ('e response \<times> ('t, 'w, 'e) StoreNodeClient \<times> 'w) option" where
  "recv_response X (ReqSyncKeys _) c w = response_of (\<lambda>_. Done) (recvSyncKeys X c w)"
| "recv_response X (ReqSyncRateConfig _ _ _ _) c w = response_of (\<lambda>_. Done) (recvSyncRateConfig X c w)"
| "recv_response X (ReqIncrAction _ _ _ _ _) c w = response_of Value (recvIncrAction X c w)"
| "recv_response X (ReqRateLimitGlobalAction _ _) c w = response_of Value (recvRateLimitGlobalAction X c w)"

definition remote_call ::
  "'e thrift_errors \<Rightarrow> ('s, 'w, 'e) StoreNodeProcessor \<Rightarrow> ('w, 'e) TMessageProtocol \<Rightarrow> ('w, 'e) TMessageProtocol \<Rightarrow>
   api_request \<Rightarrow> ('t, 'w, 'e) StoreNodeClient \<Rightarrow> 's \<Rightarrow> 'w \<Rightarrow>
   ('e response \<times> ('t, 'w, 'e) StoreNodeClient \<times> 's \<times> 'w) option" where
  "remote_call X p Q R req c s w =
     (case send_request req c w of
        (Some _, _, _) \<Rightarrow> None
      | (None, c, w) \<Rightarrow>
          (case Process X p Q R s w of
             Some (Processed _ _ s w) \<Rightarrow>
               map_option (\<lambda>(r, c, w). (r, c, s, w)) (recv_response X req c w)
           | _ \<Rightarrow> None))"

fun local_session :: "'e thrift_errors \<Rightarrow> ('s, 'e) StoreNode \<Rightarrow> api_request list \<Rightarrow> 's \<Rightarrow> ('e response list \<times> 's) option" where
  "local_session X h [] s = Some ([], s)"
| "local_session X h (req # reqs) s =
     Option.bind (local_call X h req s) (\<lambda>(r, s).
       map_option (\<lambda>(rs, s). (r # rs, s)) (local_session X h reqs s))"

fun remote_session ::
  "'e thrift_errors \<Rightarrow> ('s, 'w, 'e) StoreNodeProcessor \<Rightarrow> ('w, 'e) TMessageProtocol \<Rightarrow> ('w, 'e) TMessageProtocol \<Rightarrow>
   api_request list \<Rightarrow> ('t, 'w, 'e) StoreNodeClient \<Rightarrow> 's \<Rightarrow> 'w \<Rightarrow>
   ('e response list \<times> ('t, 'w, 'e) StoreNodeClient \<times> 's \<times> 'w) option" where
  "remote_session X p Q R [] c s w = Some ([], c, s, w)"
| "remote_session X p Q R (req # reqs) c s w =
     Option.bind (remote_call X p Q R req c s w) (\<lambda>(r, c, s, w).
       map_option (\<lambda>(rs, c, s, w). (r # rs, c, s, w)) (remote_session X p Q R reqs c s w))"

text \<open>Requests whose strings and lists fit the wire.\<close>

fun request_small :: "api_request \<Rightarrow> bool" where
  "request_small (ReqSyncKeys syncs) \<longleftrightarrow> fits (length syncs) \<and> list_all SyncCommand_small syncs"
| "request_small (ReqSyncRateConfig k _ _ _) \<longleftrightarrow> fits (length k)"
| "request_small (ReqIncrAction k _ _ _ _) \<longleftrightarrow> fits (length k)"
| "request_small (ReqRateLimitGlobalAction k _) \<longleftrightarrow> fits (length k)"

lemma processor_functions:
  "processorMap (NewStoreNodeProcessor X h) ''SyncKeys'' = Some (processSyncKeys X h)"
  "processorMap (NewStoreNodeProcessor X h) ''SyncRateConfig'' = Some (processSyncRateConfig X h)"
  "processorMap (NewStoreNodeProcessor X h) ''IncrAction'' = Some (processIncrAction X h)"
  "processorMap (NewStoreNodeProcessor X h) ''RateLimitGlobalAction'' = Some (processRateLimitGlobalAction X h)"
  by (simp_all add: NewStoreNodeProcessor_def)

lemma respond_Answer:
  assumes "respond X name f ans = Some (r, s')"
  obtains a where "ans = Answer a s'" and
    "r = (case a of Inr v \<Rightarrow> f v | Inl e \<Rightarrow> Failed (NewTApplicationException X INTERNAL_ERROR (internal_error_text X name e)))"
  using assms by (auto simp: respond_def split: answer.splits sum.splits)

lemma internal_error_fits:
  assumes "fits (length (error_text X e) + 50)" and "length name \<le> 21"
  shows "fits (length (internal_error_text X name e))"
  using assms by (simp add: internal_error_text_def fits_def)

text \<open>A call through client and processor has the outcome of asking the handler.\<close>

context remote_method
begin

lemma outcome:
  assumes D: "duplex X Q R both" and c: "OutputProtocol c = Some Q" "InputProtocol c = Some R"
    and m: "small m" "both w [] []"
    and p: "processorMap p name = Some (process_call X name decode fresh action (\<lambda>v P. encode_result P (Some (res v))))"
    and ok: "respond X name f (action (received m) s) = Some (r, s')"
    and get: "\<And>v. get (res v) = v" and short: "length name \<le> 21" "\<And>e. fits (length (error_text X e) + 50)"
  defines "c' \<equiv> c\<lparr>SeqId := SeqId c + 1\<rparr>"
  shows "\<exists>w1 err w2 w3. send_call name (\<lambda>P. encode P (Some m)) c w = (None, c', w1) \<and>
    Process X p Q R s w1 = Some (Processed True err s' w2) \<and>
    response_of f (reply_value get zero (recv_reply X name decode_result fresh_result c' w2)) = Some (r, c', w3) \<and>
    both w3 [] []"
proof -
  obtain ans where ans: "action (received m) s = Answer ans s'" and
    r: "r = (case ans of Inr v \<Rightarrow> f v
      | Inl e \<Rightarrow> Failed (NewTApplicationException X INTERNAL_ERROR (internal_error_text X name e)))"
    using ok by (rule respond_Answer)
  have "answer_fits X ans"
    using internal_error_fits [OF short(2,1)] by (simp add: answer_fits_def split: sum.split)
  from call_answered [OF D c m p ans this] obtain w1 err w2 q w3 where
    "send_call name (\<lambda>P. encode P (Some m)) c w = (None, c', w1)" "Process X p Q R s w1 = Some (Processed True err s' w2)"
    "recv_reply X name decode_result fresh_result c' w2 =
      Some (case ans of Inl e \<Rightarrow> Some (Err (NewTApplicationException X INTERNAL_ERROR (internal_error_text X name e)))
        | Inr _ \<Rightarrow> None, q, c', w3)"
    "case ans of Inl _ \<Rightarrow> True | Inr v \<Rightarrow> q = res v" "both w3 [] []"
    unfolding c'_def by blast
  then show ?thesis
    using get by (cases ans) (auto simp: response_of_def reply_value_def r)
qed

end

lemma remote_call_answers:
  assumes D: "duplex X Q R both" and c: "OutputProtocol c = Some Q" "InputProtocol c = Some R"
    and small: "request_small req" and w: "both w [] []"
    and ok: "local_call X h req s = Some (r, s')" and X: "\<And>e. fits (length (error_text X e) + 50)"
  shows "\<exists>w'. remote_call X (NewStoreNodeProcessor X h) Q R req c s w = Some (r, c\<lparr>SeqId := SeqId c + 1\<rparr>, s', w') \<and>
    both w' [] []"
proof (cases req)
  case (ReqSyncKeys syncs)
  let ?m = "\<lparr>Syncs = map Some syncs\<rparr>"
  have m: "SyncKeysArgs_small ?m" "as_received ?m = ?m"
    using small by (simp_all add: ReqSyncKeys SyncKeysArgs_small_def list_all_length as_received_def)
  show ?thesis
    using keys.outcome [OF D c m(1) w, of "NewStoreNodeProcessor X h" "\<lambda>args. sn_SyncKeys h (Syncs args)"
        "\<lambda>_. NewSyncKeysResult" "\<lambda>_. Done" s r s' "\<lambda>_. ()" "()"] ok X m(2)
    by (auto simp: ReqSyncKeys processor_functions processSyncKeys_def remote_call_def sendSyncKeys_def recvSyncKeys_def)
next
  case (ReqSyncRateConfig k t wd pk)
  let ?m = "\<lparr>arg_Key = k, arg_Threshold = t, arg_Window = wd, arg_Peakaveraged = pk\<rparr>"
  have m: "SyncRateConfigArgs_small ?m" using small by (simp add: ReqSyncRateConfig SyncRateConfigArgs_small_def)
  show ?thesis
    using config.outcome [OF D c m w, of "NewStoreNodeProcessor X h" "\<lambda>args. sn_SyncRateConfig h (arg_Key args)
        (arg_Threshold args) (arg_Window args) (arg_Peakaveraged args)" "\<lambda>_. NewSyncRateConfigResult" "\<lambda>_. Done" s r s'
        "\<lambda>_. ()" "()"] ok X
    by (auto simp: ReqSyncRateConfig processor_functions processSyncRateConfig_def remote_call_def sendSyncRateConfig_def
        recvSyncRateConfig_def)
next
  case (ReqIncrAction k n t wd pk)
  let ?m = "\<lparr>inc_Key = k, inc_Count = n, inc_Threshold = t, inc_Window = wd, inc_Peakaveraged = pk\<rparr>"
  have m: "IncrActionArgs_small ?m" using small by (simp add: ReqIncrAction IncrActionArgs_small_def)
  show ?thesis
    using incr.outcome [OF D c m w, of "NewStoreNodeProcessor X h" "\<lambda>args. sn_IncrAction h (inc_Key args)
        (inc_Count args) (inc_Threshold args) (inc_Window args) (inc_Peakaveraged args)"
        "\<lambda>v. NewIncrActionResult\<lparr>inc_Success := Some v\<rparr>" Value s r s' IncrActionResult_GetSuccess False] ok X
    by (auto simp: ReqIncrAction processor_functions processIncrAction_def remote_call_def sendIncrAction_def
        recvIncrAction_def IncrActionResult_GetSuccess_def)
next
  case (ReqRateLimitGlobalAction k n)
  let ?m = "\<lparr>glob_Key = k, glob_Count = n\<rparr>"
  have m: "RateLimitGlobalActionArgs_small ?m" using small by (simp add: ReqRateLimitGlobalAction RateLimitGlobalActionArgs_small_def)
  show ?thesis
    using global.outcome [OF D c m w, of "NewStoreNodeProcessor X h" "\<lambda>args. sn_RateLimitGlobalAction h (glob_Key args)
        (glob_Count args)" "\<lambda>v. NewRateLimitGlobalActionResult\<lparr>glob_Success := Some v\<rparr>" Value s r s'
        RateLimitGlobalActionResult_GetSuccess False] ok X
    by (auto simp: ReqRateLimitGlobalAction processor_functions processRateLimitGlobalAction_def remote_call_def
        sendRateLimitGlobalAction_def recvRateLimitGlobalAction_def RateLimitGlobalActionResult_GetSuccess_def)
qed

lemma remote_session_answers:
  assumes D: "duplex X Q R both" and "OutputProtocol c = Some Q" "InputProtocol c = Some R"
    and "list_all request_small reqs" and "both w [] []"
    and "local_session X h reqs s = Some (rs, s')" and X: "\<And>e. fits (length (error_text X e) + 50)"
  shows "\<exists>w'. remote_session X (NewStoreNodeProcessor X h) Q R reqs c s w =
      Some (rs, c\<lparr>SeqId := SeqId c + of_nat (length reqs)\<rparr>, s', w') \<and> both w' [] []"
  using assms(2-6)
proof (induction reqs arbitrary: c s w rs)
  case (Cons req reqs)
  from Cons.prems(5) obtain r s1 rs1 where r: "local_call X h req s = Some (r, s1)"
    "local_session X h reqs s1 = Some (rs1, s')" "rs = r # rs1"
    by (auto simp: bind_eq_Some_conv)
  let ?c = "c\<lparr>SeqId := SeqId c + 1\<rparr>"
  obtain w1 where w1: "remote_call X (NewStoreNodeProcessor X h) Q R req c s w = Some (r, ?c, s1, w1)" "both w1 [] []"
    using remote_call_answers [OF D Cons.prems(1,2) _ Cons.prems(4) r(1) X] Cons.prems(3) by auto
  obtain w2 where "remote_session X (NewStoreNodeProcessor X h) Q R reqs ?c s1 w1 =
      Some (rs1, ?c\<lparr>SeqId := SeqId ?c + of_nat (length reqs)\<rparr>, s', w2)" "both w2 [] []"
    using Cons.IH [OF _ _ _ w1(2) r(2), of ?c] Cons.prems(1-3) by auto
  then show ?case using w1(1) r(3) by (simp add: add.assoc)
qed simp

section \<open>A connection that keeps the contract\<close>

text \<open>Two sequences of tokens, one for each direction; a protocol acts on one of them through a lens.\<close>

definition through :: "('w \<Rightarrow> 'p) \<Rightarrow> ('p \<Rightarrow> 'w \<Rightarrow> 'w) \<Rightarrow> ('p \<Rightarrow> 'r \<times> 'p) \<Rightarrow> 'w \<Rightarrow> 'r \<times> 'w" where
  "through get put act w = (case act (get w) of (r, p) \<Rightarrow> (r, put p w))"

definition protocol_through :: "('w \<Rightarrow> 'p) \<Rightarrow> ('p \<Rightarrow> 'w \<Rightarrow> 'w) \<Rightarrow> ('p, 'e) TProtocol \<Rightarrow> ('w, 'e) TProtocol" where
  "protocol_through get put P = \<lparr>
     WriteStructBegin = \<lambda>n. through get put (WriteStructBegin P n), WriteStructEnd = through get put (WriteStructEnd P),
     WriteFieldBegin = \<lambda>n t i. through get put (WriteFieldBegin P n t i),
     WriteFieldEnd = through get put (WriteFieldEnd P), WriteFieldStop = through get put (WriteFieldStop P),
     WriteListBegin = \<lambda>t n. through get put (WriteListBegin P t n), WriteListEnd = through get put (WriteListEnd P),
     WriteBool = \<lambda>b. through get put (WriteBool P b), WriteI32 = \<lambda>n. through get put (WriteI32 P n),
     WriteI64 = \<lambda>n. through get put (WriteI64 P n), WriteString = \<lambda>s. through get put (WriteString P s),
     ReadStructBegin = through get put (ReadStructBegin P), ReadStructEnd = through get put (ReadStructEnd P),
     ReadFieldBegin = through get put (ReadFieldBegin P), ReadFieldEnd = through get put (ReadFieldEnd P),
     ReadListBegin = through get put (ReadListBegin P), ReadListEnd = through get put (ReadListEnd P),
     ReadBool = through get put (ReadBool P), ReadI32 = through get put (ReadI32 P),
     ReadI64 = through get put (ReadI64 P), ReadString = through get put (ReadString P),
     Skip = \<lambda>t. through get put (Skip P t), PrependError = PrependError P\<rparr>"

definition token_messages ::
  "('w \<Rightarrow> token list) \<Rightarrow> (token list \<Rightarrow> 'w \<Rightarrow> 'w) \<Rightarrow> ('w, string) TMessageProtocol" where
  "token_messages get put = \<lparr>
     fields_of = protocol_through get put token_protocol,
     WriteMessageBegin = \<lambda>n t q. through get put (write_token (MessageBegin n t q)),
     WriteMessageEnd = through get put (write_token MessageEnd),
     Flush = \<lambda>w. (None, w),
     TApplicationException_Write = \<lambda>k s. through get put (write_token (TException k s)),
     ReadMessageBegin = through get put (\<lambda>ts.
       case ts of
         MessageBegin n t q # us \<Rightarrow> ((n, t, q, None), us)
       | _ \<Rightarrow> (([], CALL, 0, Some ''unexpected''), ts)),
     ReadMessageEnd = through get put (read_mark MessageEnd),
     TApplicationException_Read = through get put (read_token (\<lambda>t. case t of TException k s \<Rightarrow> Some s | _ \<Rightarrow> None))\<rparr>"

definition token_errors :: "string thrift_errors" where
  "token_errors = \<lparr>NewTApplicationException = \<lambda>k s. s, error_text = \<lambda>_. ''failed''\<rparr>"

abbreviation request_protocol :: "(token list \<times> token list, string) TMessageProtocol" where
  "request_protocol \<equiv> token_messages fst (\<lambda>us w. (us, snd w))"

abbreviation reply_protocol :: "(token list \<times> token list, string) TMessageProtocol" where
  "reply_protocol \<equiv> token_messages snd (\<lambda>vs w. (fst w, vs))"

lemma through_simps [simp]:
  "fst (through get put act w) = fst (act (get w))" "snd (through get put act w) = put (snd (act (get w))) w"
  by (simp_all add: through_def split_beta)

lemma writes_through:
  assumes "writes holds act ts" and "\<And>p w. get (put p w) = p" and "\<And>p w. I (put p w) = I w"
  shows "writes (\<lambda>w us. holds (get w) us \<and> I w) (through get put act) ts"
  using assms by (simp add: writes_def) blast

lemma reads_through:
  assumes "reads holds act ts ok" and "\<And>p w. get (put p w) = p" and "\<And>p w. I (put p w) = I w"
  shows "reads (\<lambda>w us. holds (get w) us \<and> I w) (through get put act) ts ok"
  using assms by (simp add: reads_def) blast

lemma faithful_through:
  assumes P: "faithful P holds" and lens: "\<And>p w. get (put p w) = p" "\<And>p w. I (put p w) = I w"
  shows "faithful (protocol_through get put P) (\<lambda>w us. holds (get w) us \<and> I w)"
proof -
  note wr = writes_through [where holds = holds and get = get and put = put and I = I, OF _ lens]
  note rd = reads_through [where holds = holds and get = get and put = put and I = I, OF _ lens]
  note facts = P [unfolded faithful_def]
  show ?thesis
    unfolding faithful_def protocol_through_def TProtocol.simps
    by (intro conjI allI impI; (rule wr | rule rd); insert facts; simp only: simp_thms)
qed

lemma token_marks:
  "writes (=) (write_token t) [t]" "reads (=) (read_mark t) [t] (\<lambda>r. r = None)"
  "f t = Some v \<Longrightarrow> reads (=) (read_token f) [t] (\<lambda>r. r = Inr v)"
  by (auto simp: writes_def reads_def write_token_def read_mark_def read_token_def)

lemma token_messages_faithful:
  assumes lens: "\<And>p w. get (put p w) = p" "\<And>p w. I (put p w) = I w"
  shows "faithful_messages token_errors (token_messages get put) (\<lambda>w us. get w = us \<and> I w)"
proof -
  note wr = writes_through [where holds = "(=)" and get = get and put = put and I = I, OF _ lens]
  note rd = reads_through [where holds = "(=)" and get = get and put = put and I = I, OF _ lens]
  show ?thesis
    unfolding faithful_messages_def token_messages_def TMessageProtocol.simps
  proof (intro conjI allI impI)
    show "faithful (protocol_through get put token_protocol) (\<lambda>w us. get w = us \<and> I w)"
      by (rule faithful_through [where holds = "(=)" and get = get and put = put and I = I, OF token_protocol_faithful lens])
  next
    fix n t q
    show "reads (\<lambda>w us. get w = us \<and> I w) (through get put (\<lambda>ts. case ts of
         MessageBegin n t q # us \<Rightarrow> ((n, t, q, None), us) | _ \<Rightarrow> (([], CALL, 0, Some ''unexpected''), ts)))
       [MessageBegin n t q] (\<lambda>r. r = (n, t, q, None))"
      by (rule rd) (simp add: reads_def)
  next
    show "writes (\<lambda>w us. get w = us \<and> I w) (\<lambda>w. (None, w)) []" by (simp add: writes_def)
  next
    fix k s
    show "reads (\<lambda>w us. get w = us \<and> I w)
        (through get put (read_token (\<lambda>t. case t of TException k s \<Rightarrow> Some s | _ \<Rightarrow> None))) [TException k s]
        (\<lambda>r. r = Inr (NewTApplicationException token_errors k s))"
      by (rule rd) (simp add: token_errors_def token_marks)
  qed (rule wr rd, rule token_marks)+
qed

lemma token_duplex: "duplex token_errors request_protocol reply_protocol (\<lambda>w us vs. w = (us, vs))"
  unfolding duplex_def
proof (intro conjI allI)
  fix vs :: "token list"
  show "faithful_messages token_errors request_protocol (\<lambda>w us. w = (us, vs))"
    using token_messages_faithful [of fst "\<lambda>us w. (us, snd w)" "\<lambda>w. snd w = vs"]
    by (simp add: prod_eq_iff)
next
  fix us :: "token list"
  show "faithful_messages token_errors reply_protocol (\<lambda>w vs. w = (us, vs))"
    using token_messages_faithful [of snd "\<lambda>vs w. (fst w, vs)" "\<lambda>w. fst w = us"]
    by (simp add: prod_eq_iff conj_commute)
qed

section \<open>Properties\<close>

text \<open>
  C23: calling a method through the generated client and processor is calling the handler. For any
  sequence of requests that the handler answers, the client gets the handler's results in order,
  and for an answer that is an error the exception with its text; the handler ends in the state
  that the direct calls leave, nothing stays on the connection, and the sequence number has
  counted the requests, also where it wraps around.
\<close>

theorem session_is_local:
  assumes "duplex X Q R both" and "OutputProtocol c = Some Q" and "InputProtocol c = Some R"
    and "list_all request_small reqs" and "both w [] []"
    and "local_session X h reqs s = Some (rs, s')" and "\<And>e. fits (length (error_text X e) + 50)"
  shows "case remote_session X (NewStoreNodeProcessor X h) Q R reqs c s w of
      None \<Rightarrow> False
    | Some (rs', c', s'', w') \<Rightarrow>
        rs' = rs \<and> s'' = s' \<and> c' = c\<lparr>SeqId := SeqId c + of_nat (length reqs)\<rparr> \<and> both w' [] []"
  using remote_session_answers [OF assms] by auto

text \<open>A handler with a total, which refuses a negative count.\<close>

definition counting_handler :: "(int, string) StoreNode" where
  "counting_handler = \<lparr>
     sn_SyncKeys = \<lambda>syncs s. Answer (Inr ()) (s + (\<Sum>c\<leftarrow>syncs. case c of None \<Rightarrow> 0 | Some c \<Rightarrow> sint (sc_Count c))),
     sn_SyncRateConfig = \<lambda>_ _ _ _ s. Answer (Inr ()) s,
     sn_IncrAction = \<lambda>_ n t _ _ s. if n <s 0 then Answer (Inl ''negative'') s else Answer (Inr (sint t < s + sint n)) (s + sint n),
     sn_RateLimitGlobalAction = \<lambda>_ n s. Answer (Inr False) (s + sint n)\<rparr>"

theorem session_is_local_witness:
  "case remote_session token_errors (NewStoreNodeProcessor token_errors counting_handler) request_protocol reply_protocol
      [ReqIncrAction ''k'' 3 5 60 False, ReqIncrAction ''k'' (-1) 5 60 False, ReqIncrAction ''k'' 3 5 60 False]
      (NewStoreNodeClientProtocol () (Some reply_protocol) (Some request_protocol)) 0 ([], []) of
     None \<Rightarrow> False
   | Some (rs, c', s', w') \<Rightarrow>
       rs = [Value False, Failed (internal_error_text token_errors ''IncrAction'' ''negative''), Value True] \<and>
       s' = 6 \<and> SeqId c' = 3 \<and> w' = ([], [])"
proof -
  let ?reqs = "[ReqIncrAction ''k'' 3 5 60 False, ReqIncrAction ''k'' (-1) 5 60 False, ReqIncrAction ''k'' 3 5 60 False]"
  let ?c = "NewStoreNodeClientProtocol () (Some reply_protocol) (Some request_protocol)"
  have "local_session token_errors counting_handler ?reqs 0 =
      Some ([Value False, Failed (internal_error_text token_errors ''IncrAction'' ''negative''), Value True], 6)"
    by (simp add: counting_handler_def respond_def signed_less token_errors_def)
  from session_is_local [OF token_duplex _ _ _ refl this, of ?c]
  show ?thesis
    by (simp add: NewStoreNodeClientProtocol_def fits_def token_errors_def split: option.splits prod.splits)
qed

text \<open>
  C24: what the client does with a reply that is not the one it waits for. It reports a wrong method
  name, a wrong sequence number or a wrong type of message, in this order of precedence, and it
  has then taken only the header off the connection: the body of the reply stays, in front of
  everything that comes later.
\<close>

theorem unexpected_reply_left_unread:
  assumes "duplex X Q R both" and "InputProtocol c = Some R" and "both w us (framed name' t q body @ vs)"
    and "name' = name \<Longrightarrow> q = SeqId c \<Longrightarrow> t \<noteq> REPLY \<and> t \<noteq> EXCEPTION"
  shows "case recv_reply X name decode fresh c w of
      Some (Some (Err e), r, c', w') \<Rightarrow>
        e = (if name' \<noteq> name then NewTApplicationException X WRONG_METHOD_NAME (name @ '' failed: wrong method name'')
          else if q \<noteq> SeqId c then NewTApplicationException X BAD_SEQUENCE_ID (name @ '' failed: out of sequence response'')
          else NewTApplicationException X INVALID_MESSAGE_TYPE_EXCEPTION (name @ '' failed: invalid message type'')) \<and>
        r = fresh \<and> c' = c \<and> both w' us (body @ MessageEnd # vs)
    | _ \<Rightarrow> False"
proof -
  have c: "c\<lparr>InputProtocol := Some R\<rparr> = c" using assms(2) by (cases c) simp
  obtain w1 where "ReadMessageBegin R w = ((name', t, q, None), w1)" "both w1 us (body @ MessageEnd # vs)"
    using ReadMessageBegin_framed [OF duplexD(2) [OF assms(1), of us] assms(3)] by blast
  then show ?thesis
    using assms(2,4) by (auto simp: recv_reply_def or_made_def c)
qed

theorem unexpected_reply_left_unread_witness:
  "case recvIncrAction token_errors
      (NewStoreNodeClientProtocol () (Some reply_protocol) (Some request_protocol)\<lparr>SeqId := 8\<rparr>)
      ([], framed ''IncrAction'' REPLY 7 [StructBegin, FieldStop, StructEnd]) of
     Some (Some (Err e), r, c', w') \<Rightarrow>
       e = ''IncrAction failed: out of sequence response'' \<and> w' = ([], [StructBegin, FieldStop, StructEnd, MessageEnd])
   | _ \<Rightarrow> False"
  using unexpected_reply_left_unread [OF token_duplex, where us = "[]" and name' = "''IncrAction''" and t = REPLY and q = 7
      and body = "[StructBegin, FieldStop, StructEnd]" and vs = "[]" and name = "''IncrAction''"
      and decode = IncrActionResult_Read and fresh = NewIncrActionResult
      and c = "NewStoreNodeClientProtocol () (Some reply_protocol) (Some request_protocol)\<lparr>SeqId := 8\<rparr>"
      and w = "([], framed ''IncrAction'' REPLY 7 [StructBegin, FieldStop, StructEnd])"]
  by (auto simp: NewStoreNodeClientProtocol_def recvIncrAction_def reply_value_def token_errors_def
      split: option.splits prod.splits failure.splits)

lemma no_processor:
  "name \<notin> {''SyncKeys'', ''SyncRateConfig'', ''IncrAction'', ''RateLimitGlobalAction''} \<Longrightarrow>
    GetProcessorFunction name (NewStoreNodeProcessor X h) = None"
  by (simp add: GetProcessorFunction_def NewStoreNodeProcessor_def)

text \<open>
  a request for an unknown method is answered with an exception. The processor takes the whole
  request off the connection, also when its arguments are of types it has never seen, does not
  touch the handler's state, and can go on with the next request.
\<close>

theorem unknown_method_refused:
  assumes "duplex X Q R both" and "name \<notin> {''SyncKeys'', ''SyncRateConfig'', ''IncrAction'', ''RateLimitGlobalAction''}"
    and "fits (length name + 17)" and "both w (framed name t q (tokens (VStruct fs)) @ us) vs"
  shows "case Process X (NewStoreNodeProcessor X h) Q R s w of
      Some (Processed ok err s' w') \<Rightarrow>
        \<not> ok \<and> err = Some (NewTApplicationException X UNKNOWN_METHOD (''Unknown function '' @ name)) \<and> s' = s \<and>
        both w' us (vs @ framed name EXCEPTION q [TException UNKNOWN_METHOD (''Unknown function '' @ name)])
    | _ \<Rightarrow> False"
proof -
  note Q = duplexD(1) [OF assms(1), of vs]
  obtain w1 where w1: "ReadMessageBegin Q w = ((name, t, q, None), w1)" "both w1 (tokens (VStruct fs) @ MessageEnd # us) vs"
    using ReadMessageBegin_framed [OF Q assms(4)] by blast
  have "reads (\<lambda>w us. both w us vs) (Skip (fields_of Q) (type_of (VStruct fs))) (tokens (VStruct fs)) (\<lambda>r. r = None)"
    using duplexD(3) [OF assms(1), of vs] by (simp add: faithful_def del: tokens.simps type_of.simps)
  from readsD [OF this w1(2)] obtain w2 where w2: "Skip (fields_of Q) STRUCT w1 = (None, w2)" "both w2 (MessageEnd # us) vs"
    by auto
  obtain w3 where w3: "ReadMessageEnd Q w2 = (None, w3)" "both w3 us vs"
    using ReadMessageEnd_framed [OF Q w2(2)] by blast
  let ?text = "''Unknown function '' @ name"
  have "fits (length name)" "fits (length ?text)" using assms(3) by (simp_all add: fits_def)
  from send_exception_sends [OF duplexD(2) [OF assms(1)] this w3(2)]
  have "both (send_exception R name UNKNOWN_METHOD ?text q w3) us (vs @ framed name EXCEPTION q [TException UNKNOWN_METHOD ?text])" .
  then show ?thesis by (simp add: Process_def w1(1) w2(1) w3(1) no_processor [OF assms(2)])
qed

theorem unknown_method_refused_witness:
  "case Process token_errors (NewStoreNodeProcessor token_errors counting_handler) request_protocol reply_protocol 5
      (framed ''Reset'' CALL 3 (tokens (VStruct [(1, VList I64 [VI64 7])])), []) of
     Some (Processed ok err s' w') \<Rightarrow>
       \<not> ok \<and> s' = 5 \<and> w' = ([], framed ''Reset'' EXCEPTION 3 [TException UNKNOWN_METHOD ''Unknown function Reset''])
   | _ \<Rightarrow> False"
  using unknown_method_refused [OF token_duplex, of "''Reset''" "(framed ''Reset'' CALL 3 (tokens (VStruct [(1, VList I64 [VI64 7])])), [])"
      CALL 3 "[(1, VList I64 [VI64 7])]" "[]" "[]", where h = counting_handler and s = 5]
  by (simp add: fits_def split: option.splits processed.splits)

end
