(* ===== verification/Rpc.thy ===== *)
theory Rpc
  imports Node Codec
begin

text \<open>
  gen-go/com/tchan-com.go: the server that dispatches the remote methods to the store
  (\<open>handle_request\<close> and the four \<open>handle...\<close>, \<open>Handle\<close>) and the client stubs. The transport,
  \<open>thrift.TChanClient\<close>, is not the repository's: its \<open>Call\<close> is a parameter.
\<close>

section \<open>The server\<close>

text \<open>
  The interface of the handler, and what the server returns for a request: whether it succeeded,
  the result struct to be written, the error, and the state and protocol after it. \<open>errorf\<close> is
  the error value that \<open>fmt.Errorf\<close> makes of a text.
\<close>

record ('w, 'e) TChanStoreNode =
  tn_IncrAction :: "string \<Rightarrow> i32 \<Rightarrow> i32 \<Rightarrow> i32 \<Rightarrow> bool \<Rightarrow> 'w \<Rightarrow> ('e + bool, 'w) answer"
  tn_RateLimitGlobalAction :: "string \<Rightarrow> i32 \<Rightarrow> 'w \<Rightarrow> ('e + bool, 'w) answer"
  tn_SyncKeys :: "SyncCommand option list \<Rightarrow> 'w \<Rightarrow> ('e + unit, 'w) answer"
  tn_SyncRateConfig :: "string \<Rightarrow> i32 \<Rightarrow> i32 \<Rightarrow> bool \<Rightarrow> 'w \<Rightarrow> ('e + unit, 'w) answer"

datatype ('w, 'p, 'e) served =
    Served bool "('p, 'e) writer option" "'e option" 'w 'p
  | ServerWaits 'w
  | ServerCrashes panic

text \<open>
  The scheme of the four handlers: read the request, call the handler, give its result to the
  transport. A read that never returns is \<^const>\<open>None\<close>.
\<close>

definition handle_request ::
  "('a, 'p, 'e) reader \<Rightarrow> 'a \<Rightarrow> ('a \<Rightarrow> 'w \<Rightarrow> ('e + 'r, 'w) answer) \<Rightarrow> ('r \<Rightarrow> ('p, 'e) writer) \<Rightarrow>
   'w \<Rightarrow> 'p \<Rightarrow> ('w, 'p, 'e) served option" where
  "handle_request decode req action res w protocol =
     (case decode req protocol of
        None \<Rightarrow> None
      | Some (Some (Err e), _, protocol) \<Rightarrow> Some (Served False None (Some e) w protocol)
      | Some (Some (Crash c), _, _) \<Rightarrow> Some (ServerCrashes c)
      | Some (None, req, protocol) \<Rightarrow>
          Some (case action req w of
              Crashes c \<Rightarrow> ServerCrashes c
            | Waits w \<Rightarrow> ServerWaits w
            | Answer (Inl e) w \<Rightarrow> Served False None (Some e) w protocol
            | Answer (Inr r) w \<Rightarrow> Served True (Some (res r)) None w protocol))"

definition handleIncrAction ::
  "('p, 'e) TProtocol \<Rightarrow> ('w, 'e) TChanStoreNode \<Rightarrow> 'w \<Rightarrow> 'p \<Rightarrow> ('w, 'p, 'e) served option" where
  "handleIncrAction P h = handle_request (IncrActionArgs_Read P) NewIncrActionArgs
     (\<lambda>req. tn_IncrAction h (inc_Key req) (inc_Count req) (inc_Threshold req) (inc_Window req)
        (inc_Peakaveraged req))
     (\<lambda>r. IncrActionResult_Write P (Some (NewIncrActionResult\<lparr>inc_Success := Some r\<rparr>)))"

definition handleRateLimitGlobalAction ::
  "('p, 'e) TProtocol \<Rightarrow> ('w, 'e) TChanStoreNode \<Rightarrow> 'w \<Rightarrow> 'p \<Rightarrow> ('w, 'p, 'e) served option" where
  "handleRateLimitGlobalAction P h =
     handle_request (RateLimitGlobalActionArgs_Read P) NewRateLimitGlobalActionArgs
     (\<lambda>req. tn_RateLimitGlobalAction h (glob_Key req) (glob_Count req))
     (\<lambda>r. RateLimitGlobalActionResult_Write P
        (Some (NewRateLimitGlobalActionResult\<lparr>glob_Success := Some r\<rparr>)))"

definition handleSyncKeys ::
  "('p, 'e) TProtocol \<Rightarrow> ('w, 'e) TChanStoreNode \<Rightarrow> 'w \<Rightarrow> 'p \<Rightarrow> ('w, 'p, 'e) served option" where
  "handleSyncKeys P h = handle_request (SyncKeysArgs_Read P) NewSyncKeysArgs
     (\<lambda>req. tn_SyncKeys h (Syncs req))
     (\<lambda>_. SyncKeysResult_Write P (Some NewSyncKeysResult))"

definition handleSyncRateConfig ::
  "('p, 'e) TProtocol \<Rightarrow> ('w, 'e) TChanStoreNode \<Rightarrow> 'w \<Rightarrow> 'p \<Rightarrow> ('w, 'p, 'e) served option" where
  "handleSyncRateConfig P h = handle_request (SyncRateConfigArgs_Read P) NewSyncRateConfigArgs
     (\<lambda>req. tn_SyncRateConfig h (arg_Key req) (arg_Threshold req) (arg_Window req)
        (arg_Peakaveraged req))
     (\<lambda>_. SyncRateConfigResult_Write P (Some NewSyncRateConfigResult))"

definition server_Service :: string where
  "server_Service = ''StoreNode''"

definition server_Methods :: "string list" where
  "server_Methods = [''IncrAction'', ''RateLimitGlobalAction'', ''SyncKeys'', ''SyncRateConfig'']"

definition server_Handle ::
  "(string \<Rightarrow> 'e) \<Rightarrow> ('p, 'e) TProtocol \<Rightarrow> ('w, 'e) TChanStoreNode \<Rightarrow> string \<Rightarrow> 'w \<Rightarrow> 'p \<Rightarrow>
   ('w, 'p, 'e) served option" where
  "server_Handle errorf P h methodName w protocol =
     (if methodName = ''IncrAction'' then handleIncrAction P h w protocol
      else if methodName = ''RateLimitGlobalAction'' then handleRateLimitGlobalAction P h w protocol
      else if methodName = ''SyncKeys'' then handleSyncKeys P h w protocol
      else if methodName = ''SyncRateConfig'' then handleSyncRateConfig P h w protocol
      else Some (Served False None
        (Some (errorf (''method '' @ methodName @ '' not found in service '' @ server_Service)))
        w protocol))"

section \<open>The client\<close>

text \<open>
  \<open>Call\<close> takes the service, the method, the argument struct (by its \<open>Write\<close>) and the result struct
  to read into (its \<open>Read\<close> and its value); it returns whether the method succeeded, an error, and
  the result struct after it.
\<close>

type_synonym ('r, 'w, 'p, 'e) transport =
  "string \<Rightarrow> string \<Rightarrow> (('p, 'e) TProtocol \<Rightarrow> ('p, 'e) writer) \<Rightarrow> (('p, 'e) TProtocol \<Rightarrow> ('r, 'p, 'e) reader) \<Rightarrow>
   'r \<Rightarrow> 'w \<Rightarrow> (bool \<times> 'e option \<times> 'r) \<times> 'w"

definition no_result :: "(string \<Rightarrow> 'e) \<Rightarrow> string \<Rightarrow> bool \<Rightarrow> 'e option \<Rightarrow> 'e option" where
  "no_result errorf methodName success err =
     (if err = None \<and> \<not> success
      then Some (errorf (''received no result or unknown exception for '' @ methodName)) else err)"

text \<open>
  A client calls through one connection. \<open>Call\<close> fills a result struct of any type; here it is a field
  for each of the four.
\<close>

record ('w, 'p, 'e) TChanClient =
  Call_IncrAction :: "(IncrActionResult, 'w, 'p, 'e) transport"
  Call_RateLimitGlobalAction :: "(RateLimitGlobalActionResult, 'w, 'p, 'e) transport"
  Call_SyncKeys :: "(SyncKeysResult, 'w, 'p, 'e) transport"
  Call_SyncRateConfig :: "(SyncRateConfigResult, 'w, 'p, 'e) transport"

record ('w, 'p, 'e) tchanStoreNodeClient =
  thriftService :: string
  client :: "('w, 'p, 'e) TChanClient"

definition NewTChanStoreNodeInheritedClient ::
  "string \<Rightarrow> ('w, 'p, 'e) TChanClient \<Rightarrow> ('w, 'p, 'e) tchanStoreNodeClient" where
  "NewTChanStoreNodeInheritedClient service cl = \<lparr>thriftService = service, client = cl\<rparr>"

definition NewTChanStoreNodeClient :: "('w, 'p, 'e) TChanClient \<Rightarrow> ('w, 'p, 'e) tchanStoreNodeClient" where
  "NewTChanStoreNodeClient cl = NewTChanStoreNodeInheritedClient ''StoreNode'' cl"

definition client_IncrAction ::
  "(string \<Rightarrow> 'e) \<Rightarrow> ('w, 'p, 'e) tchanStoreNodeClient \<Rightarrow>
   string \<Rightarrow> i32 \<Rightarrow> i32 \<Rightarrow> i32 \<Rightarrow> bool \<Rightarrow> 'w \<Rightarrow> (bool \<times> 'e option) \<times> 'w" where
  "client_IncrAction errorf c key cnt threshold window peakaveraged w =
     (let args = \<lparr>inc_Key = key, inc_Count = cnt, inc_Threshold = threshold, inc_Window = window,
            inc_Peakaveraged = peakaveraged\<rparr>;
          ((success, err, resp), w) =
            Call_IncrAction (client c) (thriftService c) ''IncrAction''
              (\<lambda>P. IncrActionArgs_Write P (Some args)) IncrActionResult_Read NewIncrActionResult w
      in ((IncrActionResult_GetSuccess resp, no_result errorf ''IncrAction'' success err), w))"

definition client_RateLimitGlobalAction ::
  "(string \<Rightarrow> 'e) \<Rightarrow> ('w, 'p, 'e) tchanStoreNodeClient \<Rightarrow>
   string \<Rightarrow> i32 \<Rightarrow> 'w \<Rightarrow> (bool \<times> 'e option) \<times> 'w" where
  "client_RateLimitGlobalAction errorf c key cnt w =
     (let args = \<lparr>glob_Key = key, glob_Count = cnt\<rparr>;
          ((success, err, resp), w) =
            Call_RateLimitGlobalAction (client c) (thriftService c) ''RateLimitGlobalAction''
              (\<lambda>P. RateLimitGlobalActionArgs_Write P (Some args))
              RateLimitGlobalActionResult_Read NewRateLimitGlobalActionResult w
      in ((RateLimitGlobalActionResult_GetSuccess resp,
           no_result errorf ''RateLimitGlobalAction'' success err), w))"

definition client_SyncKeys ::
  "(string \<Rightarrow> 'e) \<Rightarrow> ('w, 'p, 'e) tchanStoreNodeClient \<Rightarrow>
   SyncCommand option list \<Rightarrow> 'w \<Rightarrow> 'e option \<times> 'w" where
  "client_SyncKeys errorf c syncs w =
     (let args = \<lparr>Syncs = syncs\<rparr>;
          ((success, err, resp), w) =
            Call_SyncKeys (client c) (thriftService c) ''SyncKeys'' (\<lambda>P. SyncKeysArgs_Write P (Some args))
              SyncKeysResult_Read NewSyncKeysResult w
      in (no_result errorf ''SyncKeys'' success err, w))"

definition client_SyncRateConfig ::
  "(string \<Rightarrow> 'e) \<Rightarrow> ('w, 'p, 'e) tchanStoreNodeClient \<Rightarrow>
   string \<Rightarrow> i32 \<Rightarrow> i32 \<Rightarrow> bool \<Rightarrow> 'w \<Rightarrow> 'e option \<times> 'w" where
  "client_SyncRateConfig errorf c key threshold window peakaveraged w =
     (let args = \<lparr>arg_Key = key, arg_Threshold = threshold, arg_Window = window,
            arg_Peakaveraged = peakaveraged\<rparr>;
          ((success, err, resp), w) =
            Call_SyncRateConfig (client c) (thriftService c) ''SyncRateConfig''
              (\<lambda>P. SyncRateConfigArgs_Write P (Some args)) SyncRateConfigResult_Read NewSyncRateConfigResult w
      in (no_result errorf ''SyncRateConfig'' success err, w))"

section \<open>The store as the handler\<close>

text \<open>
  The store implements the interface with the methods of store/cluster.go, none of which returns
  an error. A nil command is dereferenced, after the commands before it have been applied.
\<close>

definition node_SyncKeys ::
  "env \<Rightarrow> SyncCommand option list \<Rightarrow> ('tc, 'rp, 'sd, 'h) node \<Rightarrow> (unit, ('tc, 'rp, 'sd, 'h) node) answer" where
  "node_SyncKeys E syncs nd =
     (let present = takeWhile (\<lambda>c. c \<noteq> None) syncs
      in case SyncKeys E (map the present) (node_store nd) (node_clock nd) of
           Inl p \<Rightarrow> Crashes p
         | Inr (s, c) \<Rightarrow>
             if length present < length syncs then Crashes NilDereference
             else Answer () (nd\<lparr>node_store := s, node_clock := c\<rparr>))"

definition node_SyncRateConfig ::
  "string \<Rightarrow> i32 \<Rightarrow> i32 \<Rightarrow> bool \<Rightarrow> ('tc, 'rp, 'sd, 'h) node \<Rightarrow> (unit, ('tc, 'rp, 'sd, 'h) node) answer" where
  "node_SyncRateConfig key threshold window peakaveraged nd =
     (case SyncRateConfig key threshold window peakaveraged (node_store nd) (node_files nd) of
        Inl p \<Rightarrow> Crashes p
      | Inr (s, fs) \<Rightarrow> Answer () (nd\<lparr>node_store := s, node_files := fs\<rparr>))"

definition store_handler :: "env \<Rightarrow> (('tc, 'rp, 'sd, 'h) node, 'e) TChanStoreNode" where
  "store_handler E = \<lparr>
     tn_IncrAction = \<lambda>key cnt threshold window peak nd. map_answer Inr (limiter_answer
       (IncrAction E key cnt threshold window peak (node_store nd) (node_clock nd) (node_mgr nd)) nd),
     tn_RateLimitGlobalAction = \<lambda>key cnt nd. map_answer Inr (limiter_answer
       (RateLimitGlobalAction E key cnt (node_store nd) (node_clock nd) (node_mgr nd)) nd),
     tn_SyncKeys = \<lambda>syncs nd. map_answer Inr (node_SyncKeys E syncs nd),
     tn_SyncRateConfig = \<lambda>key threshold window peak nd.
       map_answer Inr (node_SyncRateConfig key threshold window peak nd)\<rparr>"

section \<open>A request on the wire\<close>

context message
begin

lemma served:
  assumes "faithful P holds" and "holds p (tokens (wire m))"
  shows "\<exists>p'. holds p' [] \<and> handle_request (decode P) fresh action res w p =
    Some (case action (received m) w of
        Crashes c \<Rightarrow> ServerCrashes c
      | Waits w' \<Rightarrow> ServerWaits w'
      | Answer (Inl e) w' \<Rightarrow> Served False None (Some e) w' p'
      | Answer (Inr r) w' \<Rightarrow> Served True (Some (res r)) None w' p')"
proof -
  have "holds p (tokens (wire m) @ [])" using assms(2) by simp
  from takesD [OF read_wire [OF assms(1)] this] show ?thesis
    by (auto simp: handle_request_def)
qed

end

lemma node_SyncKeys_Some:
  "node_SyncKeys E (map Some syncs) nd =
     (case SyncKeys E syncs (node_store nd) (node_clock nd) of
        Inl p \<Rightarrow> Crashes p | Inr (s, c) \<Rightarrow> Answer () (nd\<lparr>node_store := s, node_clock := c\<rparr>))"
proof -
  have tw: "takeWhile (\<lambda>c. c \<noteq> None) (map Some syncs) = map Some syncs" by (induction syncs) auto
  show ?thesis unfolding node_SyncKeys_def Let_def tw by (simp add: comp_def split: sum.split)
qed

text \<open>What travels as a value is what \<open>Handle\<close> acts on.\<close>

lemma Handle_SyncKeys:
  assumes "faithful P holds" and "holds p (tokens (SyncKeysArgs_value \<lparr>Syncs = map Some syncs\<rparr>))"
  shows "\<exists>p'. holds p' [] \<and> server_Handle errorf P (store_handler E) ''SyncKeys'' nd p =
    Some (case SyncKeys E syncs (node_store nd) (node_clock nd) of
        Inl c \<Rightarrow> ServerCrashes c
      | Inr (s, c) \<Rightarrow> Served True (Some (SyncKeysResult_Write P (Some NewSyncKeysResult))) None
          (nd\<lparr>node_store := s, node_clock := c\<rparr>) p')"
proof -
  have "as_received \<lparr>Syncs = map Some syncs\<rparr> = \<lparr>Syncs = map Some syncs\<rparr>" by (simp add: as_received_def)
  then show ?thesis
    using SyncKeysArgs.served [OF assms, of "\<lambda>req. tn_SyncKeys (store_handler E) (Syncs req)"
        "\<lambda>_. SyncKeysResult_Write P (Some NewSyncKeysResult)" nd]
    by (cases "SyncKeys E syncs (node_store nd) (node_clock nd)")
      (auto simp: server_Handle_def handleSyncKeys_def store_handler_def node_SyncKeys_Some map_answer_def)
qed

lemma Handle_SyncRateConfig:
  assumes "faithful P holds" and "holds p (tokens (SyncRateConfigArgs_value a))"
  shows "\<exists>p'. holds p' [] \<and> server_Handle errorf P (store_handler E) ''SyncRateConfig'' nd p =
    Some (case receive_RateConfig a (node_store nd) (node_files nd) of
        Inl c \<Rightarrow> ServerCrashes c
      | Inr (s, fs) \<Rightarrow> Served True (Some (SyncRateConfigResult_Write P (Some NewSyncRateConfigResult))) None
         (nd\<lparr>node_store := s, node_files := fs\<rparr>) p')"
  using SyncRateConfigArgs.served [OF assms, of "\<lambda>req. tn_SyncRateConfig (store_handler E) (arg_Key req)
      (arg_Threshold req) (arg_Window req) (arg_Peakaveraged req)"
      "\<lambda>_. SyncRateConfigResult_Write P (Some NewSyncRateConfigResult)" nd]
  by (auto simp: server_Handle_def handleSyncRateConfig_def store_handler_def node_SyncRateConfig_def
      map_answer_def receive_RateConfig_def split: prod.splits sum.splits)

section \<open>Properties\<close>

text \<open>
  C11: a batch sent by one node is applied by the other as if it had been handed over in memory.
  Whatever \<open>SendSyncToNode\<close> serialises as the argument struct, the receiving server dispatches to
  \<open>SyncKeys\<close> on exactly these commands; it answers with success and has read the whole request,
  and the limiter state of the receiver is each key's window with the batch's count for it added.
\<close>

theorem batch_over_the_wire:
  assumes P: "faithful P holds" "holds p []"
    and syncs: "fits (length syncs)" "list_all SyncCommand_small syncs" "distinct (map sc_Key syncs)"
    and nd: "store_ok (node_store nd)" "frozen_at t (node_clock nd)"
  shows "case SyncKeysArgs_Write P (Some \<lparr>Syncs = map Some syncs\<rparr>) p of
      (Some _, _) \<Rightarrow> False
    | (None, p1) \<Rightarrow>
        (case server_Handle errorf P (store_handler E) ''SyncKeys'' nd p1 of
           Some (Served ok (Some reply) None nd' p2) \<Rightarrow>
             ok \<and> holds p2 [] \<and> store_ok (node_store nd') \<and>
             nd' = nd\<lparr>node_store := node_store nd'\<rparr> \<and>
             store_view E (node_store nd') = (\<lambda>k. case command_for syncs k of
                 None \<Rightarrow> store_view E (node_store nd) k
               | Some sync \<Rightarrow>
                   spec_Sync t t k (sc_Count sync) (sc_Expiry sync) (store_view E (node_store nd)) k)
         | _ \<Rightarrow> False)"
proof -
  have "SyncKeysArgs_small \<lparr>Syncs = map Some syncs\<rparr>"
    using syncs by (simp add: SyncKeysArgs_small_def list_all_length)
  from SyncKeysArgs.sent [OF P(1) this P(2)] obtain p1 where
    p1: "SyncKeysArgs_Write P (Some \<lparr>Syncs = map Some syncs\<rparr>) p = (None, p1)"
      "holds p1 (tokens (SyncKeysArgs_value \<lparr>Syncs = map Some syncs\<rparr>))"
    by auto
  obtain s c where s: "SyncKeys E syncs (node_store nd) (node_clock nd) = Inr (s, c)" "c = node_clock nd"
    "store_ok s" "store_view E s = (\<lambda>k. case command_for syncs k of
        None \<Rightarrow> store_view E (node_store nd) k
      | Some sync \<Rightarrow> spec_Sync t t k (sc_Count sync) (sc_Expiry sync) (store_view E (node_store nd)) k)"
    using SyncKeys_applies_each_command [OF nd syncs(3), of E] by (auto split: sum.splits)
  obtain p2 where "holds p2 []" "server_Handle errorf P (store_handler E) ''SyncKeys'' nd p1 =
      Some (Served True (Some (SyncKeysResult_Write P (Some NewSyncKeysResult))) None
        (nd\<lparr>node_store := s, node_clock := c\<rparr>) p2)"
    using Handle_SyncKeys [OF P(1) p1(2), of errorf E nd] s(1) by auto
  then show ?thesis using p1(1) s(2-4) by simp
qed

theorem batch_over_the_wire_witness:
  "case SyncKeysArgs_Write token_protocol
      (Some \<lparr>Syncs = map Some [\<lparr>sc_Key = ''a'', sc_Count = 2, sc_Expiry = 9, sc_Force = False\<rparr>]\<rparr>) [] of
     (Some _, _) \<Rightarrow> False
   | (None, p1) \<Rightarrow>
       (case server_Handle id token_protocol (store_handler sample_env) ''SyncKeys''
          (\<lparr>node_store = alloc_store (sample_options\<lparr>buckets := 4\<rparr>), node_clock = UnReal \<lparr>current = 5\<rparr>,
            node_mgr = None, node_files = sample_files\<rparr> :: (unit, unit, unit, unit) node) p1 of
          Some (Served ok (Some reply) None nd' p2) \<Rightarrow> ok \<and> store_view sample_env (node_store nd') ''a'' = Some (9, 2)
        | _ \<Rightarrow> False)"
proof -
  let ?nd = "\<lparr>node_store = alloc_store (sample_options\<lparr>buckets := 4\<rparr>), node_clock = UnReal \<lparr>current = 5\<rparr>,
    node_mgr = None, node_files = sample_files\<rparr> :: (unit, unit, unit, unit) node"
  have nd: "store_ok (node_store ?nd)" "frozen_at 5 (node_clock ?nd)"
    using alloc_store_ok [of "sample_options\<lparr>buckets := 4\<rparr>"] frozen_UnReal [of 5] by simp_all
  show ?thesis
    using batch_over_the_wire [of token_protocol "(=)" "[]"
        "[\<lparr>sc_Key = ''a'', sc_Count = 2, sc_Expiry = 9, sc_Force = False\<rparr>]",
        OF token_protocol_faithful refl _ _ _ nd, where errorf = id and E = sample_env]
    by (auto simp: fits_def SyncCommand_small_def command_for_def spec_Sync_def signed_less
        split: prod.splits option.splits served.splits)
qed

text \<open>
  a rate configuration arrives as it was sent. The argument struct \<open>SendSyncRateConfigToNode\<close>
  builds, written, read and dispatched, sets exactly that configuration for the key on the
  receiver, saves all configurations of the receiver, and leaves the rest of the node as it was.
\<close>

theorem rate_config_over_the_wire:
  assumes P: "faithful P holds" "holds p []" and "fits (length key)" and m: "rateConfig (node_store nd) = Some m"
  shows "case SendSyncRateConfigToNode Answered node key rc of
      (None, _) \<Rightarrow> False
    | (Some (_, a), _) \<Rightarrow>
       (case SyncRateConfigArgs_Write P (Some a) p of
          (Some _, _) \<Rightarrow> False
        | (None, p1) \<Rightarrow>
           (case server_Handle errorf P (store_handler E) ''SyncRateConfig'' nd p1 of
              Some (Served ok (Some reply) None nd' p2) \<Rightarrow>
                ok \<and> holds p2 [] \<and>
                node_store nd' = (node_store nd)\<lparr>rateConfig := Some (m(key \<mapsto> Some rc))\<rparr> \<and>
                nd' = nd\<lparr>node_store := node_store nd', node_files := SaveRateConfig (node_store nd') (node_files nd)\<rparr>
            | _ \<Rightarrow> False))"
proof -
  let ?a = "\<lparr>arg_Key = key, arg_Threshold = Limit rc, arg_Window = Window rc, arg_Peakaveraged = PeakAveraged rc\<rparr>"
  have "SyncRateConfigArgs_small ?a" using assms(3) by (simp add: SyncRateConfigArgs_small_def)
  from SyncRateConfigArgs.sent [OF P(1) this P(2)] obtain p1 where
    p1: "SyncRateConfigArgs_Write P (Some ?a) p = (None, p1)" "holds p1 (tokens (SyncRateConfigArgs_value ?a))"
    by auto
  let ?s = "(node_store nd)\<lparr>rateConfig := Some (m(key \<mapsto> Some rc))\<rparr>"
  let ?fs = "SaveRateConfig ?s (node_files nd)"
  have r: "receive_RateConfig ?a (node_store nd) (node_files nd) = Inr (?s, ?fs)"
    by (cases rc) (simp add: receive_RateConfig_def SyncRateConfig_def put_config_def m)
  have sent: "SendSyncRateConfigToNode Answered node key rc = (Some (node, ?a), None)"
    by (simp add: SendSyncRateConfigToNode_def send_result_def)
  obtain p2 where "holds p2 []" "server_Handle errorf P (store_handler E) ''SyncRateConfig'' nd p1 =
      Some (Served True (Some (SyncRateConfigResult_Write P (Some NewSyncRateConfigResult))) None
        (nd\<lparr>node_store := ?s, node_files := ?fs\<rparr>) p2)"
    using Handle_SyncRateConfig [OF P(1) p1(2), of errorf E nd] by (auto simp: r)
  then show ?thesis by (simp add: sent p1(1))
qed

theorem rate_config_over_the_wire_witness:
  "case SyncRateConfigArgs_Write token_protocol
      (Some \<lparr>arg_Key = ''k'', arg_Threshold = 10, arg_Window = 60, arg_Peakaveraged = True\<rparr>) [] of
     (Some _, _) \<Rightarrow> False
   | (None, p1) \<Rightarrow>
       (case server_Handle id token_protocol (store_handler sample_env) ''SyncRateConfig''
          (\<lparr>node_store = alloc_store sample_options, node_clock = UnReal \<lparr>current = 5\<rparr>,
            node_mgr = None, node_files = sample_files\<rparr> :: (unit, unit, unit, unit) node) p1 of
          Some (Served ok (Some reply) None nd' p2) \<Rightarrow>
            GetRateConfig ''k'' (node_store nd') = Some \<lparr>Window = 60, Limit = 10, PeakAveraged = True\<rparr>
        | _ \<Rightarrow> False)"
proof -
  let ?nd = "\<lparr>node_store = alloc_store sample_options, node_clock = UnReal \<lparr>current = 5\<rparr>,
    node_mgr = None, node_files = sample_files\<rparr> :: (unit, unit, unit, unit) node"
  have m: "rateConfig (node_store ?nd) = Some Map.empty" by simp
  show ?thesis
    using rate_config_over_the_wire [of token_protocol "(=)" "[]" "''k''", OF token_protocol_faithful refl _ m,
        where rc = "\<lparr>Window = 60, Limit = 10, PeakAveraged = True\<rparr>" and errorf = id and E = sample_env]
    by (auto simp: GetRateConfig_def fits_def SendSyncRateConfigToNode_def split: prod.splits option.splits served.splits)
qed

text \<open>
  What the transport is documented to do with a call whose argument struct can be written: the
  server handles the request, its result struct comes back and is read, or its error comes back.
\<close>

definition carries ::
  "('p, 'e) TProtocol \<Rightarrow> 'p \<Rightarrow> (string \<Rightarrow> 'w \<Rightarrow> 'p \<Rightarrow> ('w, 'p, 'e) served option) \<Rightarrow>
   ('r, 'w, 'p, 'e) transport \<Rightarrow> bool" where
  "carries P p0 serve Call \<longleftrightarrow>
     (\<forall>service methodName put get resp w p1. put P p0 = (None, p1) \<longrightarrow>
        (case serve methodName w p1 of
           Some (Served True (Some reply) None w' _) \<Rightarrow>
             (case reply p0 of
                (None, p2) \<Rightarrow>
                  (case get P resp p2 of
                     Some (None, resp', _) \<Rightarrow> Call service methodName put get resp w = ((True, None, resp'), w')
                   | _ \<Rightarrow> True)
              | _ \<Rightarrow> True)
         | Some (Served False _ (Some e) w' _) \<Rightarrow>
             (case Call service methodName put get resp w of ((ok, err, _), w'') \<Rightarrow>
                \<not> ok \<and> err \<noteq> None \<and> w'' = w')
         | _ \<Rightarrow> True))"

text \<open>A transport that carries every call: the reply is written to a fresh protocol and read back.\<close>

definition loopback ::
  "('p, 'e) TProtocol \<Rightarrow> 'p \<Rightarrow> (string \<Rightarrow> 'w \<Rightarrow> 'p \<Rightarrow> ('w, 'p, 'e) served option) \<Rightarrow> 'e \<Rightarrow>
   ('r, 'w, 'p, 'e) transport" where
  "loopback P p0 serve failed service methodName put get resp w =
     (case put P p0 of
        (Some e, _) \<Rightarrow> ((False, Some e, resp), w)
      | (None, p1) \<Rightarrow>
          (case serve methodName w p1 of
             Some (Served True (Some reply) None w' _) \<Rightarrow>
               (case reply p0 of
                  (None, p2) \<Rightarrow>
                    (case get P resp p2 of
                       Some (None, resp', _) \<Rightarrow> ((True, None, resp'), w')
                     | _ \<Rightarrow> ((False, Some failed, resp), w'))
                | (Some e, _) \<Rightarrow> ((False, Some e, resp), w'))
           | Some (Served _ _ (Some e) w' _) \<Rightarrow> ((False, Some e, resp), w')
           | _ \<Rightarrow> ((False, Some failed, resp), w)))"

lemma loopback_carries:
  fixes P :: "('p, 'e) TProtocol" and serve :: "string \<Rightarrow> 'w \<Rightarrow> 'p \<Rightarrow> ('w, 'p, 'e) served option"
  shows "carries P p0 serve (loopback P p0 serve failed :: ('r, 'w, 'p, 'e) transport)"
  unfolding carries_def
proof (intro allI impI)
  fix service methodName resp w p1 and put :: "('p, 'e) TProtocol \<Rightarrow> ('p, 'e) writer"
    and get :: "('p, 'e) TProtocol \<Rightarrow> ('r, 'p, 'e) reader"
  assume "put P p0 = (None, p1)"
  then show "case serve methodName w p1 of
           Some (Served True (Some reply) None w' _) \<Rightarrow>
             (case reply p0 of
                (None, p2) \<Rightarrow>
                  (case get P resp p2 of
                     Some (None, resp', _) \<Rightarrow> loopback P p0 serve failed service methodName put get resp w =
                       ((True, None, resp'), w')
                   | _ \<Rightarrow> True)
              | _ \<Rightarrow> True)
         | Some (Served False _ (Some e) w' _) \<Rightarrow>
             (case loopback P p0 serve failed service methodName put get resp w of ((ok, err, _), w'') \<Rightarrow>
                \<not> ok \<and> err \<noteq> None \<and> w'' = w')
         | _ \<Rightarrow> True"
    by (cases "serve methodName w p1")
      (simp_all add: loopback_def split: served.split bool.split option.split prod.split)
qed

definition loopback_client ::
  "('p, 'e) TProtocol \<Rightarrow> 'p \<Rightarrow> (string \<Rightarrow> 'w \<Rightarrow> 'p \<Rightarrow> ('w, 'p, 'e) served option) \<Rightarrow> 'e \<Rightarrow> ('w, 'p, 'e) TChanClient" where
  "loopback_client P p0 serve failed =
     \<lparr>Call_IncrAction = loopback P p0 serve failed, Call_RateLimitGlobalAction = loopback P p0 serve failed,
      Call_SyncKeys = loopback P p0 serve failed, Call_SyncRateConfig = loopback P p0 serve failed\<rparr>"

lemma loopback_client_carries: "carries P p0 serve (Call_IncrAction (loopback_client P p0 serve failed))"
  by (simp add: loopback_client_def loopback_carries)

text \<open>
  C22: a limiter call forwarded to another node is that call made there. Through any transport that
  carries the request, the client stub returns the answer of the remote handler for the same key,
  count, threshold, window and flag, with no error, and an error exactly if the handler returned
  one; the remote state is the one the handler left.
\<close>

theorem forwarded_limit_call:
  assumes P: "faithful P holds" "holds p0 []" and key: "fits (length key)"
    and "carries P p0 (server_Handle errorf P h) (Call_IncrAction cl)"
  shows "case tn_IncrAction h key cnt threshold window peak w of
      Answer (Inr blocked) w' \<Rightarrow>
        client_IncrAction errorf (NewTChanStoreNodeClient cl) key cnt threshold window peak w = ((blocked, None), w')
    | Answer (Inl e) w' \<Rightarrow>
        (case client_IncrAction errorf (NewTChanStoreNodeClient cl) key cnt threshold window peak w of ((_, err), w'') \<Rightarrow>
           err \<noteq> None \<and> w'' = w')
    | _ \<Rightarrow> True"
proof -
  let ?a = "\<lparr>inc_Key = key, inc_Count = cnt, inc_Threshold = threshold, inc_Window = window,
    inc_Peakaveraged = peak\<rparr>"
  let ?r = "\<lambda>r. NewIncrActionResult\<lparr>inc_Success := Some r\<rparr>"
  have "IncrActionArgs_small ?a" using key by (simp add: IncrActionArgs_small_def)
  from IncrActionArgs.sent [OF P(1) this P(2)] obtain p1 where
    p1: "IncrActionArgs_Write P (Some ?a) p0 = (None, p1)" "holds p1 (tokens (IncrActionArgs_value ?a))"
    by auto
  obtain p2 where p2: "server_Handle errorf P h ''IncrAction'' w p1 =
      Some (case tn_IncrAction h key cnt threshold window peak w of
        Crashes c \<Rightarrow> ServerCrashes c
      | Waits w' \<Rightarrow> ServerWaits w'
      | Answer (Inl e) w' \<Rightarrow> Served False None (Some e) w' p2
      | Answer (Inr r) w' \<Rightarrow> Served True (Some (IncrActionResult_Write P (Some (?r r)))) None w' p2)"
    using IncrActionArgs.served [OF P(1) p1(2), of "\<lambda>req. tn_IncrAction h (inc_Key req) (inc_Count req)
        (inc_Threshold req) (inc_Window req) (inc_Peakaveraged req)"
        "\<lambda>r. IncrActionResult_Write P (Some (?r r))" w]
    by (auto simp: server_Handle_def handleIncrAction_def)
  have reply: "\<exists>q1 q2. IncrActionResult_Write P (Some (?r r)) p0 = (None, q1) \<and>
      IncrActionResult_Read P NewIncrActionResult q1 = Some (None, ?r r, q2) \<and> holds q2 []" for r
    by (rule IncrActionResult.transmitted [OF P(1) TrueI P(2)])
  note c = assms(4) [unfolded carries_def, rule_format, where put = "\<lambda>P. IncrActionArgs_Write P (Some ?a)"
      and methodName = "''IncrAction''" and w = w and get = IncrActionResult_Read
      and resp = NewIncrActionResult and service = "''StoreNode''", OF p1(1)]
  show ?thesis
  proof (cases "tn_IncrAction h key cnt threshold window peak w")
    case (Answer v w')
    show ?thesis
    proof (cases v)
      case (Inl e)
      with Answer c p2 show ?thesis
        by (auto simp: client_IncrAction_def NewTChanStoreNodeClient_def NewTChanStoreNodeInheritedClient_def no_result_def split: prod.splits)
    next
      case (Inr r)
      with Answer c p2 reply [of r] show ?thesis
        by (auto simp: client_IncrAction_def NewTChanStoreNodeClient_def NewTChanStoreNodeInheritedClient_def no_result_def IncrActionResult_GetSuccess_def
            split: prod.splits option.splits)
    qed
  qed simp_all
qed

theorem forwarded_limit_call_witness:
  "let h = \<lparr>tn_IncrAction = \<lambda>key cnt threshold window peak n. Answer (Inr (sint (threshold - cnt) < n)) (n + 1),
       tn_RateLimitGlobalAction = \<lambda>key cnt n. Crashes NilDereference,
       tn_SyncKeys = \<lambda>syncs n. Crashes NilDereference,
       tn_SyncRateConfig = \<lambda>key threshold window peak n. Crashes NilDereference\<rparr> :: (int, string) TChanStoreNode
   in client_IncrAction id (NewTChanStoreNodeClient (loopback_client token_protocol [] (server_Handle id token_protocol h) ''failed''))
        ''k'' 3 5 60 False (4 :: int) = ((True, None), 5)"
proof -
  let ?h = "\<lparr>tn_IncrAction = \<lambda>key cnt threshold window peak n. Answer (Inr (sint (threshold - cnt) < n)) (n + 1),
       tn_RateLimitGlobalAction = \<lambda>key cnt n. Crashes NilDereference,
       tn_SyncKeys = \<lambda>syncs n. Crashes NilDereference,
       tn_SyncRateConfig = \<lambda>key threshold window peak n. Crashes NilDereference\<rparr> :: (int, string) TChanStoreNode"
  have "sint (5 - 3 :: i32) = 2" by simp
  then show ?thesis
    using forwarded_limit_call [of token_protocol "(=)" "[]" "''k''" id ?h, OF token_protocol_faithful refl _
        loopback_client_carries [where failed = "''failed''"], where cnt = 3 and threshold = 5 and window = 60
        and peak = False and w = 4]
    by (simp add: fits_def Let_def)
qed

end
