(* ===== verification/HttpServer.thy ===== *)
theory HttpServer
  imports Node RateJson Url
begin

text \<open>
  store/http/server.go: the routes and what each does to the node. A request has the raw query of its
  URL, its \<open>apisecret\<close> header and the text of its body; \<open>Query\<close> reads a parameter (an absent one is
  empty) and \<open>rate_body\<close> is what \<open>json.Decode\<close> leaves in the \<open>rate\<close> struct, whose errors the code
  ignores. Replies are values; \<open>serialize\<close> is their text. The answers of the ring are a parameter.
\<close>

section \<open>Requests and responses\<close>

record request =
  raw_query :: string
  apisecret :: string
  req_body :: string

definition Query :: "request \<Rightarrow> string \<Rightarrow> string" where
  "Query r q = query_get (raw_query r) q"

definition rate_body :: "request \<Rightarrow> rate_request" where
  "rate_body r = Decode_rate (req_body r)"

datatype content =
    Block bool
  | Rate RateConfig
  | RateAll rate_map
  | Cluster ClusterInfo
  | Success bool

text \<open>
  The text of a reply. A slice that is nil is \<open>null\<close>. \<open>ord\<close> is the order in which Go ranges over the
  map of configurations. No value here makes \<open>json.Marshal\<close> fail.
\<close>

definition json_of_cluster :: "ClusterInfo \<Rightarrow> json" where
  "json_of_cluster ci =
     JObject [(''Whoami'', JString (Whoami ci)), (''Ready'', JBool (Ready ci)), (''Uptime'', JNumber (Itoa (Uptime ci))),
       (''Members'', case Members ci of None \<Rightarrow> JNull | Some ms \<Rightarrow> JArray (map JString ms))]"

definition serialize :: "string list \<Rightarrow> content \<Rightarrow> string" where
  "serialize ord obj =
     (case obj of
        Block b \<Rightarrow> render (JObject [(''Block'', JBool b)])
      | Rate rc \<Rightarrow> render (json_of_rate rc)
      | RateAll m \<Rightarrow> Marshal_rates ord m
      | Cluster ci \<Rightarrow> render (json_of_cluster ci)
      | Success b \<Rightarrow> render (JObject [(''Success'', JBool b)]))"

datatype response = TextReply string | ErrorReply string nat | JsonReply content

text \<open>What the ring answers, as in \<^const>\<open>GetClusterInfo\<close>.\<close>

record ring_view =
  rv_reachable :: "string list option"
  rv_ready :: bool
  rv_uptime :: "i64 option"
  rv_whoami :: "string option"

text \<open>A reply with what is handed to the other nodes, if anything.\<close>

type_synonym broadcast = "(string \<times> RateConfig) option"

type_synonym ('tc, 'rp, 'sd, 'h) endpoint =
  "request \<Rightarrow> ('tc, 'rp, 'sd, 'h) node \<Rightarrow> (response \<times> broadcast, ('tc, 'rp, 'sd, 'h) node) answer"

definition replies :: "response \<Rightarrow> ('tc, 'rp, 'sd, 'h) node \<Rightarrow> (response \<times> broadcast, ('tc, 'rp, 'sd, 'h) node) answer" where
  "replies r nd = Answer (r, None) nd"

section \<open>Endpoints\<close>

definition get_ping :: "('tc, 'rp, 'sd, 'h) endpoint" where
  "get_ping r nd = replies (TextReply ''pong'') nd"

text \<open>\<open>int32(...)\<close> of an \<open>int\<close> keeps the low 32 bits.\<close>

definition post_incr :: "env \<Rightarrow> ('tc, 'rp, 'sd, 'h) endpoint" where
  "post_incr E r nd =
     (let key = Query r ''K'';
          countStr = (if Query r ''C'' \<noteq> [] then Query r ''C'' else ''1'');
          thresholdStr = Query r ''T'';
          windowStr = Query r ''W'';
          peakBust = Query r ''P''
      in case Atoi countStr of
           None \<Rightarrow> replies (ErrorReply ''Count should be numeric'' 400) nd
         | Some n \<Rightarrow>
             (case Atoi thresholdStr of
                None \<Rightarrow> replies (ErrorReply ''Threshold should be numeric'' 400) nd
              | Some threshold \<Rightarrow>
                  (case Atoi windowStr of
                     None \<Rightarrow> replies (ErrorReply ''Window should be numeric'' 400) nd
                   | Some window \<Rightarrow>
                       (let peakaveraged = (case Atoi peakBust of None \<Rightarrow> 0 | Some p \<Rightarrow> p)
                        in map_answer (\<lambda>ret. (JsonReply (Block ret), None))
                             (limiter_answer
                               (Store_Incr E key (scast n) (scast threshold) (scast window) (0 <s peakaveraged)
                                 (node_store nd) (node_clock nd) (node_mgr nd)) nd)))))"

definition post_ratelimit :: "env \<Rightarrow> ('tc, 'rp, 'sd, 'h) endpoint" where
  "post_ratelimit E r nd =
     (let key = Query r ''K'';
          countStr = (if Query r ''C'' \<noteq> [] then Query r ''C'' else ''1'')
      in case Atoi countStr of
           None \<Rightarrow> replies (ErrorReply ''Count should be numeric'' 400) nd
         | Some n \<Rightarrow>
             map_answer (\<lambda>ret. (JsonReply (Block ret), None))
               (limiter_answer
                 (RateLimitGlobal E key (scast n) (node_store nd) (node_clock nd) (node_mgr nd)) nd))"

definition get_rateall :: "('tc, 'rp, 'sd, 'h) endpoint" where
  "get_rateall r nd = replies (JsonReply (RateAll (GetRateConfigAll (node_store nd)))) nd"

definition get_rate :: "('tc, 'rp, 'sd, 'h) endpoint" where
  "get_rate r nd =
     (let key = Query r ''K''
      in case GetRateConfig key (node_store nd) of
           None \<Rightarrow> replies (ErrorReply ''Key Not found'' 404) nd
         | Some rc \<Rightarrow> replies (JsonReply (Rate rc)) nd)"

definition get_clusterinfo :: "ring_view \<Rightarrow> ('tc, 'rp, 'sd, 'h) endpoint" where
  "get_clusterinfo rv r nd =
     replies (JsonReply (Cluster
       (GetClusterInfo (rv_reachable rv) (rv_ready rv) (rv_uptime rv) (rv_whoami rv)))) nd"

definition put_rate :: "('tc, 'rp, 'sd, 'h) endpoint" where
  "put_rate r nd =
     (let secret = apisecret r
      in if \<not> IsAuthorised secret (node_store nd)
         then replies (ErrorReply ''Invalid Api Secret'' 403) nd
         else
           (let rate = rate_body r
            in if blank (rr_Key rate) \<or> rr_Window rate <s 1 \<or> rr_Limit rate <s 1
               then replies (ErrorReply ''Invalid Rate Config'' 400) nd
               else
                 (case SetRateConfig (rr_Key rate)
                         \<lparr>Window = scast (rr_Window rate), Limit = scast (rr_Limit rate),
                          PeakAveraged = rr_PeakAveraged rate\<rparr>
                         (node_store nd) (node_files nd) of
                    Inl p \<Rightarrow> Crashes p
                  | Inr (s, fs, sent) \<Rightarrow>
                      Answer (JsonReply (Success True), Some sent) (nd\<lparr>node_store := s, node_files := fs\<rparr>))))"

text \<open>
  The profiling endpoints: they end the process if their file cannot be created. Profiling itself
  is the runtime's.
\<close>

definition get_profilecpuenable :: "bool \<Rightarrow> ('tc, 'rp, 'sd, 'h) endpoint" where
  "get_profilecpuenable create_ok r nd =
     (if \<not> IsAuthorised (apisecret r) (node_store nd)
      then replies (ErrorReply ''Invalid Api Secret'' 403) nd
      else if \<not> create_ok then Crashes (Fatal ''golimitV3_cpu.pprof'')
      else replies (JsonReply (Success True)) nd)"

definition get_profilecpudisable :: "('tc, 'rp, 'sd, 'h) endpoint" where
  "get_profilecpudisable r nd =
     (if \<not> IsAuthorised (apisecret r) (node_store nd)
      then replies (ErrorReply ''Invalid Api Secret'' 403) nd
      else replies (JsonReply (Success True)) nd)"

definition get_memprofile :: "bool \<Rightarrow> ('tc, 'rp, 'sd, 'h) endpoint" where
  "get_memprofile create_ok r nd =
     (if \<not> IsAuthorised (apisecret r) (node_store nd)
      then replies (ErrorReply ''Invalid Api Secret'' 403) nd
      else if \<not> create_ok then Crashes (Fatal ''golimitV3_mem.pprof'')
      else replies (JsonReply (Success True)) nd)"

text \<open>The routing table \<open>registerHttpHandlers\<close> builds: method, path, handler.\<close>

definition registerHttpHandlers ::
  "env \<Rightarrow> ring_view \<Rightarrow> bool \<Rightarrow> (string \<times> string \<times> ('tc, 'rp, 'sd, 'h) endpoint) list" where
  "registerHttpHandlers E rv create_ok =
     [(''GET'', ''/ping'', get_ping),
      (''POST'', ''/incr'', post_incr E),
      (''POST'', ''/ratelimit'', post_ratelimit E),
      (''GET'', ''/rateall'', get_rateall),
      (''GET'', ''/rate'', get_rate),
      (''GET'', ''/clusterinfo'', get_clusterinfo rv),
      (''PUT'', ''/rate'', put_rate),
      (''GET'', ''/profilecpuenable'', get_profilecpuenable create_ok),
      (''GET'', ''/profilecpudisable'', get_profilecpudisable),
      (''GET'', ''/memprofile'', get_memprofile create_ok)]"

text \<open>
  Requests served one after the other, each to its end or until it waits; an unknown route is a 404. The
  result is the node and what it was to tell the other nodes, in order, or \<^const>\<open>None\<close> after a panic.
\<close>

definition route ::
  "env \<Rightarrow> ring_view \<Rightarrow> bool \<Rightarrow> string \<Rightarrow> string \<Rightarrow> ('tc, 'rp, 'sd, 'h) endpoint option" where
  "route E rv create_ok meth path =
     map_of (map (\<lambda>(m, p, ep). ((m, p), ep)) (registerHttpHandlers E rv create_ok)) (meth, path)"

fun serve ::
  "env \<Rightarrow> ring_view \<Rightarrow> bool \<Rightarrow> (string \<times> string \<times> request) list \<Rightarrow> ('tc, 'rp, 'sd, 'h) node \<Rightarrow>
   (('tc, 'rp, 'sd, 'h) node \<times> (string \<times> RateConfig) list) option" where
  "serve E rv create_ok [] nd = Some (nd, [])"
| "serve E rv create_ok ((meth, path, r) # rs) nd =
     (case route E rv create_ok meth path of
        None \<Rightarrow> serve E rv create_ok rs nd
      | Some ep \<Rightarrow>
          (case ep r nd of
             Crashes _ \<Rightarrow> None
           | Waits nd \<Rightarrow> serve E rv create_ok rs nd
           | Answer (_, sent) nd \<Rightarrow>
               map_option (map_prod id (append (case sent of None \<Rightarrow> [] | Some x \<Rightarrow> [x])))
                 (serve E rv create_ok rs nd)))"

text \<open>
  The two constructors. Whether an address can be listened on is a parameter. The error of
  \<open>http.ListenAndServe\<close> goes nowhere, that of \<open>net.Listen\<close> is logged and nil returned; the second
  component is the routes that are then served, if any.
\<close>

record 'ep HttpServer =
  srv_port :: i64
  srv_hostname :: string
  srv_unixSocksFile :: string
  srv_router :: "(string \<times> string \<times> 'ep) list"

definition NewGoHttpServer ::
  "(string \<Rightarrow> bool) \<Rightarrow> (string \<times> string \<times> 'ep) list \<Rightarrow> i64 \<Rightarrow> string \<Rightarrow>
   'ep HttpServer option \<times> (string \<times> string \<times> 'ep) list option" where
  "NewGoHttpServer can_listen routes port hostname =
     (let server = \<lparr>srv_port = port, srv_hostname = hostname, srv_unixSocksFile = [], srv_router = routes\<rparr>
      in (Some server,
          if can_listen ('':'' @ Itoa (srv_port server)) then Some (srv_router server) else None))"

definition NewGoHttpServerOnUnixSocket ::
  "(string \<Rightarrow> bool) \<Rightarrow> (string \<times> string \<times> 'ep) list \<Rightarrow> string \<Rightarrow>
   'ep HttpServer option \<times> (string \<times> string \<times> 'ep) list option" where
  "NewGoHttpServerOnUnixSocket can_listen routes sockFile =
     (let server = \<lparr>srv_port = 0, srv_hostname = [], srv_unixSocksFile = sockFile, srv_router = routes\<rparr>
      in if can_listen sockFile then (Some server, Some (srv_router server)) else (None, None))"

section \<open>Properties\<close>

lemma scast_scast: "(scast (scast (x :: i32) :: i64) :: i32) = x"
  by (simp add: scast_down_scast_id is_down)

lemma narrowed_iff: "sint (scast (x :: i64) :: i32) = sint x \<longleftrightarrow> - 2147483648 \<le> sint x \<and> sint x \<le> 2147483647"
proof -
  have e: "(scast x :: i32) = word_of_int (sint x)" by simp
  show ?thesis
  proof
    assume "sint (scast x :: i32) = sint x"
    then show "- 2147483648 \<le> sint x \<and> sint x \<le> 2147483647"
      using sint32_bounds [of "scast x"] by simp
  next
    assume "- 2147483648 \<le> sint x \<and> sint x \<le> 2147483647"
    then show "sint (scast x :: i32) = sint x" by (simp only: e sint32_of_int)
  qed
qed

text \<open>
  C28: \<open>POST /incr\<close> is \<open>Store.Incr\<close>. For all \<open>int32\<close> values written in decimal the endpoint makes
  exactly that call and replies with its answer; a missing count is 1; peak averaging is on if \<open>P\<close>
  is a positive number, and off if it is missing or no number at all.
\<close>

theorem post_incr_is_Incr:
  fixes cnt threshold window :: i32 and p :: i64
  assumes "Query r ''K'' = key"
    and "Query r ''C'' = (case c of None \<Rightarrow> [] | Some cnt \<Rightarrow> Itoa (scast cnt))"
    and "Query r ''T'' = Itoa (scast threshold)" and "Query r ''W'' = Itoa (scast window)"
    and "Query r ''P'' = (case peak of None \<Rightarrow> [] | Some p \<Rightarrow> Itoa p)"
  shows "post_incr E r nd =
    map_answer (\<lambda>ret. (JsonReply (Block ret), None))
      (limiter_answer
        (Store_Incr E key (case c of None \<Rightarrow> 1 | Some cnt \<Rightarrow> cnt) threshold window
          (case peak of None \<Rightarrow> False | Some p \<Rightarrow> 0 <s p)
          (node_store nd) (node_clock nd) (node_mgr nd)) nd)"
proof -
  have nonempty: "Itoa n \<noteq> []" for n
    using Atoi_Itoa [of n] by (auto simp: Atoi_def)
  have atoi: "Atoi ''1'' = Some 1" "Atoi [] = None"
    by code_simp+
  have cnt: "Atoi (if Query r ''C'' \<noteq> [] then Query r ''C'' else ''1'') =
      Some (case c of None \<Rightarrow> 1 | Some cnt \<Rightarrow> scast cnt)"
    using assms(2) by (cases c) (simp_all add: nonempty Atoi_Itoa atoi)
  have narrow: "scast (case c of None \<Rightarrow> (1 :: i64) | Some cnt \<Rightarrow> scast cnt) = (case c of None \<Rightarrow> 1 | Some cnt \<Rightarrow> cnt)"
    by (cases c) (simp_all add: scast_scast)
  have peak: "0 <s (case Atoi (Query r ''P'') of None \<Rightarrow> 0 | Some p \<Rightarrow> p) =
      (case peak of None \<Rightarrow> False | Some p \<Rightarrow> 0 <s p)"
    using assms(5) by (cases peak) (simp_all add: Atoi_Itoa atoi)
  show ?thesis
    unfolding post_incr_def Let_def cnt peak assms(1,3,4) Atoi_Itoa
    by (simp add: narrow scast_scast)
qed

text \<open>A node.\<close>

definition sample_node :: "(unit, unit, unit, unit) node" where
  "sample_node = \<lparr>node_store = alloc_store (sample_options\<lparr>buckets := 4, apiSecret := ''alpha''\<rparr>),
     node_clock = UnReal \<lparr>current = 5\<rparr>, node_mgr = None, node_files = sample_files\<rparr>"

definition sample_post :: request where
  "sample_post = \<lparr>raw_query = query_text [(''K'', ''k''), (''T'', ''10''), (''W'', ''60''), (''P'', ''1'')],
     apisecret = [], req_body = []\<rparr>"

lemma Itoa_samples: "Itoa 10 = ''10''" "Itoa 60 = ''60''" "Itoa 1 = ''1''"
  by code_simp+

theorem post_incr_is_Incr_witness:
  "post_incr sample_env sample_post sample_node =
   map_answer (\<lambda>ret. (JsonReply (Block ret), None))
     (limiter_answer (Store_Incr sample_env ''k'' 1 10 60 True (node_store sample_node)
     (node_clock sample_node) (node_mgr sample_node)) sample_node)"
proof -
  have "Query sample_post q = (if q = ''K'' then ''k'' else if q = ''T'' then ''10'' else if q = ''W'' then ''60''
      else if q = ''P'' then ''1'' else [])" for q
    by (simp add: Query_def sample_post_def query_get_text del: query_text.simps)
  then show ?thesis
    using post_incr_is_Incr [where key = "''k''" and c = None and threshold = 10 and window = 60 and peak = "Some 1"
        and r = sample_post and E = sample_env and nd = sample_node]
    by (simp add: Itoa_samples)
qed

text \<open>
  What a request does to the rate configurations and their file: nothing, or it sets, saves and hands on
  one configuration with a UTF-8 key, which only \<open>PUT /rate\<close> with the secret does.
\<close>

definition config_effect :: "('tc, 'rp, 'sd, 'h) node \<Rightarrow> broadcast \<Rightarrow> ('tc, 'rp, 'sd, 'h) node \<Rightarrow> bool" where
  "config_effect nd sent nd' \<longleftrightarrow>
     opts (node_store nd') = opts (node_store nd) \<and> store_ok (node_store nd') \<and>
     (case sent of
        None \<Rightarrow> rateConfig (node_store nd') = rateConfig (node_store nd) \<and> node_files nd' = node_files nd
      | Some (k, rc) \<Rightarrow>
          as_utf8 k = k \<and>
          rateConfig (node_store nd') = map_option (\<lambda>m. m(k \<mapsto> Some rc)) (rateConfig (node_store nd)) \<and>
          node_files nd' = SaveRateConfig (node_store nd') (node_files nd))"

definition good_answer ::
  "bool \<Rightarrow> ('tc, 'rp, 'sd, 'h) node \<Rightarrow> (response \<times> broadcast, ('tc, 'rp, 'sd, 'h) node) answer \<Rightarrow> bool" where
  "good_answer authorised nd a \<longleftrightarrow>
     (case a of
        Answer (_, sent) nd' \<Rightarrow> config_effect nd sent nd' \<and> (if authorised then True else sent = None)
      | Waits nd' \<Rightarrow> config_effect nd None nd'
      | Crashes _ \<Rightarrow> authorised)"

lemma good_replies: "store_ok (node_store nd) \<Longrightarrow> good_answer au nd (replies r nd)"
  by (simp add: good_answer_def replies_def config_effect_def)

lemma good_crash: "good_answer True nd (Crashes p)"
  by (simp add: good_answer_def)

lemma Store_Incr_frame:
  assumes "store_ok s"
  shows "\<exists>rep s' c' mgr'. Store_Incr E key cnt threshold window peak s c mgr = Inr (rep, s', c', mgr') \<and>
    opts s' = opts s \<and> rateConfig s' = rateConfig s \<and> store_ok s'"
proof -
  obtain l w where eff: "effective E threshold window peak = (l, w)" by fastforce
  have q: "store_ok (t\<lparr>syncChannel := x\<rparr>) = store_ok t" for t :: "('a, 'b, 'c) store" and x
    by (simp add: store_ok_def)
  show ?thesis
    using Store_Incr_cases [OF assms eff, of key cnt c mgr] assms
    by (auto simp: Incr_finish_eq bucket_at_frame bucket_at_ok q)
qed

lemma good_limiter:
  assumes "\<exists>rep s' c' mgr'. x = Inr (rep, s', c', mgr') \<and> opts s' = opts (node_store nd) \<and>
    rateConfig s' = rateConfig (node_store nd) \<and> store_ok s'"
  shows "good_answer au nd (map_answer (\<lambda>ret. (f ret, None)) (limiter_answer x nd))"
  using assms
  by (auto simp: good_answer_def limiter_answer_def map_answer_def config_effect_def Let_def split: reply.split)

lemma RateLimitGlobal_frame:
  assumes "store_ok s"
  shows "\<exists>rep s' c' mgr'. RateLimitGlobal E key cnt s c mgr = Inr (rep, s', c', mgr') \<and>
    opts s' = opts s \<and> rateConfig s' = rateConfig s \<and> store_ok s'"
  using assms Store_Incr_frame [OF assms] by (cases "GetRateConfig key s") (simp_all add: RateLimitGlobal_def)

lemma put_rate_effect:
  assumes "store_ok (node_store nd)"
  shows "good_answer (apisecret r = apiSecret (opts (node_store nd))) nd (put_rate r nd)"
proof (cases "apisecret r = apiSecret (opts (node_store nd))")
  case False
  then show ?thesis
    using good_replies [OF assms] by (simp add: put_rate_def IsAuthorised_def)
next
  case True
  note key = Decode_key_utf8 [of "req_body r", folded rate_body_def]
  show ?thesis
  proof (cases "rateConfig (node_store nd)")
    case None
    then show ?thesis
      using True good_replies [OF assms, of True]
      by (simp add: put_rate_def IsAuthorised_def SetRateConfig_def put_config_def Let_def good_crash)
  next
    case (Some m)
    have ok: "store_ok ((node_store nd)\<lparr>rateConfig := x\<rparr>)" for x using assms by (simp add: store_ok_def)
    then show ?thesis
      using True good_replies [OF assms, of True] key
      by (simp add: put_rate_def IsAuthorised_def SetRateConfig_eq [OF Some] Let_def)
        (simp add: good_answer_def config_effect_def Some)
  qed
qed

lemma endpoints_effect:
  assumes "store_ok (node_store nd)"
  shows "list_all (\<lambda>(meth, path, ep). good_answer (apisecret r = apiSecret (opts (node_store nd))) nd (ep r nd))
    (registerHttpHandlers E rv create_ok)"
proof -
  let ?au = "apisecret r = apiSecret (opts (node_store nd))"
  note g = good_replies [OF assms, of ?au]
  have "good_answer ?au nd (post_incr E r nd)"
    by (simp add: post_incr_def Let_def g good_limiter [OF Store_Incr_frame [OF assms]] split: option.split)
  moreover have "good_answer ?au nd (post_ratelimit E r nd)"
    by (simp add: post_ratelimit_def Let_def g good_limiter [OF RateLimitGlobal_frame [OF assms]] split: option.split)
  moreover have "good_answer ?au nd (get_rate r nd)"
    by (auto simp: get_rate_def Let_def g split: option.split)
  moreover have "good_answer ?au nd (get_profilecpuenable create_ok r nd)" "good_answer ?au nd (get_memprofile create_ok r nd)"
    "good_answer ?au nd (get_profilecpudisable r nd)"
    using g by (auto simp: get_profilecpuenable_def get_memprofile_def get_profilecpudisable_def IsAuthorised_def good_crash)
  ultimately show ?thesis
    using g put_rate_effect [OF assms, of r]
    by (simp add: registerHttpHandlers_def get_ping_def get_rateall_def get_clusterinfo_def)
qed

lemma route_effect:
  assumes "store_ok (node_store nd)"
    and "route E rv create_ok meth path = Some ep"
  shows "good_answer (apisecret r = apiSecret (opts (node_store nd))) nd (ep r nd)"
proof -
  have "(meth, path, ep) \<in> set (registerHttpHandlers E rv create_ok)"
    using map_of_SomeD [OF assms(2) [unfolded route_def]] by auto
  then show ?thesis using endpoints_effect [OF assms(1), of r E rv create_ok] by (auto simp: list_all_iff)
qed

text \<open>
  C29: nothing can be done to the rate configurations without the secret. Whatever requests to whatever
  routes are served one after the other, if none has the configured secret then none of them panics
  or ends the process, the configurations, their file and the options stay as they were, and the
  other nodes are told nothing.
\<close>

theorem unauthorised_requests_change_no_config:
  fixes nd :: "('tc, 'rp, 'sd, 'h) node"
  assumes "store_ok (node_store nd)"
    and "list_all (\<lambda>(meth, path, r). apisecret r \<noteq> apiSecret (opts (node_store nd))) rs"
  shows "case serve E rv create_ok rs nd of
      None \<Rightarrow> False
    | Some (nd', told) \<Rightarrow>
        told = [] \<and> rateConfig (node_store nd') = rateConfig (node_store nd) \<and> node_files nd' = node_files nd \<and>
        opts (node_store nd') = opts (node_store nd)"
  using assms
proof (induction rs arbitrary: nd)
  case (Cons x rs)
  obtain meth path r where x: "x = (meth, path, r)" by (metis prod_cases3)
  note IH = Cons.IH
  have rest: "case serve E rv create_ok rs nd' of
      None \<Rightarrow> False
    | Some (nd'', told) \<Rightarrow>
        told = [] \<and> rateConfig (node_store nd'') = rateConfig (node_store nd) \<and> node_files nd'' = node_files nd \<and>
        opts (node_store nd'') = opts (node_store nd)" if "config_effect nd None nd'" for nd'
    using IH [of nd'] that Cons.prems(2) by (simp add: config_effect_def split: option.splits prod.splits)
  show ?case
  proof (cases "route E rv create_ok meth path :: ('tc, 'rp, 'sd, 'h) endpoint option")
    case None
    then show ?thesis using IH [OF Cons.prems(1)] Cons.prems(2) by (simp add: x)
  next
    case (Some ep)
    have "good_answer False nd (ep r nd)" using route_effect [OF Cons.prems(1) Some, of r] Cons.prems(2) by (simp add: x)
    then consider (answered) rep nd1 where "ep r nd = Answer (rep, None) nd1" "config_effect nd None nd1"
      | (waiting) nd1 where "ep r nd = Waits nd1" "config_effect nd None nd1"
      by (cases "ep r nd") (auto simp: good_answer_def)
    then show ?thesis
    proof cases
      case answered
      then show ?thesis using rest [of nd1] by (auto simp: x Some split: option.splits)
    next
      case waiting
      then show ?thesis using rest [of nd1] by (simp add: x Some)
    qed
  qed
qed simp

theorem unauthorised_requests_change_no_config_witness:
  "case serve sample_env \<lparr>rv_reachable = None, rv_ready = True, rv_uptime = None, rv_whoami = None\<rparr> False
      [(''PUT'', ''/rate'', \<lparr>raw_query = [], apisecret = ''beta'', req_body = render (json_of_request ''k'' 60 1 False)\<rparr>),
       (''GET'', ''/memprofile'', \<lparr>raw_query = [], apisecret = [], req_body = []\<rparr>)] sample_node of
     None \<Rightarrow> False
   | Some (nd', told) \<Rightarrow> told = [] \<and> rateConfig (node_store nd') = rateConfig (node_store sample_node)"
proof -
  have "store_ok (node_store sample_node)"
    unfolding sample_node_def node.select_convs by (rule alloc_store_ok) simp
  from unauthorised_requests_change_no_config [OF this, of "[(''PUT'', ''/rate'', \<lparr>raw_query = [], apisecret = ''beta'',
        req_body = render (json_of_request ''k'' 60 1 False)\<rparr>), (''GET'', ''/memprofile'', \<lparr>raw_query = [], apisecret = [], req_body = []\<rparr>)]"
      sample_env "\<lparr>rv_reachable = None, rv_ready = True, rv_uptime = None, rv_whoami = None\<rparr>" False]
  show ?thesis
    by (simp add: sample_node_def alloc_store_def split: option.splits prod.splits del: serve.simps)
qed

text \<open>
  C30: a configuration that was put is the one that is got, but only if it fits. After an accepted
  \<open>PUT /rate\<close>, \<open>GET /rate\<close> for the same key returns the window and the limit of the request exactly
  if they are at most \<open>2^31 - 1\<close>: both are validated as 64-bit numbers and then cut to 32 bits, so
  that a limit of \<open>2^32\<close> is accepted and stored as 0.
\<close>

theorem put_rate_then_get:
  assumes "put_rate r nd = Answer (JsonReply (Success True), sent) nd'" and "Query g ''K'' = rr_Key (rate_body r)"
  shows "case get_rate g nd' of
      Answer (JsonReply (Rate rc), _) nd'' \<Rightarrow> nd'' = nd' \<and>
        PeakAveraged rc = rr_PeakAveraged (rate_body r) \<and>
        (sint (Window rc) = sint (rr_Window (rate_body r))) = (sint (rr_Window (rate_body r)) \<le> 2147483647) \<and>
        (sint (Limit rc) = sint (rr_Limit (rate_body r))) = (sint (rr_Limit (rate_body r)) \<le> 2147483647) \<and>
        (if rr_Limit (rate_body r) = 4294967296 then Limit rc = 0 else True)
    | _ \<Rightarrow> False"
proof -
  let ?b = "rate_body r"
  have pos: "1 \<le> sint (rr_Window ?b)" "1 \<le> sint (rr_Limit ?b)"
    and nd': "GetRateConfig (rr_Key ?b) (node_store nd') = Some \<lparr>Window = scast (rr_Window ?b),
      Limit = scast (rr_Limit ?b), PeakAveraged = rr_PeakAveraged ?b\<rparr>"
    using assms(1)
    by (auto simp: put_rate_def replies_def SetRateConfig_def Let_def signed_less split: if_splits sum.splits)
  have cut: "(scast (4294967296 :: i64) :: i32) = 0" by simp
  show ?thesis
    using pos cut narrowed_iff [of "rr_Window ?b"] narrowed_iff [of "rr_Limit ?b"]
    by (simp add: get_rate_def assms(2) nd' replies_def)
qed

definition sample_put :: request where
  "sample_put = \<lparr>raw_query = query_text [(''K'', ''k'')], apisecret = ''alpha'',
     req_body = render (json_of_request ''k'' 60 4294967296 False)\<rparr>"

lemma sample_put_simps:
  "Query sample_put ''K'' = ''k''" "apisecret sample_put = ''alpha''"
  "rate_body sample_put = \<lparr>rr_Key = ''k'', rr_Window = 60, rr_Limit = 4294967296, rr_PeakAveraged = False\<rparr>"
proof -
  have "as_utf8 ''k'' = ''k''" by (simp add: as_utf8_ascii byte_def)
  then show "rate_body sample_put = \<lparr>rr_Key = ''k'', rr_Window = 60, rr_Limit = 4294967296, rr_PeakAveraged = False\<rparr>"
    by (simp add: rate_body_def sample_put_def Decode_request)
qed (simp_all add: Query_def sample_put_def query_get_text del: query_text.simps)

theorem put_rate_then_get_witness:
  "case put_rate sample_put sample_node of
     Answer _ nd' \<Rightarrow>
       (case get_rate sample_put nd' of
          Answer (JsonReply (Rate rc), _) nd'' \<Rightarrow> nd'' = nd' \<and> Limit rc = 0
        | _ \<Rightarrow> False)
   | _ \<Rightarrow> False"
proof -
  have "\<exists>sent nd'. put_rate sample_put sample_node = Answer (JsonReply (Success True), sent) nd'"
    by (simp add: byte_def alloc_store_def put_rate_def sample_put_simps sample_node_def IsAuthorised_def SetRateConfig_def put_config_def Let_def signed_less)
  then obtain sent nd' where put: "put_rate sample_put sample_node = Answer (JsonReply (Success True), sent) nd'"
    by blast
  have "rr_Limit (rate_body sample_put) = 4294967296" "Query sample_put ''K'' = rr_Key (rate_body sample_put)"
    by (simp_all add: sample_put_simps)
  with put_rate_then_get [OF put, of sample_put]
  have "\<exists>rc s. get_rate sample_put nd' = Answer (JsonReply (Rate rc), s) nd' \<and> Limit rc = 0"
    by (auto split: answer.splits prod.splits response.splits content.splits)
  then show ?thesis by (auto simp: put)
qed

text \<open>
  C26: a configuration goes through the API as text. If the body of \<open>PUT /rate\<close> is the JSON of a key
  (UTF-8, not blank, no character special to URLs) and of a configuration with window and limit of
  at least 1, the node tells the others exactly this configuration, and the text that \<open>GET /rate\<close> then
  replies, read as JSON again, is it.
\<close>

theorem rate_config_over_http:
  assumes "apisecret r = apiSecret (opts (node_store nd))"
    and "req_body r = render (json_of_request k (scast (Window rc)) (scast (Limit rc)) (PeakAveraged rc))"
    and "as_utf8 k = k" and "\<not> blank k" and "plain k" and "1 \<le> sint (Window rc)" and "1 \<le> sint (Limit rc)"
    and "raw_query g = query_text [(''K'', k)]" and m: "rateConfig (node_store nd) = Some m"
  shows "case put_rate r nd of
      Answer (reply, sent) nd' \<Rightarrow>
        sent = Some (k, rc) \<and>
        (case get_rate g nd' of
           Answer (JsonReply obj, _) _ \<Rightarrow> Option.bind (parse_text (serialize ord obj)) rate_of_json = Some rc
         | _ \<Rightarrow> False)
    | _ \<Rightarrow> False"
proof -
  have b: "rate_body r = \<lparr>rr_Key = k, rr_Window = scast (Window rc), rr_Limit = scast (Limit rc), rr_PeakAveraged = PeakAveraged rc\<rparr>"
    by (simp only: rate_body_def assms(2) Decode_request assms(3))
  have q: "Query g ''K'' = k" using assms(5) by (simp add: Query_def assms(8) query_get_text del: query_text.simps)
  have rc: "\<lparr>Window = Window rc, Limit = Limit rc, PeakAveraged = PeakAveraged rc\<rparr> = rc" by (cases rc) simp
  let ?s = "(node_store nd)\<lparr>rateConfig := Some (m(k \<mapsto> Some rc))\<rparr>"
  have p: "put_rate r nd = Answer (JsonReply (Success True), Some (k, rc))
      (nd\<lparr>node_store := ?s, node_files := SaveRateConfig ?s (node_files nd)\<rparr>)"
    using assms(1,4,6,7) by (simp add: put_rate_def IsAuthorised_def b signed_less SetRateConfig_eq [OF m] sint64_scast32 scast_scast rc Let_def)
  show ?thesis
    unfolding p by (simp add: get_rate_def q GetRateConfig_def replies_def serialize_def parse_text_render rate_roundtrip)
qed

theorem rate_config_over_http_witness:
  "case put_rate \<lparr>raw_query = [], apisecret = ''alpha'', req_body = render (json_of_request ''k'' (scast (60 :: i32)) (scast (10 :: i32)) True)\<rparr>
      sample_node of
     Answer (_, sent) _ \<Rightarrow> sent = Some (''k'', \<lparr>Window = 60, Limit = 10, PeakAveraged = True\<rparr>)
   | _ \<Rightarrow> False"
proof -
  have "as_utf8 ''k'' = ''k''" by (simp add: as_utf8_ascii byte_def)
  then show ?thesis
    using rate_config_over_http [of "\<lparr>raw_query = [], apisecret = ''alpha'', req_body = render (json_of_request ''k'' (scast (60 :: i32)) (scast (10 :: i32)) True)\<rparr>"
      sample_node "''k''" "\<lparr>Window = 60, Limit = 10, PeakAveraged = True\<rparr>"
      "\<lparr>raw_query = query_text [(''K'', ''k'')], apisecret = [], req_body = []\<rparr>" Map.empty "[]"]
    by (simp add: sample_node_def alloc_store_def byte_def split: answer.splits prod.splits)
qed

text \<open>A map after updates, in their order.\<close>

fun updated :: "(string \<rightharpoonup> RateConfig option) \<Rightarrow> (string \<times> RateConfig) list \<Rightarrow> (string \<rightharpoonup> RateConfig option)" where
  "updated m [] = m"
| "updated m ((k, rc) # told) = updated (m(k \<mapsto> Some rc)) told"

text \<open>
  C27: what is put survives a restart, if it can. Let the node have configurations with UTF-8 keys and
  let their file be writable. After any requests, served one after the other, the node has its
  configurations updated in order by what it told the other nodes, all keys are still UTF-8, and a
  restart of the node finds exactly its configurations in the file, as soon as one was put and if the
  path that is written (under \<open>configDir\<close>) and the path that is read are of the same file; otherwise it
  finds what it would have found before, whatever was put.
\<close>

theorem put_configs_survive_restart:
  fixes nd :: "('tc, 'rp, 'sd, 'h) node"
  assumes "store_ok (node_store nd)" and "rateConfig (node_store nd) = Some m" and "storable m"
    and "writable (node_files nd) (rate_path (node_store nd))"
    and "serve E rv create_ok rs nd = Some (nd', told)"
  shows "case updated m told of
      m' \<Rightarrow>
        rateConfig (node_store nd') = Some m' \<and> storable m' \<and>
        rateConfig (restart (node_store nd') (node_files nd')) =
          (if told \<noteq> [] \<and> same_file (node_files nd) (rate_path (node_store nd)) ''rateconfig.json'' then Some m'
           else rateConfig (restart (node_store nd) (node_files nd)))"
  using assms
proof (induction rs arbitrary: nd m told)
  case (Cons x rs)
  obtain meth path r where x: "x = (meth, path, r)" by (metis prod_cases3)
  note IH = Cons.IH
  have quiet: "case updated m told of
      m' \<Rightarrow>
        rateConfig (node_store nd') = Some m' \<and> storable m' \<and>
        rateConfig (restart (node_store nd') (node_files nd')) =
          (if told \<noteq> [] \<and> same_file (node_files nd) (rate_path (node_store nd)) ''rateconfig.json'' then Some m'
           else rateConfig (restart (node_store nd) (node_files nd)))"
    if "config_effect nd None nd1" and "serve E rv create_ok rs nd1 = Some (nd', told)" for nd1
    using IH [of nd1 m told] that Cons.prems(2-4)
    by (simp add: config_effect_def rate_path_def restart_def cong: if_cong)
  show ?case
  proof (cases "route E rv create_ok meth path :: ('tc, 'rp, 'sd, 'h) endpoint option")
    case None
    then show ?thesis using IH [OF Cons.prems(1-4)] Cons.prems(5) by (simp add: x)
  next
    case route: (Some ep)
    note ans = route_effect [OF Cons.prems(1) route, of r]
    show ?thesis
    proof (cases "ep r nd")
      case (Waits nd1)
      then show ?thesis using quiet [of nd1] ans Cons.prems(5) by (simp add: x route good_answer_def)
    next
      case (Crashes p)
      then show ?thesis using Cons.prems(5) by (simp add: x route)
    next
      case (Answer reply nd1)
      obtain rep sent where reply: "reply = (rep, sent)" by (cases reply)
      have eff: "config_effect nd sent nd1" using ans by (simp add: Answer reply good_answer_def)
      show ?thesis
      proof (cases sent)
        case None
        then show ?thesis
          using quiet [of nd1] eff Cons.prems(5) by (auto simp: x route None Answer reply split: option.splits)
      next
        case (Some krc)
        obtain k rc where krc: "krc = (k, rc)" by (cases krc)
        obtain told' where rest: "serve E rv create_ok rs nd1 = Some (nd', told')" and told: "told = (k, rc) # told'"
          using Cons.prems(5) by (auto simp: x route Answer reply Some krc)
        let ?m = "m(k \<mapsto> Some rc)"
        have e: "opts (node_store nd1) = opts (node_store nd)" "store_ok (node_store nd1)" "as_utf8 k = k"
          "rateConfig (node_store nd1) = Some ?m" "node_files nd1 = SaveRateConfig (node_store nd1) (node_files nd)"
          using eff Cons.prems(2) by (simp_all add: config_effect_def Some krc)
        have p: "rate_path (node_store nd1) = rate_path (node_store nd)" by (simp add: rate_path_def e(1))
        have st: "storable ?m" using Cons.prems(3) e(3) by simp
        have w: "writable (node_files nd1) (rate_path (node_store nd1))" using Cons.prems(4) by (simp add: e(5) p)
        have "rateConfig (restart (node_store nd1) (node_files nd1)) =
            (if same_file (node_files nd) (rate_path (node_store nd)) ''rateconfig.json'' then Some ?m
             else rateConfig (restart (node_store nd) (node_files nd)))"
          using saved_rates_loaded [OF e(4) st, of "node_files nd" "alloc_store (opts (node_store nd))" Map.empty] Cons.prems(4)
          by (auto simp: restart_def e(1,5) p)
        with IH [OF e(2,4) st w rest] show ?thesis by (auto simp: told e(5) p fun_upd_def)
      qed
    qed
  qed
qed simp

theorem put_configs_survive_restart_witness:
  "\<exists>nd'. serve sample_env \<lparr>rv_reachable = None, rv_ready = True, rv_uptime = None, rv_whoami = None\<rparr> True
      [(''PUT'', ''/rate'', sample_put)] sample_node = Some (nd', [(''k'', \<lparr>Window = 60, Limit = 0, PeakAveraged = False\<rparr>)]) \<and>
    rateConfig (restart (node_store nd') (node_files nd')) = Some [''k'' \<mapsto> Some \<lparr>Window = 60, Limit = 0, PeakAveraged = False\<rparr>]"
proof -
  let ?rv = "\<lparr>rv_reachable = None, rv_ready = True, rv_uptime = None, rv_whoami = None\<rparr>"
  have ok: "store_ok (node_store sample_node)"
    unfolding sample_node_def node.select_convs by (rule alloc_store_ok) simp
  have m: "rateConfig (node_store sample_node) = Some Map.empty" by (simp add: sample_node_def)
  have path: "rate_path (node_store sample_node) = ''rateconfig.json''"
    by (simp add: rate_path_def sample_node_def alloc_store_def sample_options_def defaultOptions_def)
  have fs: "node_files sample_node = sample_files" by (simp add: sample_node_def)
  have "\<exists>nd'. put_rate sample_put sample_node = Answer (JsonReply (Success True), Some (''k'', \<lparr>Window = 60, Limit = 0, PeakAveraged = False\<rparr>)) nd'"
    by (simp add: put_rate_def sample_put_simps SetRateConfig_eq [OF m] IsAuthorised_def Let_def signed_less byte_def)
      (simp add: sample_node_def alloc_store_def)
  then obtain nd' where "put_rate sample_put sample_node = Answer (JsonReply (Success True), Some (''k'', \<lparr>Window = 60, Limit = 0, PeakAveraged = False\<rparr>)) nd'"
    by blast
  then have s: "serve sample_env ?rv True [(''PUT'', ''/rate'', sample_put)] sample_node =
      Some (nd', [(''k'', \<lparr>Window = 60, Limit = 0, PeakAveraged = False\<rparr>)])"
    by (simp add: route_def registerHttpHandlers_def)
  from put_configs_survive_restart [OF ok m storable_empty _ s] s show ?thesis
    by (simp add: path fs)
qed

text \<open>
  reading is harmless. No two routes share method and path, and no \<open>GET\<close> route changes the node or
  tells other nodes anything, whatever the request; only the profiling routes can end the
  process, and only if their file cannot be created.
\<close>

theorem get_routes_read_only:
  "distinct (map (\<lambda>(meth, path, _). (meth, path)) (registerHttpHandlers E rv ok)) \<and>
   list_all (\<lambda>(meth, path, ep).
       if meth = ''GET'' then
         (case ep r nd of
            Answer (_, sent) nd' \<Rightarrow> nd' = nd \<and> sent = None
          | Waits _ \<Rightarrow> False
          | Crashes _ \<Rightarrow> \<not> ok \<and> path \<in> {''/profilecpuenable'', ''/memprofile''})
       else True)
     (registerHttpHandlers E rv ok)"
  by (simp add: registerHttpHandlers_def get_ping_def get_rateall_def get_rate_def get_clusterinfo_def
      get_profilecpuenable_def get_profilecpudisable_def get_memprofile_def replies_def Let_def
      split: option.split)

end
