(* ===== verification/Startup.thy ===== *)
theory Startup
  imports Node Stats HttpServer
begin

text \<open>
  \<open>NewStore\<close> (store/store.go) as a whole and the main program (golimitV3.go): from the configuration
  file to a running process, and its shutdown. What the ring, TChannel, statsd, \<open>os.Hostname\<close> and
  the configuration file answer is a parameter. Here no request arrives before \<open>NewStore\<close> is
  done, so that registering the thrift server (\<open>registerClusterNode\<close>) changes nothing; \<open>StartOrder\<close> has
  what can come before.
\<close>

section \<open>NewStore\<close>

text \<open>
  Allocation, joining the ring, loading the configurations, statistics. The store registers itself
  with the event manager and then asks for its statsd client; without one it turns its statistics
  off. \<open>self\<close> is the store as a handler, \<open>extra\<close> the spare capacity \<open>append\<close> leaves.
\<close>

definition enable_statistics ::
  "(string \<Rightarrow> u32 \<Rightarrow> 'sd option) \<Rightarrow> (nat \<Rightarrow> nat) \<Rightarrow> 'h \<Rightarrow> ('tc, 'rp, 'sd) store \<Rightarrow> 'h event_manager option \<Rightarrow>
   ('tc, 'rp, 'sd) store \<times> 'h event_manager option" where
  "enable_statistics statsd_New extra self s mgr =
     (if statsDEnabled (opts s) then
        let (em, mgr) = GetMgrInstance mgr;
            em = RegisterHandler extra KEYEVENT self em
        in case statsd_New (statsDHostPort (opts s)) (statsDSampleRate (opts s)) of
             Some client \<Rightarrow> (s\<lparr>store_statsd := Some client\<rparr>, Some em)
           | None \<Rightarrow> (s\<lparr>opts := (opts s)\<lparr>statsDEnabled := False\<rparr>\<rparr>, Some em)
      else (s, mgr))"

definition NewStore ::
  "('tc, 'rp) ring_calls \<Rightarrow> (string \<Rightarrow> u32 \<Rightarrow> 'sd option) \<Rightarrow> string \<Rightarrow> clock \<Rightarrow> (nat \<Rightarrow> nat) \<Rightarrow> 'h \<Rightarrow>
   ('tc, 'rp) Option list \<Rightarrow> files \<Rightarrow> 'h event_manager option \<Rightarrow>
   panic + ('tc, 'rp, 'sd) store \<times> 'h event_manager option" where
  "NewStore R statsd_New hostname realClock extra self opt fs mgr =
     (let o' = apply_options opt (defaultOptions hostname realClock)
      in if buckets o' <s 0 then Inl MakeSliceLen
         else
           let s = alloc_store o'
           in if syncBuffer o' <s 0 then Inl (Panic ''makechan: size out of range'')
              else
                (case initRingPop R hostname s of
                   Inl p \<Rightarrow> Inl p
                 | Inr s \<Rightarrow> Inr (enable_statistics statsd_New extra self (LoadRateConfig fs s) mgr)))"

text \<open>\<open>Close\<close>: the calls it makes on the ring and on the TChannel.\<close>

datatype ('tc, 'rp) closing = DestroyRing 'rp | CloseTChannel 'tc | RemoveSocket string

definition Close :: "('tc, 'rp, 'sd) store \<Rightarrow> panic + ('tc, 'rp) closing list" where
  "Close s =
     (case store_ringpop s of
        None \<Rightarrow> Inl NilDereference
      | Some rp \<Rightarrow>
          (case store_tchannel s of
             None \<Rightarrow> Inl NilDereference
           | Some tc \<Rightarrow> Inr [DestroyRing rp, CloseTChannel tc]))"

section \<open>The main program\<close>

text \<open>
  A configuration file that cannot be read ends the program without an error; one that is no YAML
  panics. The result of \<open>main_start\<close> is the process with its listener, \<^const>\<open>None\<close> if it just ends.
\<close>

datatype config_file = Unreadable | NotYaml | Config StoreConfig

definition main_start ::
  "('tc, 'rp) ring_calls \<Rightarrow> (string \<Rightarrow> u32 \<Rightarrow> 'sd option) \<Rightarrow> string option \<Rightarrow> string \<Rightarrow> clock \<Rightarrow> (nat \<Rightarrow> nat) \<Rightarrow>
   'h \<Rightarrow> config_file \<Rightarrow> files \<Rightarrow> panic + (('tc, 'rp, 'sd, 'h) node \<times> listener) option" where
  "main_start R statsd_New os_hostname hostname realClock extra self file fs =
     (case file of
        Unreadable \<Rightarrow> Inr None
      | NotYaml \<Rightarrow> Inl (Panic ''yaml'')
      | Config configObj \<Rightarrow>
          (case main_hostname os_hostname configObj of
             Inl p \<Rightarrow> Inl p
           | Inr configObj \<Rightarrow>
               (case main_options configObj of
                  Inl p \<Rightarrow> Inl p
                | Inr opt \<Rightarrow>
                    (case NewStore R statsd_New hostname realClock extra self opt fs None of
                       Inl p \<Rightarrow> Inl p
                     | Inr (s, mgr) \<Rightarrow>
                         (case main_listener configObj of
                            Inl p \<Rightarrow> Inl p
                          | Inr l \<Rightarrow>
                              Inr (Some (\<lparr>node_store = s, node_clock = opt_clock (opts s), node_mgr = mgr,
                                node_files = fs\<rparr>, l)))))))"

text \<open>What \<open>main\<close> then does with the listener: nothing of the result is looked at.\<close>

definition main_serve ::
  "(string \<Rightarrow> bool) \<Rightarrow> (string \<times> string \<times> 'ep) list \<Rightarrow> listener \<Rightarrow> (string \<times> string \<times> 'ep) list option" where
  "main_serve can_listen routes l =
     (case l of
        OnUnixSocket f \<Rightarrow> snd (NewGoHttpServerOnUnixSocket can_listen routes f)
      | OnTcp port host \<Rightarrow> snd (NewGoHttpServer can_listen routes port host))"

definition main_shutdown :: "StoreConfig \<Rightarrow> ('tc, 'rp, 'sd) store \<Rightarrow> panic + ('tc, 'rp) closing list" where
  "main_shutdown configObj s =
     (case Close s of
        Inl p \<Rightarrow> Inl p
      | Inr calls \<Rightarrow>
          if UnixSocketEnable configObj = Some True then
            (case UnixSocket configObj of
               None \<Rightarrow> Inl NilDereference
             | Some f \<Rightarrow> Inr (calls @ [RemoveSocket f]))
          else Inr calls)"

section \<open>Properties\<close>

lemma initRingPop_frame:
  assumes "initRingPop R hostname s = Inr s'"
  shows "opts s' = opts s" and "keyBucket s' = keyBucket s" and "bucketMask s' = bucketMask s"
    and "syncChannel s' = syncChannel s" and "rateConfig s' = rateConfig s" and "store_statsd s' = store_statsd s"
    and "store_tchannel s' \<noteq> None" and "store_ringpop s' \<noteq> None" and "store_nodeId s' \<noteq> []"
  using assms
  by (auto simp: initRingPop_def init_tchannel_def init_ring_def Let_def split: option.splits if_splits sum.splits)

lemma enable_statistics_frame:
  assumes "enable_statistics statsd_New extra self s mgr = (s', mgr')"
  shows "keyBucket s' = keyBucket s" and "bucketMask s' = bucketMask s" and "syncChannel s' = syncChannel s"
    and "rateConfig s' = rateConfig s" and "buckets (opts s') = buckets (opts s)"
    and "store_tchannel s' = store_tchannel s" and "store_ringpop s' = store_ringpop s"
    and "store_nodeId s' = store_nodeId s"
    and "statsDEnabled (opts s') \<Longrightarrow> store_statsd s' \<noteq> None"
  using assms by (auto simp: enable_statistics_def Let_def split_beta split: if_splits option.splits)

lemma NewStore_cases:
  assumes "NewStore R statsd_New hostname realClock extra self opt fs mgr = Inr (s', mgr')"
  obtains o' s where "o' = apply_options opt (defaultOptions hostname realClock)"
    and "0 \<le> sint (buckets o')" and "0 \<le> sint (syncBuffer o')"
    and "initRingPop R hostname (alloc_store o') = Inr s"
    and "enable_statistics statsd_New extra self (LoadRateConfig fs s) mgr = (s', mgr')"
  using assms by (auto simp: NewStore_def Let_def signed_less split: if_splits sum.splits)

lemma NewStore_result:
  fixes opt :: "('tc, 'rp) Option list"
  assumes "NewStore R statsd_New hostname realClock extra self opt fs mgr = Inr (s, mgr')"
  shows "buckets (opts s) = buckets (apply_options opt (defaultOptions hostname realClock))"
    and "keyBucket s = replicate (nat (sint (buckets (opts s)))) NewKeyBucket"
    and "store_ok s = (0 < sint (buckets (opts s)))" and "syncChannel s = []"
    and "rateConfig s = loaded fs (Some Map.empty)"
    and "store_tchannel s \<noteq> None" and "store_ringpop s \<noteq> None" and "store_nodeId s \<noteq> []"
    and "statsDEnabled (opts s) \<Longrightarrow> store_statsd s \<noteq> None"
proof -
  obtain s0 where
    ring: "initRingPop R hostname (alloc_store (apply_options opt (defaultOptions hostname realClock))) = Inr s0"
    and st: "enable_statistics statsd_New extra self (LoadRateConfig fs s0) mgr = (s, mgr')"
    using NewStore_cases [OF assms] by metis
  let ?o = "apply_options opt (defaultOptions hostname realClock)"
  note f = initRingPop_frame [OF ring] enable_statistics_frame [OF st] LoadRateConfig_frame [of fs s0]
  show b: "buckets (opts s) = buckets ?o" using f by (simp add: alloc_store_def)
  have kb: "keyBucket s = map (\<lambda>_. NewKeyBucket) [0..<nat (sint (buckets ?o))]"
    using f by (simp add: alloc_store_def)
  then show "keyBucket s = replicate (nat (sint (buckets (opts s)))) NewKeyBucket"
    by (simp add: b map_replicate_const)
  have "store_ok s" if "0 < sint (buckets ?o)"
    using alloc_store_ok [OF that] f by (simp add: store_ok_def)
  then show "store_ok s = (0 < sint (buckets (opts s)))"
    unfolding b by (auto simp: store_ok_def kb intro: ccontr)
  show "statsDEnabled (opts s) \<Longrightarrow> store_statsd s \<noteq> None" by (rule enable_statistics_frame(9) [OF st])
  show "syncChannel s = []" and "store_tchannel s \<noteq> None" and "store_ringpop s \<noteq> None" and "store_nodeId s \<noteq> []"
    and "rateConfig s = loaded fs (Some Map.empty)"
    using f by (simp_all add: alloc_store_def)
qed

text \<open>
  the store \<open>NewStore\<close> returns is ready. It is in the ring under a name, has one empty bucket
  for each that was asked for, nothing to synchronise, the saved configurations if their file
  could be read, and a statsd client if its statistics are on, so that its event handler never
  lacks one; \<open>Close\<close> can close it. Its buckets can be used exactly if there is at least one.
\<close>

theorem NewStore_is_ready:
  assumes "NewStore R statsd_New hostname realClock extra self opt fs mgr = Inr (s, mgr')"
  shows "store_ringpop s \<noteq> None \<and> store_tchannel s \<noteq> None \<and> store_nodeId s \<noteq> [] \<and>
    (case Close s of Inl _ \<Rightarrow> False | Inr calls \<Rightarrow> length calls = 2) \<and>
    keyBucket s = replicate (nat (sint (buckets (opts s)))) NewKeyBucket \<and>
    syncChannel s = [] \<and>
    rateConfig s = loaded fs (Some Map.empty) \<and>
    (if statsDEnabled (opts s) then store_statsd s \<noteq> None else True) \<and>
    store_ok s = (0 < sint (buckets (opts s)))"
  using NewStore_result [OF assms] by (auto simp: Close_def split: option.splits)

text \<open>
  a configured number of 0 buckets is accepted: the store starts and joins the cluster, and
  then every call that reaches a bucket panics, that of a client as well as a batch of another
  node, whatever the key.
\<close>

theorem zero_buckets_panic:
  assumes "NewStore R statsd_New hostname realClock extra self opt fs mgr = Inr (s, mgr')"
    and "buckets (apply_options opt (defaultOptions hostname realClock :: ('tc, 'rp) options)) = 0"
  shows "Store_Incr E key cnt threshold window peak s c m = Inl IndexOutOfRange \<and>
    SyncKeys E (sync # syncs) s c = Inl IndexOutOfRange"
proof -
  obtain s0 where
    ring: "initRingPop R hostname (alloc_store (apply_options opt (defaultOptions hostname realClock))) = Inr s0"
    and st: "enable_statistics statsd_New extra self (LoadRateConfig fs s0) mgr = (s, mgr')"
    using NewStore_cases [OF assms(1)] by metis
  have "keyBucket s = []"
    using initRingPop_frame [OF ring] enable_statistics_frame [OF st] assms(2)
    by (simp add: LoadRateConfig_frame alloc_store_def)
  then have "getKeyBucket E k s = Inl IndexOutOfRange" for k
    by (simp add: getKeyBucket_def)
  then show ?thesis by (simp add: Store_Incr_def split_beta Let_def)
qed

text \<open>
  the statistics handler outlives a statsd client that could not be made: the store stays
  registered with the event manager, though its statistics are off.
\<close>

theorem handler_registered_without_client:
  assumes "statsDEnabled (opts s)" and "statsd_New (statsDHostPort (opts s)) (statsDSampleRate (opts s)) = None"
  shows "case enable_statistics statsd_New extra self s mgr of
      (s', mgr') \<Rightarrow> \<not> statsDEnabled (opts s') \<and> store_statsd s' = store_statsd s \<and>
        mgr' = Some (RegisterHandler extra KEYEVENT self (fst (GetMgrInstance mgr)))"
  using assms by (simp add: enable_statistics_def Let_def split_beta)

text \<open>
  a process that cannot listen runs all the same: for a running process the routes are served
  exactly if the address of the configuration can be listened on.
\<close>

theorem routes_served_iff_listening:
  assumes "main_listener cfg = Inr l"
  shows "main_serve can_listen routes l =
    (if can_listen (case UnixSocketEnable cfg of Some True \<Rightarrow> the (UnixSocket cfg) | _ \<Rightarrow> '':'' @ Itoa (the (HttpPort cfg)))
     then Some routes else None)"
  using assms
  by (auto simp: main_listener_def main_serve_def NewGoHttpServer_def NewGoHttpServerOnUnixSocket_def Let_def
      split: if_splits option.splits bool.splits)

text \<open>A ring that answers.\<close>

definition sample_ring :: "(unit, unit) ring_calls" where
  "sample_ring = \<lparr>NewChannel = \<lambda>_. Some (), ServiceName = \<lambda>_. [], ringpop_New = \<lambda>_ _ _ _. Some (),
     ListenAndServe = \<lambda>_ _. True, Bootstrap = \<lambda>_ _ _. True, WhoAmI = \<lambda>_. []\<rparr>"

lemma sample_ring_joins: "tchannel (opts s) = None \<Longrightarrow> ringpop (opts s) = None \<Longrightarrow> \<exists>s'. initRingPop sample_ring h s = Inr s'"
  by (auto simp: initRingPop_def init_tchannel_def init_ring_def sample_ring_def Let_def)

lemma sample_NewStore:
  fixes opt :: "(unit, unit) Option list"
  assumes "apply_options opt (defaultOptions h (UnReal \<lparr>current = 0\<rparr>)) = o'"
    and "0 \<le> sint (buckets o')" and "0 \<le> sint (syncBuffer o')" and "tchannel o' = None" and "ringpop o' = None"
  shows "\<exists>s mgr'. NewStore sample_ring (statsd_New :: _ \<Rightarrow> _ \<Rightarrow> unit option) h (UnReal \<lparr>current = 0\<rparr>) extra () opt fs mgr =
    Inr (s, mgr')"
proof -
  have "\<exists>s'. initRingPop sample_ring h (alloc_store o' :: (unit, unit, unit) store) = Inr s'"
    by (rule sample_ring_joins) (simp_all add: alloc_store_def assms(4,5))
  then show ?thesis
    using assms(1-3) by (auto simp: NewStore_def Let_def signed_less)
qed

theorem NewStore_is_ready_witness:
  "\<exists>s mgr'. NewStore sample_ring (\<lambda>_ _. Some ()) ''h'' (UnReal \<lparr>current = 0\<rparr>) (\<lambda>n. n) () [WithStatDEnabled True]
      sample_files None = Inr (s :: (unit, unit, unit) store, mgr') \<and>
    length (keyBucket s) = nat (sint (buckets (opts s))) \<and> store_ok s = (0 < sint (buckets (opts s)))"
proof -
  obtain s :: "(unit, unit, unit) store" and mgr' where
    s: "NewStore sample_ring (\<lambda>_ _. Some ()) ''h'' (UnReal \<lparr>current = 0\<rparr>) (\<lambda>n. n) () [WithStatDEnabled True]
      sample_files None = Inr (s, mgr')"
    using sample_NewStore [of "[WithStatDEnabled True]" "''h''", OF refl, where statsd_New = "\<lambda>_ _. Some ()" and extra = "\<lambda>n. n"
        and fs = sample_files and mgr = None]
    by (auto simp: WithStatDEnabled_def defaultOptions_def)
  show ?thesis using s NewStore_is_ready [OF s] by auto
qed

theorem zero_buckets_panic_witness:
  "\<exists>s mgr'. NewStore sample_ring (\<lambda>_ _. None) ''h'' (UnReal \<lparr>current = 0\<rparr>) (\<lambda>n. n) () [WithBucketSize 0]
      sample_files None = Inr (s :: (unit, unit, unit) store, mgr') \<and>
    Store_Incr sample_env ''k'' 1 10 60 False s (UnReal \<lparr>current = 5\<rparr>) (None :: unit event_manager option) =
      Inl IndexOutOfRange"
proof -
  obtain s :: "(unit, unit, unit) store" and mgr' where
    s: "NewStore sample_ring (\<lambda>_ _. None) ''h'' (UnReal \<lparr>current = 0\<rparr>) (\<lambda>n. n) () [WithBucketSize 0]
      sample_files None = Inr (s, mgr')"
    using sample_NewStore [of "[WithBucketSize 0]" "''h''", OF refl, where statsd_New = "\<lambda>_ _. None" and extra = "\<lambda>n. n"
        and fs = sample_files and mgr = None]
    by (auto simp: WithBucketSize_def defaultOptions_def)
  have "Store_Incr sample_env ''k'' 1 10 60 False s (UnReal \<lparr>current = 5\<rparr>) (None :: unit event_manager option) =
      Inl IndexOutOfRange"
    by (rule conjunct1 [OF zero_buckets_panic [OF s]]) (simp add: WithBucketSize_def)
  with s show ?thesis by blast
qed

lemma main_options_defaults:
  fixes opt :: "('tc, 'rp) Option list" and hostname :: string and realClock :: clock
  assumes "main_options cfg = Inr opt"
  defines "o' \<equiv> apply_options opt (defaultOptions hostname realClock)"
  shows "buckets o' = or_default 1000 (Buckets cfg)" and "syncBuffer o' = or_default 1000000 (SyncBuffer cfg)"
    and "clusterName o' = or_default ''golimit'' (ClusterName cfg)"
    and "tchannelport o' = or_default ''2479'' (TChannelPort cfg)"
    and "seed o' = or_default (hostname @ '':2479'') (Seed cfg)"
    and "nodeId o' = or_default [] (NodeId cfg)" and "hostAddr o' = ''0.0.0.0''"
    and "tchannel o' = None" and "ringpop o' = None"
  using assms(1)
  by (auto simp: main_options_def o'_def apply_configured_options WithTChannelPort_def defaultOptions_def
      split: option.splits)

text \<open>
  Whether the process of a configuration joins its cluster: a TChannel and a ring of the cluster's
  name can be made under the node's name, the port can be listened on, and the seeds answer.
\<close>

definition joins :: "('tc, 'rp) ring_calls \<Rightarrow> string \<Rightarrow> StoreConfig \<Rightarrow> bool" where
  "joins R hostname cfg =
     (let cluster = or_default ''golimit'' (ClusterName cfg);
          hostport = hostname @ '':'' @ or_default ''2479'' (TChannelPort cfg);
          name = (case NodeId cfg of Some n \<Rightarrow> if n = [] then hostport else n | None \<Rightarrow> hostport);
          seeds = or_default (hostname @ '':2479'') (Seed cfg)
      in case NewChannel R cluster of
           None \<Rightarrow> False
         | Some tc \<Rightarrow>
             (case ringpop_New R cluster tc name hostport of
                None \<Rightarrow> False
              | Some rp \<Rightarrow>
                  ListenAndServe R tc (''0.0.0.0'' @ '':'' @ or_default ''2479'' (TChannelPort cfg)) \<and>
                  Bootstrap R rp (if 1 < length (split_comma seeds) then 2 else 1) (split_comma seeds)))"

lemma joins_initRingPop:
  assumes "main_options cfg = Inr opt"
  shows "(case initRingPop R hostname (alloc_store (apply_options opt (defaultOptions hostname realClock))) of
      Inl _ \<Rightarrow> False | Inr _ \<Rightarrow> True) = joins R hostname cfg"
  unfolding initRingPop_def init_tchannel_def init_ring_def joins_def Let_def
  by (auto simp: alloc_store_def main_options_defaults [OF assms] split: option.splits)

text \<open>
  When the main program ends up running. With a readable configuration it does exactly if a
  host name is configured or the system has one, a TChannel port is configured when seeds are, the
  port or the socket to listen on is configured, the numbers of buckets and of buffered commands
  are not negative, and the cluster can be joined; in all other cases it panics.
\<close>

lemma main_runs_iff:
  fixes R :: "('tc, 'rp) ring_calls" and statsd_New :: "string \<Rightarrow> u32 \<Rightarrow> 'sd option"
  shows "(case main_start R statsd_New os_hostname hostname realClock extra self (Config cfg) fs of
      Inr (Some _) \<Rightarrow> True | _ \<Rightarrow> False) \<longleftrightarrow>
   (if (case HostName cfg of None \<Rightarrow> True | Some h \<Rightarrow> blank h) then os_hostname \<noteq> None else True) \<and>
   (if Seed cfg \<noteq> None then TChannelPort cfg \<noteq> None else True) \<and>
   (if UnixSocketEnable cfg = Some True then UnixSocket cfg \<noteq> None else HttpPort cfg \<noteq> None) \<and>
   0 \<le> sint (or_default 1000 (Buckets cfg)) \<and> 0 \<le> sint (or_default 1000000 (SyncBuffer cfg)) \<and>
   joins R hostname cfg"
proof -
  have same: "main_options (cfg\<lparr>HostName := h\<rparr>) = main_options cfg" for h
    by (simp add: main_options_def configured_options_def split: option.split)
  have opts: "(case main_options cfg of Inl _ \<Rightarrow> False | Inr (opt :: ('tc, 'rp) Option list) \<Rightarrow>
      (case NewStore R statsd_New hostname realClock extra self opt fs None of Inl _ \<Rightarrow> False | Inr _ \<Rightarrow> True)) \<longleftrightarrow>
    (if Seed cfg \<noteq> None then TChannelPort cfg \<noteq> None else True) \<and>
    0 \<le> sint (or_default 1000 (Buckets cfg)) \<and> 0 \<le> sint (or_default 1000000 (SyncBuffer cfg)) \<and>
    joins R hostname cfg"
  proof (cases "main_options cfg :: panic + ('tc, 'rp) Option list")
    case (Inl p)
    then show ?thesis by (auto simp: main_options_def split: option.splits)
  next
    case (Inr opt)
    then have "if Seed cfg \<noteq> None then TChannelPort cfg \<noteq> None else True"
      by (auto simp: main_options_def split: option.splits)
    moreover have "(case initRingPop R hostname (alloc_store (apply_options opt (defaultOptions hostname realClock)) ::
        ('tc, 'rp, 'sd) store) of Inl _ \<Rightarrow> False | Inr _ \<Rightarrow> True) = joins R hostname cfg"
      by (rule joins_initRingPop [OF Inr])
    ultimately show ?thesis
      by (auto simp: Inr NewStore_def Let_def signed_less main_options_defaults [OF Inr] split: sum.splits)
  qed
  show ?thesis
  proof (cases "main_hostname os_hostname cfg")
    case (Inl p)
    then show ?thesis
      by (auto simp: main_start_def main_hostname_def split: if_splits option.splits)
  next
    case (Inr cfg')
    then obtain h where h: "cfg' = cfg\<lparr>HostName := Some h\<rparr>"
      and host: "if (case HostName cfg of None \<Rightarrow> True | Some h \<Rightarrow> blank h) then os_hostname \<noteq> None else True"
      by (cases cfg) (auto simp: main_hostname_def split: if_splits option.splits)
    have "(case main_listener cfg' of Inl _ \<Rightarrow> False | Inr _ \<Rightarrow> True) =
        (if UnixSocketEnable cfg = Some True then UnixSocket cfg \<noteq> None else HttpPort cfg \<noteq> None)"
      by (simp add: h main_listener_def split: option.split)
    then show ?thesis
      using opts host
      by (auto simp: main_start_def Inr same [of "Some h", folded h] split: sum.splits)
  qed
qed

end
