(* ===== verification/StartOrder.thy ===== *)
theory StartOrder
  imports Startup Rpc
begin

text \<open>
  The order of \<open>NewStore\<close>: the node joins the ring, registers the handler of the remote methods, and
  only then loads its saved rate configurations and starts its workers. What other nodes send
  between the registration and the load meets a store that has no configurations yet.
\<close>

section \<open>Registration\<close>

text \<open>
  The interface of a TChannel server, and the server that wraps the store. \<open>register\<close> is what
  \<open>thrift.NewServer(tchannel).Register\<close> does with it.
\<close>

record ('w, 'p, 'e) TChanServer =
  ts_Service :: string
  ts_Methods :: "string list"
  ts_Handle :: "string \<Rightarrow> 'w \<Rightarrow> 'p \<Rightarrow> ('w, 'p, 'e) served option"

definition NewTChanStoreNodeServer ::
  "(string \<Rightarrow> 'e) \<Rightarrow> ('p, 'e) TProtocol \<Rightarrow> ('w, 'e) TChanStoreNode \<Rightarrow> ('w, 'p, 'e) TChanServer" where
  "NewTChanStoreNodeServer errorf P handler =
     \<lparr>ts_Service = server_Service, ts_Methods = server_Methods, ts_Handle = server_Handle errorf P handler\<rparr>"

definition registerClusterNode ::
  "(string \<Rightarrow> 'e) \<Rightarrow> ('p, 'e) TProtocol \<Rightarrow> env \<Rightarrow>
   (((('tc, 'rp, 'sd, 'h) node, 'p, 'e) TChanServer) \<Rightarrow> 'tc option \<Rightarrow> 'tc option) \<Rightarrow>
   ('tc, 'rp, 'sd) store \<Rightarrow> ('tc, 'rp, 'sd) store" where
  "registerClusterNode errorf P E register cs =
     cs\<lparr>store_tchannel := register (NewTChanStoreNodeServer errorf P (store_handler E)) (store_tchannel cs)\<rparr>"

section \<open>The two halves of NewStore\<close>

definition NewStore_joined ::
  "('tc, 'rp) ring_calls \<Rightarrow> string \<Rightarrow> clock \<Rightarrow> ('tc, 'rp) Option list \<Rightarrow> panic + ('tc, 'rp, 'sd) store" where
  "NewStore_joined R hostname realClock opt =
     (let o' = apply_options opt (defaultOptions hostname realClock)
      in if buckets o' <s 0 then Inl MakeSliceLen
         else if syncBuffer o' <s 0 then Inl (Panic ''makechan: size out of range'')
         else initRingPop R hostname (alloc_store o'))"

definition NewStore_loaded ::
  "(string \<Rightarrow> u32 \<Rightarrow> 'sd option) \<Rightarrow> (nat \<Rightarrow> nat) \<Rightarrow> 'h \<Rightarrow> files \<Rightarrow> 'h event_manager option \<Rightarrow>
   ('tc, 'rp, 'sd) store \<Rightarrow> ('tc, 'rp, 'sd) store \<times> 'h event_manager option" where
  "NewStore_loaded statsd_New extra self fs mgr s = enable_statistics statsd_New extra self (LoadRateConfig fs s) mgr"

text \<open>Without a request in between they are \<open>NewStore\<close>.\<close>

lemma NewStore_halves:
  "NewStore R statsd_New hostname realClock extra self opt fs mgr =
     (case NewStore_joined R hostname realClock opt of
        Inl p \<Rightarrow> Inl p
      | Inr s \<Rightarrow> Inr (NewStore_loaded statsd_New extra self fs mgr s))"
  by (simp add: NewStore_def NewStore_joined_def NewStore_loaded_def Let_def split: sum.split)

lemma NewStore_joined_empty:
  "NewStore_joined R hostname realClock opt = Inr s \<Longrightarrow> rateConfig s = Some Map.empty"
  by (auto simp: NewStore_joined_def Let_def dest!: initRingPop_frame(5) split: if_splits)

lemma NewStore_loaded_configs:
  "rateConfig (fst (NewStore_loaded statsd_New extra self fs mgr s)) =
     loaded fs (rateConfig s)"
proof -
  obtain s' mgr' where e: "enable_statistics statsd_New extra self (LoadRateConfig fs s) mgr = (s', mgr')" by fastforce
  then have "rateConfig (fst (NewStore_loaded statsd_New extra self fs mgr s)) = rateConfig (LoadRateConfig fs s)"
    using enable_statistics_frame(4) [OF e] by (simp only: NewStore_loaded_def fst_conv)
  then show ?thesis by (simp add: LoadRateConfig_frame)
qed

section \<open>Property\<close>

text \<open>
  C31: a configuration that arrives during the start erases the saved ones. \<open>SyncRateConfig\<close> saves all
  configurations the store has; between the registration and \<open>LoadRateConfig\<close> that is the new one
  alone. If the file that is written is the one that is loaded (with no \<open>configDir\<close>, say) it then holds
  nothing else, and so does the node after its start; without the early update it has all that
  were saved. With another \<open>configDir\<close> the old file is loaded over the newer configuration.
\<close>

theorem early_update_erases_saved_configs:
  assumes "NewStore_joined R hostname realClock opt = Inr s"
    and "ReadFile ''rateconfig.json'' fs = Some bytes" and "Unmarshal_rates bytes (Some Map.empty) = Some m"
    and "writable fs (rate_path s)" and "as_utf8 key = key"
  shows "case SyncRateConfig key threshold window peak s fs of
      Inl _ \<Rightarrow> False
    | Inr (s1, fs1) \<Rightarrow>
        rateConfig (fst (NewStore_loaded statsd_New extra self fs mgr s)) = Some m \<and>
        (if same_file fs (rate_path s) ''rateconfig.json''
         then rateConfig (fst (NewStore_loaded statsd_New extra self fs1 mgr s1)) =
             Some [key \<mapsto> Some \<lparr>Window = window, Limit = threshold, PeakAveraged = peak\<rparr>] \<and>
           loaded fs1 (Some Map.empty) = Some [key \<mapsto> Some \<lparr>Window = window, Limit = threshold, PeakAveraged = peak\<rparr>]
         else rateConfig (fst (NewStore_loaded statsd_New extra self fs1 mgr s1)) =
             Some ([key \<mapsto> Some \<lparr>Window = window, Limit = threshold, PeakAveraged = peak\<rparr>] ++ m))"
proof -
  let ?m = "[key \<mapsto> Some \<lparr>Window = window, Limit = threshold, PeakAveraged = peak\<rparr>]"
  note e = NewStore_joined_empty [OF assms(1)]
  let ?s1 = "s\<lparr>rateConfig := Some ?m\<rparr>"
  have r: "SyncRateConfig key threshold window peak s fs = Inr (?s1, SaveRateConfig ?s1 fs)"
    by (simp add: SyncRateConfig_def put_config_def e)
  have "storable ?m" using assms(5) by simp
  then have u: "Unmarshal_rates (Marshal_rates (sorted_keys (Some ?m)) (Some ?m)) (Some m0) = Some (m0 ++ ?m)" for m0
    by (rule Unmarshal_saved)
  have rd: "ReadFile ''rateconfig.json'' (SaveRateConfig ?s1 fs) =
      Some (if same_file fs (rate_path s) ''rateconfig.json'' then Marshal_rates (sorted_keys (Some ?m)) (Some ?m) else bytes)"
    using assms(2,4) by (simp add: SaveRateConfig_def ReadFile_WriteFile)
  show ?thesis
    unfolding r sum.case prod.case NewStore_loaded_configs e loaded_def rd
    using u Unmarshal_adds [OF assms(3), of ?m] by (simp add: assms(2,3))
qed

theorem early_update_erases_saved_configs_witness:
  "\<exists>s :: (unit, unit, unit) store. NewStore_joined sample_ring ''h'' (UnReal \<lparr>current = 0\<rparr>) [] = Inr s \<and>
     (case SyncRateConfig ''b'' 7 60 False s (WriteFile ''rateconfig.json''
          (Marshal_rates [''a''] (Some [''a'' \<mapsto> Some \<lparr>Window = 1, Limit = 5, PeakAveraged = True\<rparr>])) sample_files) of
        Inl _ \<Rightarrow> False
      | Inr (s1, fs1) \<Rightarrow>
          GetRateConfig ''a'' (fst (NewStore_loaded (\<lambda>_ _. None) (\<lambda>n. n) () fs1 None s1)) = None)"
proof -
  let ?o = "defaultOptions ''h'' (UnReal \<lparr>current = 0\<rparr>) :: (unit, unit) options"
  let ?m = "[''a'' \<mapsto> Some \<lparr>Window = 1, Limit = 5, PeakAveraged = True\<rparr>]"
  let ?fs = "WriteFile ''rateconfig.json'' (Marshal_rates [''a''] (Some ?m)) sample_files"
  obtain s :: "(unit, unit, unit) store" where i: "initRingPop sample_ring ''h'' (alloc_store ?o) = Inr s"
    using sample_ring_joins [of "alloc_store ?o" "''h''"] by (auto simp: alloc_store_def defaultOptions_def)
  have j: "NewStore_joined sample_ring ''h'' (UnReal \<lparr>current = 0\<rparr>) [] = Inr s"
    using i by (simp add: NewStore_joined_def apply_options_def defaultOptions_def signed_less)
  have p: "rate_path s = ''rateconfig.json''"
    using initRingPop_frame(1) [OF i] by (simp add: rate_path_def alloc_store_def defaultOptions_def)
  have k: "as_utf8 ''a'' = ''a''" "as_utf8 ''b'' = ''b''" by (simp_all add: as_utf8_ascii byte_def)
  have "storable ?m" using k by simp
  then have u: "Unmarshal_rates (Marshal_rates [''a''] (Some ?m)) (Some Map.empty) = Some ?m"
    using Unmarshal_saved [of ?m Map.empty] by (simp add: sorted_keys_def)
  have r: "ReadFile ''rateconfig.json'' ?fs = Some (Marshal_rates [''a''] (Some ?m))"
    by (simp add: ReadFile_WriteFile)
  have w: "writable ?fs (rate_path s)" by simp
  from early_update_erases_saved_configs [OF j r u w k(2), where window = 60 and threshold = 7
      and peak = False and statsd_New = "\<lambda>_ _. None" and extra = "\<lambda>n. n" and self = "()" and mgr = None] j
  show ?thesis by (auto simp: GetRateConfig_def p split: sum.splits)
qed

end
