(* ===== verification/Flags.thy ===== *)
theory Flags
  imports Startup
begin

text \<open>
  The command line of golimitV3.go: the package flag of the standard library as far as \<open>main\<close> uses it
  (two flags that take a text), the log level, and \<open>main\<close> from its arguments on.
\<close>

section \<open>The flags\<close>

record main_flags =
  configfileName :: string
  loglevel :: string

definition default_flags :: main_flags where
  "default_flags = \<lparr>configfileName = ''golimit8080.yml'', loglevel = ''info''\<rparr>"

text \<open>How \<open>flag.Parse\<close> fails; it prints the usage and ends the process.\<close>

datatype flag_error = BadFlagSyntax string | FlagNotDefined string | NeedsArgument string | ErrHelp

text \<open>
  One argument. A text that does not start with a minus, or is just one, ends the flags, as does \<open>--\<close>; a
  value can be attached to the name by the first equals sign.
\<close>

datatype argument = EndOfFlags | BadArgument | FlagArgument string "string option"

definition name_and_value :: "string \<Rightarrow> argument" where
  "name_and_value name =
     (if name = [] \<or> hd name = CHR ''-'' \<or> hd name = CHR ''='' then BadArgument
      else case dropWhile (\<lambda>c. c \<noteq> CHR ''='') name of
             [] \<Rightarrow> FlagArgument name None
           | _ # value \<Rightarrow> FlagArgument (takeWhile (\<lambda>c. c \<noteq> CHR ''='') name) (Some value))"

definition argument_of :: "string \<Rightarrow> argument" where
  "argument_of s =
     (if length s < 2 \<or> hd s \<noteq> CHR ''-'' then EndOfFlags
      else if s = ''--'' then EndOfFlags
      else name_and_value (if s ! 1 = CHR ''-'' then drop 2 s else drop 1 s))"

definition set_flag :: "string \<Rightarrow> (string \<Rightarrow> main_flags \<Rightarrow> main_flags) option" where
  "set_flag name =
     (if name = ''config'' then Some (\<lambda>v f. f\<lparr>configfileName := v\<rparr>)
      else if name = ''loglevel'' then Some (\<lambda>v f. f\<lparr>loglevel := v\<rparr>)
      else None)"

fun parse_flags :: "string list \<Rightarrow> main_flags \<Rightarrow> flag_error + main_flags" where
  "parse_flags [] f = Inr f"
| "parse_flags (s # args) f =
     (case argument_of s of
        EndOfFlags \<Rightarrow> Inr f
      | BadArgument \<Rightarrow> Inl (BadFlagSyntax s)
      | FlagArgument name value \<Rightarrow>
          (case set_flag name of
             None \<Rightarrow> Inl (if name = ''help'' \<or> name = ''h'' then ErrHelp else FlagNotDefined name)
           | Some assign \<Rightarrow>
               (case value of
                  Some v \<Rightarrow> parse_flags args (assign v f)
                | None \<Rightarrow>
                    (case args of
                       [] \<Rightarrow> Inl (NeedsArgument name)
                     | v # args \<Rightarrow> parse_flags args (assign v f)))))"

datatype level = DebugLevel | InfoLevel | ErrorLevel

definition log_level :: "string \<Rightarrow> level" where
  "log_level l = (if l = ''debug'' then DebugLevel else if l = ''info'' then InfoLevel
     else if l = ''error'' then ErrorLevel else InfoLevel)"

section \<open>The main program from its arguments\<close>

text \<open>\<open>configs\<close> is the file system, as the configuration that each name gives.\<close>

definition main_args ::
  "('tc, 'rp) ring_calls \<Rightarrow> (string \<Rightarrow> u32 \<Rightarrow> 'sd option) \<Rightarrow> string option \<Rightarrow> string \<Rightarrow> clock \<Rightarrow> (nat \<Rightarrow> nat) \<Rightarrow>
   'h \<Rightarrow> (string \<Rightarrow> config_file) \<Rightarrow> files \<Rightarrow> string list \<Rightarrow>
   flag_error + (level \<times> (panic + (('tc, 'rp, 'sd, 'h) node \<times> listener) option))" where
  "main_args R statsd_New os_hostname hostname realClock extra self configs fs args =
     (case parse_flags args default_flags of
        Inl e \<Rightarrow> Inl e
      | Inr f \<Rightarrow> Inr (log_level (loglevel f),
          main_start R statsd_New os_hostname hostname realClock extra self (configs (configfileName f)) fs))"

section \<open>What the arguments say\<close>

lemma argument_of_minus:
  assumes "name \<noteq> []" and "hd name \<noteq> CHR ''-''"
  shows "argument_of (CHR ''-'' # name) = name_and_value name"
    and "argument_of (CHR ''-'' # CHR ''-'' # name) = name_and_value name"
  using assms by (cases name; simp add: argument_of_def)+

lemma name_and_value_attached:
  assumes "name \<noteq> []" and "hd name \<noteq> CHR ''-''" and "CHR ''='' \<notin> set name"
  shows "name_and_value (name @ CHR ''='' # v) = FlagArgument name (Some v)"
    and "name_and_value name = FlagArgument name None"
proof -
  have n: "\<forall>c \<in> set name. c \<noteq> CHR ''=''" using assms(3) by blast
  have h: "hd name \<noteq> CHR ''=''" using assms(1) n hd_in_set by blast
  have d: "dropWhile (\<lambda>c. c \<noteq> CHR ''='') (name @ CHR ''='' # v) = CHR ''='' # v"
    and t: "takeWhile (\<lambda>c. c \<noteq> CHR ''='') (name @ CHR ''='' # v) = name"
    and e: "dropWhile (\<lambda>c. c \<noteq> CHR ''='') name = []"
    using n by (simp_all add: dropWhile_append2 takeWhile_append2)
  show "name_and_value (name @ CHR ''='' # v) = FlagArgument name (Some v)"
    and "name_and_value name = FlagArgument name None"
    using assms(1,2) h by (simp_all only: name_and_value_def d t e) (simp_all add: neq_Nil_conv)
qed

lemma set_flag_name:
  assumes "set_flag name = Some assign"
  shows "name \<noteq> []" and "hd name \<noteq> CHR ''-''" and "CHR ''='' \<notin> set name"
  using assms by (auto simp: set_flag_def split: if_splits)

text \<open>The four spellings of a flag are one.\<close>

lemma flag_spellings:
  assumes "set_flag name = Some assign"
  shows "parse_flags ((''-'' @ name @ ''='' @ v) # args) f = parse_flags args (assign v f)"
    and "parse_flags ((''--'' @ name @ ''='' @ v) # args) f = parse_flags args (assign v f)"
    and "parse_flags ((''-'' @ name) # v # args) f = parse_flags args (assign v f)"
    and "parse_flags ((''--'' @ name) # v # args) f = parse_flags args (assign v f)"
proof -
  note n = set_flag_name [OF assms]
  note a = name_and_value_attached [OF n]
  have "name @ CHR ''='' # v \<noteq> []" and "hd (name @ CHR ''='' # v) \<noteq> CHR ''-''"
    using n by simp_all
  note m = argument_of_minus [OF this] argument_of_minus [OF n(1,2)]
  show "parse_flags ((''-'' @ name @ ''='' @ v) # args) f = parse_flags args (assign v f)"
    and "parse_flags ((''--'' @ name @ ''='' @ v) # args) f = parse_flags args (assign v f)"
    and "parse_flags ((''-'' @ name) # v # args) f = parse_flags args (assign v f)"
    and "parse_flags ((''--'' @ name) # v # args) f = parse_flags args (assign v f)"
    by (simp_all add: m a assms)
qed

text \<open>
  The call of the README starts the process of the named configuration, with the log level \<open>info\<close>;
  so does every level but \<open>debug\<close> and \<open>error\<close>. A word before the flags makes them be ignored.
\<close>

lemma main_args_config:
  "main_args R statsd_New os_hostname hostname realClock extra self configs fs [''--config='' @ c] =
     Inr (InfoLevel, main_start R statsd_New os_hostname hostname realClock extra self (configs c) fs)"
  using flag_spellings(2) [where name = "''config''" and v = c and args = "[]" and f = default_flags]
  by (simp add: main_args_def set_flag_def default_flags_def log_level_def)

lemma main_args_ignored:
  assumes "hd w \<noteq> CHR ''-''"
  shows "main_args R statsd_New os_hostname hostname realClock extra self configs fs (w # args) =
     main_args R statsd_New os_hostname hostname realClock extra self configs fs []"
  using assms by (simp add: main_args_def argument_of_def)

lemma log_level_default: "log_level l = InfoLevel \<longleftrightarrow> l \<noteq> ''debug'' \<and> l \<noteq> ''error''"
  by (simp add: log_level_def)

section \<open>Property\<close>

text \<open>
  C32: when the main program ends up running, from its arguments on. It does exactly if the flags are
  well-formed and known, the file they name (by default \<open>golimit8080.yml\<close>) can be read and is a
  configuration, a host name is configured or the system has one, a TChannel port is configured
  when seeds are, the port or the socket to listen on is configured, the numbers of buckets and of
  buffered commands are not negative, and the cluster can be joined.
\<close>

theorem main_runs_iff_arguments:
  fixes R :: "('tc, 'rp) ring_calls" and statsd_New :: "string \<Rightarrow> u32 \<Rightarrow> 'sd option"
  shows "(case main_args R statsd_New os_hostname hostname realClock extra self configs fs args of
      Inr (_, Inr (Some _)) \<Rightarrow> True | _ \<Rightarrow> False) \<longleftrightarrow>
   (case parse_flags args default_flags of
      Inl _ \<Rightarrow> False
    | Inr f \<Rightarrow>
        (case configs (configfileName f) of
           Unreadable \<Rightarrow> False
         | NotYaml \<Rightarrow> False
         | Config cfg \<Rightarrow>
             (if (case HostName cfg of None \<Rightarrow> True | Some h \<Rightarrow> blank h) then os_hostname \<noteq> None else True) \<and>
             (if Seed cfg \<noteq> None then TChannelPort cfg \<noteq> None else True) \<and>
             (if UnixSocketEnable cfg = Some True then UnixSocket cfg \<noteq> None else HttpPort cfg \<noteq> None) \<and>
             0 \<le> sint (or_default 1000 (Buckets cfg)) \<and> 0 \<le> sint (or_default 1000000 (SyncBuffer cfg)) \<and>
             joins R hostname cfg))"
proof (cases "parse_flags args default_flags")
  case (Inr f)
  show ?thesis
  proof (cases "configs (configfileName f)")
    case (Config cfg)
    show ?thesis
      using main_runs_iff [of R statsd_New os_hostname hostname realClock extra self cfg fs]
      by (simp add: main_args_def Inr Config)
  qed (simp_all add: main_args_def Inr main_start_def)
qed (simp add: main_args_def)

end
