(* ===== verification/Accessors.thy ===== *)
theory Accessors
  imports Codec Strconv
begin

text \<open>
  The getters and the \<open>String\<close> methods of the generated structs (gen-go/com/store.go). Both have pointer
  receivers: a getter of nil panics, \<open>String\<close> of nil is the text \<open><nil>\<close>. The texts are those of
  \<open>fmt.Sprintf\<close> with \<open>%+v\<close>: fields with their names, elements that have a \<open>String\<close> method by it, and other
  pointers as addresses, which are a parameter.
\<close>

section \<open>Getters\<close>

definition of_receiver :: "('a \<Rightarrow> 'b) \<Rightarrow> 'a option \<Rightarrow> panic + 'b" where
  "of_receiver f p = (case p of None \<Rightarrow> Inl NilDereference | Some x \<Rightarrow> Inr (f x))"

definition SyncCommand_GetKey :: "SyncCommand option \<Rightarrow> panic + string" where
  "SyncCommand_GetKey = of_receiver sc_Key"

definition SyncCommand_GetCount :: "SyncCommand option \<Rightarrow> panic + i32" where
  "SyncCommand_GetCount = of_receiver sc_Count"

definition SyncCommand_GetExpiry :: "SyncCommand option \<Rightarrow> panic + i64" where
  "SyncCommand_GetExpiry = of_receiver sc_Expiry"

definition SyncCommand_GetForce :: "SyncCommand option \<Rightarrow> panic + bool" where
  "SyncCommand_GetForce = of_receiver sc_Force"

definition SyncRateConfigArgs_GetKey :: "SyncRateConfigArgs option \<Rightarrow> panic + string" where
  "SyncRateConfigArgs_GetKey = of_receiver arg_Key"

definition SyncRateConfigArgs_GetThreshold :: "SyncRateConfigArgs option \<Rightarrow> panic + i32" where
  "SyncRateConfigArgs_GetThreshold = of_receiver arg_Threshold"

definition SyncRateConfigArgs_GetWindow :: "SyncRateConfigArgs option \<Rightarrow> panic + i32" where
  "SyncRateConfigArgs_GetWindow = of_receiver arg_Window"

definition SyncRateConfigArgs_GetPeakaveraged :: "SyncRateConfigArgs option \<Rightarrow> panic + bool" where
  "SyncRateConfigArgs_GetPeakaveraged = of_receiver arg_Peakaveraged"

definition IncrActionArgs_GetKey :: "IncrActionArgs option \<Rightarrow> panic + string" where
  "IncrActionArgs_GetKey = of_receiver inc_Key"

definition IncrActionArgs_GetCount :: "IncrActionArgs option \<Rightarrow> panic + i32" where
  "IncrActionArgs_GetCount = of_receiver inc_Count"

definition IncrActionArgs_GetThreshold :: "IncrActionArgs option \<Rightarrow> panic + i32" where
  "IncrActionArgs_GetThreshold = of_receiver inc_Threshold"

definition IncrActionArgs_GetWindow :: "IncrActionArgs option \<Rightarrow> panic + i32" where
  "IncrActionArgs_GetWindow = of_receiver inc_Window"

definition IncrActionArgs_GetPeakaveraged :: "IncrActionArgs option \<Rightarrow> panic + bool" where
  "IncrActionArgs_GetPeakaveraged = of_receiver inc_Peakaveraged"

definition RateLimitGlobalActionArgs_GetKey :: "RateLimitGlobalActionArgs option \<Rightarrow> panic + string" where
  "RateLimitGlobalActionArgs_GetKey = of_receiver glob_Key"

definition RateLimitGlobalActionArgs_GetCount :: "RateLimitGlobalActionArgs option \<Rightarrow> panic + i32" where
  "RateLimitGlobalActionArgs_GetCount = of_receiver glob_Count"

definition SyncKeysArgs_GetSyncs :: "SyncKeysArgs option \<Rightarrow> panic + SyncCommand option list" where
  "SyncKeysArgs_GetSyncs = of_receiver Syncs"

section \<open>Texts\<close>

fun join :: "string \<Rightarrow> string list \<Rightarrow> string" where
  "join sep [] = []"
| "join sep [x] = x"
| "join sep (x # y # zs) = x @ sep @ join sep (y # zs)"

definition show_i32 :: "i32 \<Rightarrow> string" where
  "show_i32 n = Itoa (scast n)"

definition show_bool :: "bool \<Rightarrow> string" where
  "show_bool b = (if b then ''true'' else ''false'')"

text \<open>A struct with its field names, as the argument of a text that starts with its type's name.\<close>

definition plus_v :: "string \<Rightarrow> (string \<times> string) list \<Rightarrow> string" where
  "plus_v name fs = name @ ''({'' @ join '' '' (map (\<lambda>(f, v). f @ '':'' @ v) fs) @ ''})''"

definition of_pointer :: "('a \<Rightarrow> string) \<Rightarrow> 'a option \<Rightarrow> string" where
  "of_pointer show_struct p = (case p of None \<Rightarrow> ''<nil>'' | Some x \<Rightarrow> show_struct x)"

definition SyncCommand_String :: "SyncCommand option \<Rightarrow> string" where
  "SyncCommand_String = of_pointer (\<lambda>x. plus_v ''SyncCommand''
     [(''Key'', sc_Key x), (''Count'', show_i32 (sc_Count x)), (''Expiry'', Itoa (sc_Expiry x)), (''Force'', show_bool (sc_Force x))])"

definition SyncRateConfigArgs_String :: "SyncRateConfigArgs option \<Rightarrow> string" where
  "SyncRateConfigArgs_String = of_pointer (\<lambda>x. plus_v ''StoreNodeSyncRateConfigArgs''
     [(''Key'', arg_Key x), (''Threshold'', show_i32 (arg_Threshold x)), (''Window'', show_i32 (arg_Window x)), (''Peakaveraged'', show_bool (arg_Peakaveraged x))])"

definition IncrActionArgs_String :: "IncrActionArgs option \<Rightarrow> string" where
  "IncrActionArgs_String = of_pointer (\<lambda>x. plus_v ''StoreNodeIncrActionArgs''
     [(''Key'', inc_Key x), (''Count'', show_i32 (inc_Count x)), (''Threshold'', show_i32 (inc_Threshold x)), (''Window'', show_i32 (inc_Window x)), (''Peakaveraged'', show_bool (inc_Peakaveraged x))])"

definition RateLimitGlobalActionArgs_String :: "RateLimitGlobalActionArgs option \<Rightarrow> string" where
  "RateLimitGlobalActionArgs_String = of_pointer (\<lambda>x. plus_v ''StoreNodeRateLimitGlobalActionArgs''
     [(''Key'', glob_Key x), (''Count'', show_i32 (glob_Count x))])"

definition SyncKeysArgs_String :: "SyncKeysArgs option \<Rightarrow> string" where
  "SyncKeysArgs_String = of_pointer (\<lambda>x. plus_v ''StoreNodeSyncKeysArgs''
     [(''Syncs'', ''['' @ join '' '' (map SyncCommand_String (Syncs x)) @ '']'')])"

definition SyncKeysResult_String :: "SyncKeysResult option \<Rightarrow> string" where
  "SyncKeysResult_String = of_pointer (\<lambda>_. plus_v ''StoreNodeSyncKeysResult'' [])"

definition SyncRateConfigResult_String :: "SyncRateConfigResult option \<Rightarrow> string" where
  "SyncRateConfigResult_String = of_pointer (\<lambda>_. plus_v ''StoreNodeSyncRateConfigResult'' [])"

text \<open>The optional results are pointers: a present one is shown as its address \<open>addr\<close>.\<close>

definition IncrActionResult_String :: "string \<Rightarrow> IncrActionResult option \<Rightarrow> string" where
  "IncrActionResult_String addr = of_pointer (\<lambda>x. plus_v ''StoreNodeIncrActionResult''
     [(''Success'', of_pointer (\<lambda>_. addr) (inc_Success x))])"

definition RateLimitGlobalActionResult_String :: "string \<Rightarrow> RateLimitGlobalActionResult option \<Rightarrow> string" where
  "RateLimitGlobalActionResult_String addr = of_pointer (\<lambda>x. plus_v ''StoreNodeRateLimitGlobalActionResult''
     [(''Success'', of_pointer (\<lambda>_. addr) (glob_Success x))])"

text \<open>
  A text of a batch: two commands, the second a nil pointer.
\<close>

lemma SyncKeysArgs_String_sample:
  "SyncKeysArgs_String (Some \<lparr>Syncs = [Some \<lparr>sc_Key = ''k'', sc_Count = 2, sc_Expiry = 7, sc_Force = True\<rparr>, None]\<rparr>) =
   ''StoreNodeSyncKeysArgs({Syncs:[SyncCommand({Key:k Count:2 Expiry:7 Force:true}) <nil>]})''"
proof -
  have "Itoa 2 = ''2''" "Itoa 7 = ''7''" by code_simp+
  then show ?thesis
    by (simp add: SyncKeysArgs_String_def SyncCommand_String_def of_pointer_def plus_v_def show_i32_def show_bool_def)
qed

end
