(* ===== verification/Process.thy ===== *)
theory Process
  imports HttpServer Rpc Startup
begin

text \<open>
  The running process: what HTTP requests, requests of other nodes, the collector, the
  synchroniser and the passing of time do to a node, one after the other in any order, and what holds of it from the
  moment the main program has started it.
\<close>

section \<open>What keeps its shape\<close>

text \<open>The parts of a store that limiter calls, batches and collections do not change.\<close>

definition shell where
  "shell s = (opts s, length (keyBucket s), bucketMask s, store_tchannel s, store_ringpop s, store_nodeId s,
     store_statsd s, rateConfig s)"

definition in_capacity :: "('tc, 'rp, 'sd) store \<Rightarrow> bool" where
  "in_capacity s \<longleftrightarrow> length (syncChannel s) \<le> unat (syncBuffer (opts s))"

text \<open>
  A well-formed node: its buckets are those its options ask for, and there is one for every hash;
  the channel of the synchroniser is within its capacity; the node is in the ring under a name;
  and it has a statsd client if its statistics are on. If it is \<open>clean\<close> it has no nil among its rate
  configurations, which only a \<open>null\<close> in their file can put there.
\<close>

definition no_nil :: "rate_map \<Rightarrow> bool" where
  "no_nil m \<longleftrightarrow> (case m of None \<Rightarrow> False | Some m \<Rightarrow> None \<notin> ran m)"

lemma no_nil_put [simp]: "no_nil (Some m) \<Longrightarrow> no_nil (Some (m(k \<mapsto> Some rc)))"
  by (auto simp: no_nil_def ran_def)

lemma no_nil_Some: "no_nil m \<Longrightarrow> \<exists>m'. m = Some m'"
  by (cases m) (simp_all add: no_nil_def)

definition node_ok :: "bool \<Rightarrow> ('tc, 'rp, 'sd, 'h) node \<Rightarrow> bool" where
  "node_ok clean nd \<longleftrightarrow>
     store_ok (node_store nd) \<and>
     length (keyBucket (node_store nd)) = nat (sint (buckets (opts (node_store nd)))) \<and>
     in_capacity (node_store nd) \<and>
     store_tchannel (node_store nd) \<noteq> None \<and> store_ringpop (node_store nd) \<noteq> None \<and>
     store_nodeId (node_store nd) \<noteq> [] \<and>
     (statsDEnabled (opts (node_store nd)) \<longrightarrow> store_statsd (node_store nd) \<noteq> None) \<and>
     (clean \<longrightarrow> no_nil (rateConfig (node_store nd)))"

lemma store_ok_shell: "shell s' = shell s \<Longrightarrow> store_ok s \<Longrightarrow> store_ok s'"
  by (auto simp: shell_def store_ok_def)

lemma node_ok_shell:
  "shell (node_store nd') = shell (node_store nd) \<Longrightarrow> in_capacity (node_store nd') \<Longrightarrow> node_ok clean nd \<Longrightarrow> node_ok clean nd'"
  using store_ok_shell [of "node_store nd'" "node_store nd"]
  by (simp add: node_ok_def) (simp add: shell_def)

lemma shell_updates [simp]:
  "shell (s\<lparr>syncChannel := q\<rparr>) = shell s"
  "length bs = length (keyBucket s) \<Longrightarrow> shell (s\<lparr>keyBucket := bs\<rparr>) = shell s"
  by (simp_all add: shell_def)

lemma in_capacity_updates [simp]:
  "in_capacity (s\<lparr>rateConfig := m\<rparr>) = in_capacity s" "in_capacity (s\<lparr>keyBucket := bs\<rparr>) = in_capacity s"
  by (simp_all add: in_capacity_def)

lemma bucket_at_shell [simp]:
  "shell (fst (snd (bucket_Incr_at E k n l w s c))) = shell s"
  "shell (fst (bucket_Sync_at E k n y s c)) = shell s"
  "in_capacity (fst (snd (bucket_Incr_at E k n l w s c))) = in_capacity s"
  "in_capacity (fst (bucket_Sync_at E k n y s c)) = in_capacity s"
  by (simp_all add: bucket_Incr_at_def bucket_Sync_at_def Let_def split: prod.splits)

lemma gc_buckets_length: "length (fst (gc_buckets g ord bs c)) = length bs"
  by (induction bs arbitrary: c) (simp_all add: Let_def split_beta)

lemma gc_pass_shell [simp]:
  "shell (fst (gc_pass ord s c)) = shell s" "in_capacity (fst (gc_pass ord s c)) = in_capacity s"
  by (simp_all add: gc_pass_def split_beta gc_buckets_length)

lemma SyncKeys_shell:
  "SyncKeys E syncs s c = Inr (s', c') \<Longrightarrow> shell s' = shell s \<and> in_capacity s' = in_capacity s"
proof (induction syncs arbitrary: s c)
  case (Cons sync syncs)
  then show ?case
    by (auto simp: Let_def split_beta dest!: Cons.IH split: sum.splits)
qed simp

text \<open>A limiter call: it does not panic, and the node it leaves is well-formed.\<close>

lemma Store_Incr_keeps:
  assumes "store_ok s" and "in_capacity s"
  shows "\<exists>rep s' c' mgr'. Store_Incr E key cnt threshold window peak s c mgr = Inr (rep, s', c', mgr') \<and>
    shell s' = shell s \<and> in_capacity s'"
proof -
  obtain l w where eff: "effective E threshold window peak = (l, w)" by fastforce
  show ?thesis
    using assms(2) Store_Incr_cases [OF assms(1) eff, of key cnt c mgr]
    by (auto simp: Incr_finish_eq in_capacity_def bucket_at_frame)
qed

lemma RateLimitGlobal_keeps:
  assumes "store_ok s" and "in_capacity s"
  shows "\<exists>rep s' c' mgr'. RateLimitGlobal E key cnt s c mgr = Inr (rep, s', c', mgr') \<and>
    shell s' = shell s \<and> in_capacity s'"
  using assms Store_Incr_keeps [OF assms]
  by (cases "GetRateConfig key s") (simp_all add: RateLimitGlobal_def)

text \<open>What an answer may be: well-formed nodes, and crashes only where \<open>crash\<close> admits them.\<close>

definition answer_ok :: "bool \<Rightarrow> (panic \<Rightarrow> bool) \<Rightarrow> ('r, ('tc, 'rp, 'sd, 'h) node) answer \<Rightarrow> bool" where
  "answer_ok clean crash a =
     (case a of Answer _ nd \<Rightarrow> node_ok clean nd | Waits nd \<Rightarrow> node_ok clean nd | Crashes c \<Rightarrow> crash c)"

lemma answer_ok_map [simp]: "answer_ok clean crash (map_answer f a) = answer_ok clean crash a"
  by (cases a) (simp_all add: answer_ok_def map_answer_def)

lemma limiter_answer_ok:
  assumes "node_ok clean nd"
    and "\<exists>rep s c mgr. r = Inr (rep, s, c, mgr) \<and> shell s = shell (node_store nd) \<and> in_capacity s"
  shows "answer_ok clean crash (limiter_answer r nd)"
proof -
  obtain rep s c mgr where r: "r = Inr (rep, s, c, mgr)" "shell s = shell (node_store nd)" "in_capacity s"
    using assms(2) by blast
  have "node_ok clean (nd\<lparr>node_store := s, node_clock := c, node_mgr := mgr\<rparr>)"
    by (rule node_ok_shell [OF _ _ assms(1)]) (simp_all add: r)
  then show ?thesis
    by (simp add: r answer_ok_def limiter_answer_def Let_def split: reply.split)
qed

lemma HandleEvent_no_nil:
  "no_nil (rateConfig s) \<Longrightarrow> case HandleEvent ks ev s of Inl _ \<Rightarrow> False | Inr _ \<Rightarrow> True"
proof -
  assume "no_nil (rateConfig s)"
  then obtain m where m: "rateConfig s = Some m" and n: "None \<notin> ran m" using no_nil_Some by (force simp: no_nil_def)
  have "p \<noteq> None" if "(n, k, p) \<in> set (configs_to_send ks added s)" for n k p added
  proof -
    have "m k = Some p" using that by (auto simp: configs_to_send_def m split: option.splits if_splits)
    then show ?thesis using n by (metis ranI)
  qed
  then have "list_all (\<lambda>(_, _, p). p \<noteq> None) (configs_to_send ks added s)" for added
    unfolding list_all_iff by blast
  then show ?thesis by (simp add: HandleEvent_def split: ring_event.split)
qed

lemma node_okD:
  assumes "node_ok clean nd" shows "store_ok (node_store nd)" and "in_capacity (node_store nd)"
  using assms by (simp_all add: node_ok_def)

lemma limiter_calls_ok:
  assumes "node_ok clean nd"
  shows "answer_ok clean crash (limiter_answer (Store_Incr E key cnt threshold window peak (node_store nd) c mgr) nd)"
    and "answer_ok clean crash (limiter_answer (RateLimitGlobal E key cnt (node_store nd) c mgr) nd)"
  by (rule limiter_answer_ok [OF assms], rule Store_Incr_keeps [OF node_okD [OF assms]])
    (rule limiter_answer_ok [OF assms], rule RateLimitGlobal_keeps [OF node_okD [OF assms]])

section \<open>HTTP requests\<close>

lemma replies_ok: "node_ok clean nd \<Longrightarrow> answer_ok clean crash (replies r nd)"
  by (simp add: answer_ok_def replies_def)

lemma node_ok_put:
  assumes "node_ok clean nd" and "rateConfig (node_store nd) = Some m"
  shows "node_ok clean (nd\<lparr>node_store := (node_store nd)\<lparr>rateConfig := Some (m(k \<mapsto> Some rc))\<rparr>, node_files := fs\<rparr>)"
  using assms by (simp add: node_ok_def store_ok_def)

lemma node_ok_map: "node_ok True nd \<Longrightarrow> \<exists>m. rateConfig (node_store nd) = Some m"
  using no_nil_Some by (auto simp: node_ok_def)

lemma put_rate_ok:
  assumes "node_ok clean nd" and "\<And>p. \<not> clean \<Longrightarrow> crash p"
  shows "answer_ok clean crash (put_rate r nd)"
proof (cases "rateConfig (node_store nd)")
  case None
  then have "\<not> clean" using node_ok_map [of nd] assms(1) by (cases clean) auto
  then show ?thesis
    using replies_ok [OF assms(1)] assms(2) None
    by (simp add: put_rate_def SetRateConfig_def put_config_def Let_def) (simp add: answer_ok_def)
next
  case (Some m)
  then show ?thesis
    using replies_ok [OF assms(1)] node_ok_put [OF assms(1) Some]
    by (simp add: put_rate_def SetRateConfig_eq [OF Some] Let_def) (simp add: answer_ok_def)
qed

text \<open>
  The routes that can end in a panic: the profiling routes, if their file cannot be created, and the one
  that writes to the map, if it can be nil.
\<close>

definition may_panic :: "bool \<Rightarrow> bool \<Rightarrow> string \<Rightarrow> bool" where
  "may_panic clean ok path \<longleftrightarrow>
     \<not> ok \<and> path \<in> {''/profilecpuenable'', ''/memprofile''} \<or> \<not> clean \<and> path = ''/rate''"

lemma http_ok:
  assumes "node_ok clean nd"
  shows "list_all (\<lambda>(meth, path, ep).
      answer_ok clean (\<lambda>_. may_panic clean ok path) (ep r nd))
    (registerHttpHandlers E rv ok)"
  using assms
  by (simp add: registerHttpHandlers_def get_ping_def post_incr_def post_ratelimit_def get_rateall_def
      get_rate_def get_clusterinfo_def get_profilecpuenable_def get_profilecpudisable_def get_memprofile_def
      Let_def replies_ok put_rate_ok may_panic_def limiter_calls_ok split: option.split)
    (simp add: answer_ok_def)

section \<open>Requests of other nodes\<close>

definition served_ok :: "bool \<Rightarrow> string \<Rightarrow> (('tc, 'rp, 'sd, 'h) node, 'p, 'e) served option \<Rightarrow> bool" where
  "served_ok clean methodName r =
     (case r of
        None \<Rightarrow> True
      | Some (Served _ _ _ nd _) \<Rightarrow> node_ok clean nd
      | Some (ServerWaits nd) \<Rightarrow> node_ok clean nd
      | Some (ServerCrashes c) \<Rightarrow> c = MakeSliceLen \<or> \<not> clean \<and> methodName = ''SyncRateConfig'')"

lemma handle_request_ok:
  assumes nd: "node_ok clean nd" and rd: "keeps I OK decode" and I: "I fresh"
    and OK: "\<And>c. OK (Some (Crash c)) \<Longrightarrow> c = MakeSliceLen"
    and act: "\<And>req. I req \<Longrightarrow> answer_ok clean (\<lambda>_. \<not> clean \<and> methodName = ''SyncRateConfig'') (action req nd)"
  shows "served_ok clean methodName (handle_request decode fresh action res nd p)"
proof (cases "decode fresh p")
  case None
  then show ?thesis by (simp add: handle_request_def served_ok_def)
next
  case (Some fsp)
  then obtain f req p' where d: "decode fresh p = Some (f, req, p')" by (metis prod_cases3)
  have k: "I req" "OK f" using keepsD [OF rd I d] by simp_all
  show ?thesis
    using act [OF k(1)] k(2) OK nd
    by (auto simp: handle_request_def d served_ok_def answer_ok_def
        split: option.splits failure.splits answer.splits sum.splits)
qed

lemma node_SyncKeys_ok:
  assumes "node_ok clean nd" and "list_all (\<lambda>c. c \<noteq> None) syncs"
  shows "answer_ok clean crash (node_SyncKeys E syncs nd)"
proof -
  have "syncs = map Some (map the syncs)" using assms(2) by (induction syncs) auto
  then obtain cs where cs: "syncs = map Some cs" by blast
  obtain s c where s: "SyncKeys E cs (node_store nd) (node_clock nd) = Inr (s, c)"
    using SyncKeys_ok [OF node_okD(1) [OF assms(1)]] by blast
  have "node_ok clean (nd\<lparr>node_store := s, node_clock := c\<rparr>)"
    by (rule node_ok_shell [OF _ _ assms(1)]) (use SyncKeys_shell [OF s] node_okD [OF assms(1)] in simp_all)
  then show ?thesis by (simp add: cs node_SyncKeys_Some s answer_ok_def)
qed

lemma node_SyncRateConfig_ok:
  assumes "node_ok clean nd"
  shows "answer_ok clean (\<lambda>_. \<not> clean) (node_SyncRateConfig key threshold window peak nd)"
proof (cases "rateConfig (node_store nd)")
  case None
  then have "\<not> clean" using node_ok_map [of nd] assms by (cases clean) auto
  then show ?thesis
    by (simp add: node_SyncRateConfig_def SyncRateConfig_def put_config_def None answer_ok_def)
next
  case (Some m)
  then show ?thesis
    using node_ok_put [OF assms Some]
    by (simp add: node_SyncRateConfig_def SyncRateConfig_def put_config_def answer_ok_def)
qed

lemma server_ok:
  assumes "node_ok clean nd"
  shows "served_ok clean methodName (server_Handle errorf P (store_handler E) methodName nd p)"
proof -
  have nc: "no_crash (Some (Crash c)) \<Longrightarrow> c = MakeSliceLen" "crash_of_make (Some (Crash c)) \<Longrightarrow> c = MakeSliceLen" for c
    by (simp_all add: no_crash_def crash_of_make_def)
  have "served_ok clean ''IncrAction'' (handleIncrAction P (store_handler E) nd p)"
    unfolding handleIncrAction_def
    by (rule handle_request_ok [OF assms scalar_reads_keep(3) _ nc(1)])
      (simp_all add: store_handler_def IncrAction_def limiter_calls_ok [OF assms])
  moreover have "served_ok clean ''RateLimitGlobalAction'' (handleRateLimitGlobalAction P (store_handler E) nd p)"
    unfolding handleRateLimitGlobalAction_def
    by (rule handle_request_ok [OF assms scalar_reads_keep(4) _ nc(1)])
      (simp_all add: store_handler_def RateLimitGlobalAction_def limiter_calls_ok [OF assms])
  moreover have "served_ok clean ''SyncKeys'' (handleSyncKeys P (store_handler E) nd p)"
    unfolding handleSyncKeys_def
    by (rule handle_request_ok [OF assms SyncKeysArgs_Read_keeps _ nc(2)])
      (simp_all add: store_handler_def commands_present_def NewSyncKeysArgs_def node_SyncKeys_ok [OF assms])
  moreover have "served_ok clean ''SyncRateConfig'' (handleSyncRateConfig P (store_handler E) nd p)"
    unfolding handleSyncRateConfig_def
    by (rule handle_request_ok [OF assms scalar_reads_keep(2) _ nc(1)])
      (simp_all add: store_handler_def node_SyncRateConfig_ok [OF assms])
  ultimately show ?thesis
    by (simp add: server_Handle_def) (simp add: served_ok_def assms)
qed

section \<open>The running process\<close>

text \<open>
  What happens to a running node: an HTTP request that is answered or that waits for the
  synchroniser, a request of another node likewise, a waiting call that goes on once there is room, or
  whose command an unbuffered channel hands over,
  the synchroniser taking a command off its channel, a pass of the collector, a loaded
  configuration of another process (the file changes), and time. \<open>P\<close> is the protocol the requests of
  other nodes are read from, with whatever they sent. The requests are handled one after the other;
  what the steps of two can do to each other is in \<open>BucketConc\<close> and \<open>RateConc\<close>.
\<close>

inductive node_step ::
  "env \<Rightarrow> (string \<Rightarrow> 'e) \<Rightarrow> ('p, 'e) TProtocol \<Rightarrow> ('tc, 'rp, 'sd, 'h) node \<Rightarrow> ('tc, 'rp, 'sd, 'h) node \<Rightarrow> bool"
  for E errorf P where
  http_answered: "(meth, path, ep) \<in> set (registerHttpHandlers E rv ok) \<Longrightarrow> ep r nd = Answer x nd' \<Longrightarrow>
    node_step E errorf P nd nd'"
| http_waits: "(meth, path, ep) \<in> set (registerHttpHandlers E rv ok) \<Longrightarrow> ep r nd = Waits nd' \<Longrightarrow>
    node_step E errorf P nd nd'"
| rpc_served: "server_Handle errorf P (store_handler E) methodName nd p = Some (Served b w e nd' p') \<Longrightarrow>
    node_step E errorf P nd nd'"
| rpc_waits: "server_Handle errorf P (store_handler E) methodName nd p = Some (ServerWaits nd') \<Longrightarrow>
    node_step E errorf P nd nd'"
| call_goes_on: "chan_send (unat (syncBuffer (opts (node_store nd)))) (syncChannel (node_store nd)) cmd = Some q \<Longrightarrow>
    Incr_finish E key cnt blocked ((node_store nd)\<lparr>syncChannel := q\<rparr>) (node_clock nd) (node_mgr nd) =
      (rep, s, c, mgr) \<Longrightarrow>
    node_step E errorf P nd (nd\<lparr>node_store := s, node_clock := c, node_mgr := mgr\<rparr>)"
| call_handed_over: "syncBuffer (opts (node_store nd)) = 0 \<Longrightarrow>
    Incr_finish E key cnt blocked (node_store nd) (node_clock nd) (node_mgr nd) = (rep, s, c, mgr) \<Longrightarrow>
    node_step E errorf P nd (nd\<lparr>node_store := s, node_clock := c, node_mgr := mgr\<rparr>)"
| worker_receives: "chan_recv (syncChannel (node_store nd)) = Some (cmd, q) \<Longrightarrow>
    node_step E errorf P nd (nd\<lparr>node_store := (node_store nd)\<lparr>syncChannel := q\<rparr>\<rparr>)"
| collector: "gc_pass ord (node_store nd) (node_clock nd) = (s, c) \<Longrightarrow>
    node_step E errorf P nd (nd\<lparr>node_store := s, node_clock := c\<rparr>)"
| time_passes: "node_step E errorf P nd (nd\<lparr>node_clock := c\<rparr>)"
| others_act: "node_step E errorf P nd (nd\<lparr>node_files := fs, node_mgr := mgr\<rparr>)"

lemma node_step_ok:
  assumes "node_step E errorf P nd nd'" and ok: "node_ok clean nd"
  shows "node_ok clean nd'"
  using assms(1)
proof cases
  case (http_answered meth path ep rv ok' r x)
  then show ?thesis
    using http_ok [OF ok, of ok' r E rv] by (auto simp: list_all_iff answer_ok_def)
next
  case (http_waits meth path ep rv ok' r)
  then show ?thesis
    using http_ok [OF ok, of ok' r E rv] by (auto simp: list_all_iff answer_ok_def)
next
  case (rpc_served methodName p b w e p')
  then show ?thesis using server_ok [OF ok, where errorf = errorf and P = P and E = E and methodName = methodName and p = p] by (simp add: served_ok_def)
next
  case (rpc_waits methodName p)
  then show ?thesis using server_ok [OF ok, where errorf = errorf and P = P and E = E and methodName = methodName and p = p] by (simp add: served_ok_def)
next
  case (call_goes_on cmd q key cnt blocked rep s c mgr)
  then have "s = (node_store nd)\<lparr>syncChannel := q\<rparr>" by (simp add: Incr_finish_eq)
  moreover have "length q \<le> unat (syncBuffer (opts (node_store nd)))"
    using go_chan.send_within_capacity [OF call_goes_on(2)] by simp
  ultimately show ?thesis
    unfolding call_goes_on(1) by (intro node_ok_shell [OF _ _ ok]) (simp_all add: in_capacity_def)
next
  case (call_handed_over key cnt blocked rep s c mgr)
  then have "s = node_store nd" by (simp add: Incr_finish_eq)
  then show ?thesis
    unfolding call_handed_over(1) using node_okD(2) [OF ok] by (intro node_ok_shell [OF _ _ ok]) simp_all
next
  case (worker_receives cmd q)
  then have "length q \<le> length (syncChannel (node_store nd))"
    by (auto simp: chan_recv_def split: list.splits)
  then show ?thesis
    unfolding worker_receives(1) using node_okD(2) [OF ok]
    by (intro node_ok_shell [OF _ _ ok]) (simp_all add: in_capacity_def)
next
  case (collector ord s c)
  then show ?thesis
    using gc_pass_shell [of ord "node_store nd" "node_clock nd"] node_okD(2) [OF ok]
    by (intro node_ok_shell [OF _ _ ok]) simp_all
next
  case time_passes
  then show ?thesis using node_okD(2) [OF ok] by (intro node_ok_shell [OF _ _ ok]) simp_all
next
  case others_act
  then show ?thesis using node_okD(2) [OF ok] by (intro node_ok_shell [OF _ _ ok]) simp_all
qed

interpretation process: invariant_system "\<lambda>nd. node_ok clean nd \<and> init nd" "node_step E errorf P" "node_ok clean"
  for clean init E errorf P
  by unfold_locales (auto intro: node_step_ok)

lemma started_node_ok:
  fixes R :: "('tc, 'rp) ring_calls"
  assumes "main_start R statsd_New os_hostname hostname realClock extra self (Config cfg) fs = Inr (Some (nd, l))"
    and "0 < sint (or_default 1000 (Buckets cfg))"
  shows "node_ok (no_nil (loaded fs (Some Map.empty))) nd"
proof -
  obtain cfg' and opt :: "('tc, 'rp) Option list" and s mgr where
    cfg': "main_hostname os_hostname cfg = Inr cfg'" and opt: "main_options cfg' = Inr opt"
    and new: "NewStore R statsd_New hostname realClock extra self opt fs None = Inr (s, mgr)"
    and nd: "node_store nd = s"
    using assms(1) by (auto simp: main_start_def split: sum.splits prod.splits)
  have "Buckets cfg' = Buckets cfg"
    using cfg' by (auto simp: main_hostname_def split: if_splits option.splits)
  then have b: "0 < sint (buckets (apply_options opt (defaultOptions hostname realClock)))"
    using assms(2) main_options_defaults(1) [OF opt, of hostname realClock] by simp
  show ?thesis
    using NewStore_result [OF new] b by (simp add: node_ok_def nd in_capacity_def)
qed

text \<open>
  C10: a process that was started with at least one bucket stays well-formed and does not crash, as far
  as its requests are handled one after the other (theory \<open>RateConc\<close> has what can happen between the steps
  of two). Whatever requests, batches of other nodes, collections and synchronisations have happened
  since the main program started it, every HTTP request is answered or waits; only a profiling request
  whose file cannot be created ends the process, and only \<open>PUT /rate\<close> can panic, if the file of rate
  configurations held a \<open>null\<close> at the start. Every request of another node, well-formed or not, is
  answered, refused, or waits; only a list header with a negative size panics, and \<open>SyncRateConfig\<close> after
  a \<open>null\<close>. Without a \<open>null\<close> telling a new node the configurations does not panic either. The node keeps its
  buckets, stays within the channel's capacity, and keeps the statsd client that its event handler uses.
\<close>

theorem process_stays_well_formed:
  fixes R :: "('tc, 'rp) ring_calls"
  assumes "main_start R statsd_New os_hostname hostname realClock extra self (Config cfg) fs = Inr (Some (nd0, l))"
    and "0 < sint (or_default 1000 (Buckets cfg))"
    and "reach (\<lambda>n. n = nd0) (node_step E errorf P) nd"
  shows "case no_nil (loaded fs (Some Map.empty)) of clean \<Rightarrow>
    node_ok clean nd \<and>
    list_all (\<lambda>(meth, path, ep). answer_ok clean (\<lambda>_. may_panic clean ok path) (ep r nd)) (registerHttpHandlers E rv ok) \<and>
    served_ok clean methodName (server_Handle errorf P (store_handler E) methodName nd p) \<and>
    (if clean then case HandleEvent ks ev (node_store nd) of Inl _ \<Rightarrow> False | Inr _ \<Rightarrow> True else True)"
proof -
  let ?clean = "no_nil (loaded fs (Some Map.empty))"
  have "(\<lambda>n. n = nd0) = (\<lambda>n. node_ok ?clean n \<and> n = nd0)"
    using started_node_ok [OF assms(1,2)] by auto
  with assms(3) have "reach (\<lambda>n. node_ok ?clean n \<and> n = nd0) (node_step E errorf P) nd" by simp
  from process.reach_inv [OF this] have ok: "node_ok ?clean nd" .
  have "case HandleEvent ks ev (node_store nd) of Inl _ \<Rightarrow> False | Inr _ \<Rightarrow> True" if ?clean
    using ok that by (simp add: node_ok_def HandleEvent_no_nil)
  then show ?thesis using http_ok [OF ok, of ok r E rv] server_ok [OF ok, where errorf = errorf and P = P and E = E and methodName = methodName and p = p] ok by simp
qed

definition sample_config :: StoreConfig where
  "sample_config = \<lparr>ClusterName = None, HostName = Some ''h'', TChannelPort = None, Seed = None,
     SyncBuffer = None, NodeId = None, Buckets = Some 4, StatsDEnabled = None, HttpPort = Some 80,
     UnixSocket = None, UnixSocketEnable = None, UnsyncedCtrLimit = None, UnsyncedTimeLimit = None,
     StatsDHostPort = None, StatsDSampleRate = None, StatsDBucket = None, GcInterval = None,
     ApiSecret = None, GcGrace = None\<rparr>"

lemma sample_start:
  "\<exists>nd l. main_start sample_ring (\<lambda>_ _. Some ()) None ''h'' (UnReal \<lparr>current = 0\<rparr>) (\<lambda>n. n) ()
     (Config sample_config) sample_files = Inr (Some (nd :: (unit, unit, unit, unit) node, l))"
proof -
  have host: "main_hostname None sample_config = Inr sample_config"
    by (simp add: main_hostname_def sample_config_def byte_def)
  obtain opt :: "(unit, unit) Option list" where opt: "main_options sample_config = Inr opt"
    by (simp add: main_options_def sample_config_def)
  note o = main_options_defaults [OF opt, of "''h''" "UnReal \<lparr>current = 0\<rparr>"]
  obtain s :: "(unit, unit, unit) store" and mgr where
    "NewStore sample_ring (\<lambda>_ _. Some ()) ''h'' (UnReal \<lparr>current = 0\<rparr>) (\<lambda>n. n) () opt sample_files None = Inr (s, mgr)"
    using sample_NewStore [OF refl, of opt "''h''", where statsd_New = "\<lambda>_ _. Some ()" and extra = "\<lambda>n. n"
        and fs = sample_files and mgr = None] o
    by (auto simp: sample_config_def)
  moreover have "main_listener sample_config = Inr (OnTcp 80 ''h'')"
    by (simp add: main_listener_def sample_config_def)
  ultimately show ?thesis by (simp add: main_start_def host opt)
qed

theorem process_stays_well_formed_witness:
  "\<exists>nd l. main_start sample_ring (\<lambda>_ _. Some ()) None ''h'' (UnReal \<lparr>current = 0\<rparr>) (\<lambda>n. n) ()
     (Config sample_config) sample_files = Inr (Some (nd :: (unit, unit, unit, unit) node, l)) \<and>
     (case post_ratelimit sample_env sample_put nd of
        Answer _ nd' \<Rightarrow> node_ok True nd' \<and> served_ok True ''?'' (server_Handle id token_protocol (store_handler sample_env) ''?'' nd' [])
      | _ \<Rightarrow> True)"
proof -
  obtain nd :: "(unit, unit, unit, unit) node" and l where
    start: "main_start sample_ring (\<lambda>_ _. Some ()) None ''h'' (UnReal \<lparr>current = 0\<rparr>) (\<lambda>n. n) ()
      (Config sample_config) sample_files = Inr (Some (nd, l))"
    using sample_start by blast
  have b: "0 < sint (or_default 1000 (Buckets sample_config))" by (simp add: sample_config_def)
  have "case post_ratelimit sample_env sample_put nd of
      Answer _ nd' \<Rightarrow> node_ok True nd' \<and> served_ok True ''?'' (server_Handle id token_protocol (store_handler sample_env) ''?'' nd' [])
    | _ \<Rightarrow> True"
  proof (cases "post_ratelimit sample_env sample_put nd")
    case (Answer x nd')
    have "(''POST'', ''/ratelimit'', post_ratelimit sample_env) \<in>
        set (registerHttpHandlers sample_env undefined True :: (string \<times> string \<times> (unit, unit, unit, unit) endpoint) list)"
      by (simp add: registerHttpHandlers_def)
    from http_answered [where ep = "post_ratelimit sample_env", OF this Answer]
    have step: "node_step sample_env id token_protocol nd nd'" .
    have "reach (\<lambda>n. n = nd) (node_step sample_env id token_protocol) nd" by (rule reach_init) simp
    from reach_step [OF this step]
    have "reach (\<lambda>n. n = nd) (node_step sample_env id token_protocol) nd'" .
    from process_stays_well_formed [OF start b this, where methodName = "''?''" and p = "[]"] show ?thesis
      by (simp add: Answer loaded_def) (simp add: no_nil_def)
  qed simp_all
  with start show ?thesis by blast
qed

end
