(* ===== verification/BucketConc.thy ===== *)
theory BucketConc
  imports KeyBucket
begin

text \<open>
  The goroutines of one bucket. \<open>KeyBucket.Incr\<close> and \<open>KeyBucket.Sync\<close> hold no lock across their
  whole body: they read the clock, look the key up under the read lock, create the entry under the
  write lock if there was none, and count under the entry's lock. Here each of these sections is
  one atomic step, any number of goroutines take steps in any order, the entries live in a heap so
  that a goroutine may hold one that is no longer in the map, and the collector deletes entries
  in between (it holds the bucket's and the entry's lock).

  Shown here: a call that runs alone is the sequential operation of theory \<open>KeyBucket\<close>; without the
  collector all goroutines of a key share one entry and never admit more than the limit; with the
  collector they may.
\<close>

section \<open>The locked sections\<close>

datatype call = CIncr key i32 i32 i32 | CSync key i32 i64

fun call_key :: "call \<Rightarrow> key" where
  "call_key (CIncr k _ _ _) = k"
| "call_key (CSync k _ _) = k"

text \<open>Counting under the entry's lock: the totals before and after, and whether the window was new.\<close>

definition locked_Incr :: "i64 \<Rightarrow> i32 \<Rightarrow> i32 \<Rightarrow> i32 \<Rightarrow> clock \<Rightarrow> KeyEntry \<Rightarrow> i32 \<times> i32 \<times> bool \<times> KeyEntry" where
  "locked_Incr t cnt limit window c e =
     (let (expired, c) = Expired e c;
          (e, c) = (if expired then ReInit 0 (GenExpiry t window) e c else (e, c));
          previousTotal = Count e;
          (newTotal, e, c) =
            (if previousTotal \<le>s limit then KeyEntry_Incr cnt e c else (previousTotal, e, c))
      in (previousTotal, newTotal, expired, e))"

definition locked_Sync :: "i32 \<Rightarrow> i64 \<Rightarrow> clock \<Rightarrow> KeyEntry \<Rightarrow> bool \<times> KeyEntry" where
  "locked_Sync cnt expiry c e =
     (let (expired, c) = Expired e c;
          (e, c) = (if expired then ReInit 0 expiry e c else (e, c));
          (_, e) = KeyEntry_Sync cnt e
      in (expired, e))"

text \<open>The entry a call creates.\<close>

fun entry_expiry :: "call \<Rightarrow> i64 \<Rightarrow> i64" where
  "entry_expiry (CIncr _ _ _ window) t = GenExpiry t window"
| "entry_expiry (CSync _ _ expiry) t = expiry"

section \<open>Goroutines\<close>

text \<open>
  Where a goroutine is in its call: about to look up with the time it read, about to create the
  missing entry, holding an entry, done counting (with the totals), returned.
\<close>

datatype goroutine =
    Ready
  | LookingUp call i64
  | Creating call i64
  | Holding call i64 nat
  | Counted call nat i32 i32
  | Returned call "(bool \<times> i64 \<times> bool) option"

record bucket_state =
  heap :: "nat \<Rightarrow> KeyEntry option"
  index :: "key \<Rightarrow> nat option"
  now :: i64
  gos :: "nat \<Rightarrow> goroutine"
  allowed :: "nat \<Rightarrow> int"

text \<open>
  \<open>allowed\<close> is a ghost: what has been admitted on an entry since its window began. \<open>calls\<close> are the
  calls that occur; \<open>grace\<close> is the collector's, \<^const>\<open>None\<close> if it does not run.
\<close>

abbreviation at_time :: "bucket_state \<Rightarrow> clock" where
  "at_time s \<equiv> UnReal \<lparr>current = now s\<rparr>"

inductive go_step :: "(call \<Rightarrow> bool) \<Rightarrow> i64 option \<Rightarrow> bucket_state \<Rightarrow> bucket_state \<Rightarrow> bool"
  for calls grace where
  start: "gos s g = Ready \<Longrightarrow> calls cl \<Longrightarrow> (\<And>k n x. cl = CSync k n x \<Longrightarrow> \<not> x <s now s) \<Longrightarrow>
    go_step calls grace s (s\<lparr>gos := (gos s)(g := LookingUp cl (now s))\<rparr>)"
| too_late: "gos s g = Ready \<Longrightarrow> calls (CSync k n x) \<Longrightarrow> x <s now s \<Longrightarrow>
    go_step calls grace s (s\<lparr>gos := (gos s)(g := Returned (CSync k n x) None)\<rparr>)"
| found: "gos s g = LookingUp cl t \<Longrightarrow> index s (call_key cl) = Some a \<Longrightarrow>
    go_step calls grace s (s\<lparr>gos := (gos s)(g := Holding cl t a)\<rparr>)"
| not_found: "gos s g = LookingUp cl t \<Longrightarrow> index s (call_key cl) = None \<Longrightarrow>
    go_step calls grace s (s\<lparr>gos := (gos s)(g := Creating cl t)\<rparr>)"
| double_check: "gos s g = Creating cl t \<Longrightarrow> index s (call_key cl) = Some a \<Longrightarrow>
    go_step calls grace s (s\<lparr>gos := (gos s)(g := Holding cl t a)\<rparr>)"
| create: "gos s g = Creating cl t \<Longrightarrow> index s (call_key cl) = None \<Longrightarrow> heap s a = None \<Longrightarrow>
    NewEntry 0 (entry_expiry cl t) (at_time s) = (e, c) \<Longrightarrow>
    go_step calls grace s
      (s\<lparr>heap := (heap s)(a := Some e), index := (index s)(call_key cl := Some a),
         allowed := (allowed s)(a := 0), gos := (gos s)(g := Holding cl t a)\<rparr>)"
| count_incr: "gos s g = Holding (CIncr k n limit w) t a \<Longrightarrow> heap s a = Some e \<Longrightarrow>
    locked_Incr t n limit w (at_time s) e = (prev, new, fresh, e') \<Longrightarrow>
    go_step calls grace s
      (s\<lparr>heap := (heap s)(a := Some e'),
         allowed := (allowed s)(a := (if fresh then 0 else allowed s a) + (if new \<le>s limit then sint n else 0)),
         gos := (gos s)(g := Counted (CIncr k n limit w) a prev new)\<rparr>)"
| count_sync: "gos s g = Holding (CSync k n x) t a \<Longrightarrow> heap s a = Some e \<Longrightarrow>
    locked_Sync n x (at_time s) e = (fresh, e') \<Longrightarrow>
    go_step calls grace s
      (s\<lparr>heap := (heap s)(a := Some e'), allowed := (allowed s)(a := (if fresh then 0 else allowed s a)),
         gos := (gos s)(g := Returned (CSync k n x) None)\<rparr>)"
| return: "gos s g = Counted (CIncr k n limit w) a prev new \<Longrightarrow> heap s a = Some e \<Longrightarrow>
    go_step calls grace s
      (s\<lparr>gos := (gos s)(g := Returned (CIncr k n limit w)
         (Some (if new \<le>s limit then (False, Expiry e, False) else (True, Expiry e, prev <s new))))\<rparr>)"
| again: "gos s g = Returned cl r \<Longrightarrow> go_step calls grace s (s\<lparr>gos := (gos s)(g := Ready)\<rparr>)"
| time_passes: "go_step calls grace s (s\<lparr>now := t\<rparr>)"
| collect: "grace = Some gr \<Longrightarrow> index s k = Some a \<Longrightarrow> heap s a = Some e \<Longrightarrow>
    Expiry e + gr * 1000000 <s now s \<Longrightarrow> fst (Expired e (at_time s)) \<Longrightarrow>
    go_step calls grace s (s\<lparr>index := (index s)(k := None)\<rparr>)"

definition idle_bucket :: "bucket_state \<Rightarrow> bool" where
  "idle_bucket s \<longleftrightarrow> index s = Map.empty \<and> heap s = Map.empty \<and> gos s = (\<lambda>_. Ready) \<and> allowed s = (\<lambda>_. 0)"

text \<open>The bucket of the sequential model.\<close>

definition bucket_of :: "bucket_state \<Rightarrow> KeyBucket" where
  "bucket_of s = \<lparr>lookup = (\<lambda>k. Option.bind (index s k) (heap s))\<rparr>"

section \<open>Schedules\<close>

text \<open>The relation made executable: what one scheduling decision does.\<close>

datatype action = Start nat call | Next nat nat | Tick i64 | Collect key

fun act :: "i64 option \<Rightarrow> action \<Rightarrow> bucket_state \<Rightarrow> bucket_state option" where
  "act gr (Start g cl) s =
     (if gos s g = Ready then
        Some (s\<lparr>gos := (gos s)(g :=
          (case cl of
             CSync k n x \<Rightarrow> if x <s now s then Returned cl None else LookingUp cl (now s)
           | CIncr _ _ _ _ \<Rightarrow> LookingUp cl (now s)))\<rparr>)
      else None)"
| "act gr (Next g a') s =
     (case gos s g of
        Ready \<Rightarrow> None
      | LookingUp cl t \<Rightarrow>
          Some (s\<lparr>gos := (gos s)(g :=
            (case index s (call_key cl) of None \<Rightarrow> Creating cl t | Some a \<Rightarrow> Holding cl t a))\<rparr>)
      | Creating cl t \<Rightarrow>
          (case index s (call_key cl) of
             Some a \<Rightarrow> Some (s\<lparr>gos := (gos s)(g := Holding cl t a)\<rparr>)
           | None \<Rightarrow>
               if heap s a' = None then
                 Some (s\<lparr>heap := (heap s)(a' := Some (fst (NewEntry 0 (entry_expiry cl t) (at_time s)))),
                   index := (index s)(call_key cl := Some a'), allowed := (allowed s)(a' := 0),
                   gos := (gos s)(g := Holding cl t a')\<rparr>)
               else None)
      | Holding cl t a \<Rightarrow>
          (case heap s a of
             None \<Rightarrow> None
           | Some e \<Rightarrow>
               (case cl of
                  CIncr k n limit w \<Rightarrow>
                    (case locked_Incr t n limit w (at_time s) e of (prev, new, fresh, e') \<Rightarrow>
                       Some (s\<lparr>heap := (heap s)(a := Some e'),
                         allowed := (allowed s)(a := (if fresh then 0 else allowed s a) + (if new \<le>s limit then sint n else 0)),
                         gos := (gos s)(g := Counted cl a prev new)\<rparr>))
                | CSync k n x \<Rightarrow>
                    (case locked_Sync n x (at_time s) e of (fresh, e') \<Rightarrow>
                       Some (s\<lparr>heap := (heap s)(a := Some e'),
                         allowed := (allowed s)(a := (if fresh then 0 else allowed s a)),
                         gos := (gos s)(g := Returned cl None)\<rparr>))))
      | Counted cl a prev new \<Rightarrow>
          (case heap s a of
             None \<Rightarrow> None
           | Some e \<Rightarrow>
               (case cl of
                  CIncr k n limit w \<Rightarrow>
                    Some (s\<lparr>gos := (gos s)(g := Returned cl
                      (Some (if new \<le>s limit then (False, Expiry e, False) else (True, Expiry e, prev <s new))))\<rparr>)
                | CSync _ _ _ \<Rightarrow> None))
      | Returned cl r \<Rightarrow> Some (s\<lparr>gos := (gos s)(g := Ready)\<rparr>))"
| "act gr (Tick t) s = Some (s\<lparr>now := t\<rparr>)"
| "act gr (Collect k) s =
     (case gr of
        None \<Rightarrow> None
      | Some grace \<Rightarrow>
          (case index s k of
             None \<Rightarrow> None
           | Some a \<Rightarrow>
               (case heap s a of
                  None \<Rightarrow> None
                | Some e \<Rightarrow>
                    if Expiry e + grace * 1000000 <s now s \<and> fst (Expired e (at_time s))
                    then Some (s\<lparr>index := (index s)(k := None)\<rparr>) else None)))"

fun may :: "(call \<Rightarrow> bool) \<Rightarrow> action \<Rightarrow> bool" where
  "may calls (Start _ cl) = calls cl"
| "may calls _ = True"

lemma act_step: "act gr a s = Some s' \<Longrightarrow> may calls a \<Longrightarrow> go_step calls gr s s'"
proof (induction gr a s rule: act.induct)
  case (1 gr g cl s)
  then show ?case
    by (auto intro: start too_late split: if_splits call.splits)
next
  case (2 gr g a' s)
  show ?case
  proof (cases "gos s g")
    case (Creating cl t)
    obtain e c where "NewEntry 0 (entry_expiry cl t) (at_time s) = (e, c)" by (cases "NewEntry 0 (entry_expiry cl t) (at_time s)")
    with Creating 2 show ?thesis
      by (auto intro: double_check create split: option.splits if_splits)
  next
    case (Holding cl t a)
    with 2 show ?thesis
      by (auto intro: count_incr count_sync split: option.splits call.splits prod.splits)
  next
    case (Counted cl a prev new)
    obtain k n limit w e where cl: "cl = CIncr k n limit w" and e: "heap s a = Some e"
      using Counted 2 by (auto split: option.splits call.splits)
    from return [OF Counted [unfolded cl] e] Counted 2 show ?thesis by (simp add: cl e)
  qed (use 2 in \<open>auto intro: found not_found again split: option.splits\<close>)
next
  case (3 gr t s)
  then show ?case by (auto intro: time_passes)
next
  case (4 gr k s)
  then show ?case by (auto intro: collect split: option.splits if_splits)
qed

fun run :: "i64 option \<Rightarrow> action list \<Rightarrow> bucket_state \<Rightarrow> bucket_state option" where
  "run gr [] s = Some s"
| "run gr (a # as) s = Option.bind (act gr a s) (run gr as)"

lemma run_reach:
  "run gr as s = Some s' \<Longrightarrow> list_all (may calls) as \<Longrightarrow> reach init (go_step calls gr) s \<Longrightarrow>
   reach init (go_step calls gr) s'"
proof (induction as arbitrary: s)
  case (Cons a as)
  then obtain s1 where s1: "act gr a s = Some s1" "run gr as s1 = Some s'" by (auto simp: bind_eq_Some_conv)
  have "go_step calls gr s s1" using act_step [OF s1(1)] Cons.prems(2) by simp
  from Cons.IH [OF s1(2) _ reach_step [OF Cons.prems(3) this]] show ?case using Cons.prems(2) by simp
qed simp

section \<open>A call that runs alone\<close>

lemma bucket_put:
  assumes "\<And>k'. k' \<noteq> k \<Longrightarrow> idx k' \<noteq> Some a"
  shows "(\<lambda>k'. Option.bind ((idx(k := Some a)) k') (hp(a := Some e))) = (\<lambda>k'. Option.bind (idx k') hp)(k \<mapsto> e)"
proof
  fix k'
  show "Option.bind ((idx(k := Some a)) k') (hp(a := Some e)) = ((\<lambda>k'. Option.bind (idx k') hp)(k \<mapsto> e)) k'"
    using assms [of k'] by (cases "idx k'") auto
qed

lemma KeyBucket_Incr_sections:
  "KeyBucket_Incr k n limit w b (UnReal ur) =
     (let c = UnReal ur;
          e = (case lookup b k of Some e \<Rightarrow> e | None \<Rightarrow> fst (NewEntry 0 (GenExpiry (current ur) w) c));
          (prev, new, fresh, e') = locked_Incr (current ur) n limit w c e
      in (if new \<le>s limit then (False, Expiry e', False) else (True, Expiry e', prev <s new),
          b\<lparr>lookup := (lookup b)(k \<mapsto> e')\<rparr>, c))"
  by (cases "lookup b k")
    (simp_all add: KeyBucket_Incr_def GetEntry_def locked_Incr_def entry_eqs Now_eq Let_def)

text \<open>
  the sequential model is the concurrent one without interference. A goroutine whose call
  meets no other between its sections ends with what \<open>KeyBucket.Incr\<close> returns in the model that runs
  it in one piece, and leaves the bucket as that model does.
\<close>

theorem alone_is_sequential:
  assumes "gos s g = Ready" and "heap s a = None" and "\<And>b. index s k = Some b \<Longrightarrow> heap s b \<noteq> None"
    and "\<And>k'. index s k' \<noteq> Some a" and "\<And>b k'. index s k = Some b \<Longrightarrow> index s k' = Some b \<Longrightarrow> k' = k"
  shows "case run None ([Start g (CIncr k n limit w)] @
        replicate (if index s k = None then 4 else 3) (Next g a)) s of
      None \<Rightarrow> False
    | Some s' \<Rightarrow>
        (case KeyBucket_Incr k n limit w (bucket_of s) (at_time s) of (r, b, _) \<Rightarrow>
           gos s' g = Returned (CIncr k n limit w) (Some r) \<and> bucket_of s' = b)"
proof -
  let ?c = "at_time s"
  show ?thesis
  proof (cases "index s k")
    case None
    let ?e = "fst (NewEntry 0 (GenExpiry (now s) w) ?c)"
    obtain prev new fresh e' where l: "locked_Incr (now s) n limit w ?c ?e = (prev, new, fresh, e')"
      by (metis prod_cases4)
    have b: "(\<lambda>k'. Option.bind (((index s)(k := Some a)) k') ((heap s)(a := Some e'))) =
        (\<lambda>k'. Option.bind (index s k') (heap s))(k \<mapsto> e')"
      using assms(4) by (intro bucket_put) simp
    have "lookup (bucket_of s) k = None" by (simp add: bucket_of_def None)
    then have "KeyBucket_Incr k n limit w (bucket_of s) ?c =
        (if new \<le>s limit then (False, Expiry e', False) else (True, Expiry e', prev <s new),
         \<lparr>lookup = (\<lambda>k'. Option.bind (index s k') (heap s))(k \<mapsto> e')\<rparr>, ?c)"
      using l by (simp add: KeyBucket_Incr_sections bucket_of_def)
    moreover have "run None ([Start g (CIncr k n limit w)] @ replicate 4 (Next g a)) s =
        Some (s\<lparr>heap := (heap s)(a := Some e'), index := (index s)(k := Some a),
          allowed := (allowed s)(a := (if fresh then 0 else 0) + (if new \<le>s limit then sint n else 0)),
          gos := (gos s)(g := Returned (CIncr k n limit w)
            (Some (if new \<le>s limit then (False, Expiry e', False) else (True, Expiry e', prev <s new))))\<rparr>)"
      using assms(1,2) None l by (simp add: numeral_eq_Suc)
    ultimately show ?thesis using b by (simp add: None bucket_of_def)
  next
    case (Some b)
    obtain e where e: "heap s b = Some e" using assms(3) Some by auto
    obtain prev new fresh e' where l: "locked_Incr (now s) n limit w ?c e = (prev, new, fresh, e')"
      by (metis prod_cases4)
    have i: "index s = (index s)(k := Some b)" using Some by auto
    have b: "(\<lambda>k'. Option.bind (index s k') ((heap s)(b := Some e'))) =
        (\<lambda>k'. Option.bind (index s k') (heap s))(k \<mapsto> e')"
      by (subst i, rule bucket_put) (use assms(5) Some in blast)
    have "lookup (bucket_of s) k = Some e" by (simp add: bucket_of_def Some e)
    then have "KeyBucket_Incr k n limit w (bucket_of s) ?c =
        (if new \<le>s limit then (False, Expiry e', False) else (True, Expiry e', prev <s new),
         \<lparr>lookup = (\<lambda>k'. Option.bind (index s k') (heap s))(k \<mapsto> e')\<rparr>, ?c)"
      using l by (simp add: KeyBucket_Incr_sections bucket_of_def)
    moreover have "run None ([Start g (CIncr k n limit w)] @ replicate 3 (Next g a)) s =
        Some (s\<lparr>heap := (heap s)(b := Some e'),
          allowed := (allowed s)(b := (if fresh then 0 else allowed s b) + (if new \<le>s limit then sint n else 0)),
          gos := (gos s)(g := Returned (CIncr k n limit w)
            (Some (if new \<le>s limit then (False, Expiry e', False) else (True, Expiry e', prev <s new))))\<rparr>)"
      using assms(1) Some e l by (simp add: numeral_eq_Suc)
    ultimately show ?thesis using b by (simp add: Some bucket_of_def)
  qed
qed

definition empty_bucket :: bucket_state where
  "empty_bucket = \<lparr>heap = Map.empty, index = Map.empty, now = 0, gos = (\<lambda>_. Ready), allowed = (\<lambda>_. 0)\<rparr>"

lemma empty_bucket_idle: "idle_bucket empty_bucket"
  by (simp add: idle_bucket_def empty_bucket_def)

theorem alone_is_sequential_witness:
  "case run None ([Start 7 (CIncr ''k'' 3 2 1)] @ replicate 4 (Next 7 0)) empty_bucket of
      None \<Rightarrow> False
    | Some s' \<Rightarrow> (\<exists>r. gos s' 7 = Returned (CIncr ''k'' 3 2 1) (Some r) \<and>
        r = fst (KeyBucket_Incr ''k'' 3 2 1 NewKeyBucket (UnReal \<lparr>current = 0\<rparr>)))"
proof -
  have "bucket_of empty_bucket = NewKeyBucket"
    by (simp add: bucket_of_def empty_bucket_def NewKeyBucket_def)
  then show ?thesis
    using alone_is_sequential [of empty_bucket 7 0 "''k''" 3 2 1]
    by (auto simp: empty_bucket_def split: option.splits prod.splits)
qed

section \<open>Without the collector\<close>

text \<open>The entry a goroutine works on, if it has one, and the call it is in.\<close>

fun entry_in_use :: "goroutine \<Rightarrow> (key \<times> nat) option" where
  "entry_in_use (Holding cl t a) = Some (call_key cl, a)"
| "entry_in_use (Counted cl a _ _) = Some (call_key cl, a)"
| "entry_in_use _ = None"

fun call_of :: "goroutine \<Rightarrow> call option" where
  "call_of Ready = None"
| "call_of (LookingUp cl _) = Some cl"
| "call_of (Creating cl _) = Some cl"
| "call_of (Holding cl _ _) = Some cl"
| "call_of (Counted cl _ _ _) = Some cl"
| "call_of (Returned cl _) = Some cl"

definition one_entry :: "(call \<Rightarrow> bool) \<Rightarrow> bucket_state \<Rightarrow> bool" where
  "one_entry calls s \<longleftrightarrow>
     (\<forall>k a. index s k = Some a \<longrightarrow> heap s a \<noteq> None) \<and>
     (\<forall>k k' a. index s k = Some a \<longrightarrow> index s k' = Some a \<longrightarrow> k' = k) \<and>
     (\<forall>g k a. entry_in_use (gos s g) = Some (k, a) \<longrightarrow> index s k = Some a) \<and>
     (\<forall>g cl. call_of (gos s g) = Some cl \<longrightarrow> calls cl)"

lemma one_entryD:
  assumes "one_entry calls s"
  shows "index s k = Some a \<Longrightarrow> heap s a \<noteq> None"
    and "index s k = Some a \<Longrightarrow> index s k' = Some a \<Longrightarrow> k' = k"
    and "entry_in_use (gos s g) = Some (k, a) \<Longrightarrow> index s k = Some a"
    and "call_of (gos s g) = Some cl \<Longrightarrow> calls cl"
  using assms unfolding one_entry_def by blast+

lemma one_entry_idle: "idle_bucket s \<Longrightarrow> one_entry calls s"
  by (simp add: idle_bucket_def one_entry_def)

lemma one_entry_move:
  assumes "one_entry calls s" and "\<And>k a. entry_in_use x = Some (k, a) \<Longrightarrow> index s k = Some a"
    and "\<And>cl. call_of x = Some cl \<Longrightarrow> calls cl"
  shows "one_entry calls (s\<lparr>gos := (gos s)(g := x)\<rparr>)"
    and "one_entry calls (s\<lparr>heap := (heap s)(a := Some e), allowed := al, gos := (gos s)(g := x)\<rparr>)"
  using assms by (simp_all add: one_entry_def)

lemma one_entry_step:
  assumes "go_step calls None s s'" and one: "one_entry calls s"
  shows "one_entry calls s'"
  using assms(1)
proof cases
  case (create g cl t a e c)
  have a: "index s k \<noteq> Some a" for k
    using one_entryD(1) [OF assms(2)] create(4) by blast
  have "calls cl" using one_entryD(4) [OF assms(2), of g] create(2) by simp
  moreover have "index s' k = Some b \<Longrightarrow> heap s' b \<noteq> None" for k b
    using one by (auto simp: create(1) one_entry_def split: if_splits)
  moreover have "index s' k = Some b \<Longrightarrow> index s' k' = Some b \<Longrightarrow> k' = k" for k k' b
    using assms(2) a by (auto simp: create(1) one_entry_def split: if_splits)
  moreover have "entry_in_use (gos s' g') = Some (k, b) \<Longrightarrow> index s' k = Some b" for g' k b
    using assms(2) create(3) by (fastforce simp: create(1) one_entry_def split: if_splits)
  moreover have "call_of (gos s' g') = Some cl' \<Longrightarrow> calls cl'" for g' cl'
    using assms(2) \<open>calls cl\<close> by (auto simp: create(1) one_entry_def split: if_splits)
  ultimately show ?thesis unfolding one_entry_def by blast
next
  case (start g cl)
  then show ?thesis by (auto intro: one_entry_move [OF one])
next
  case (too_late g k n x)
  then show ?thesis by (auto intro: one_entry_move [OF one])
next
  case (found g cl t a)
  then show ?thesis using one_entryD(4) [OF one, of g] by (auto intro: one_entry_move [OF one])
next
  case (not_found g cl t)
  then show ?thesis using one_entryD(4) [OF one, of g] by (auto intro: one_entry_move [OF one])
next
  case (double_check g cl t a)
  then show ?thesis using one_entryD(4) [OF one, of g] by (auto intro: one_entry_move [OF one])
next
  case (count_incr g k n limit w t a e prev new fresh e')
  show ?thesis
    unfolding count_incr(1)
    by (rule one_entry_move(2) [OF one]) (use one_entryD(3,4) [OF one, of g] count_incr(2) in auto)
next
  case (count_sync g k n x t a e fresh e')
  show ?thesis
    unfolding count_sync(1)
    by (rule one_entry_move(2) [OF one]) (use one_entryD(3,4) [OF one, of g] count_sync(2) in auto)
next
  case (return g k n limit w a prev new e)
  then show ?thesis using one_entryD(4) [OF one, of g] by (auto intro: one_entry_move [OF one])
next
  case (again g cl r)
  then show ?thesis by (auto intro: one_entry_move [OF one])
next
  case (time_passes t)
  then show ?thesis using one by (simp add: one_entry_def)
qed simp

text \<open>
  The keys a limit is guarded for: every increment of \<open>k\<close> has the limit \<open>L\<close> and a count between 0 and \<open>N\<close>,
  where one count more than the limit still fits 32 bits, and no count that another node reports is
  negative. Those are added whatever the total, so it can overflow: \<open>syncs_fit\<close> are the steps in which
  the report that a goroutine adds does not make it.
\<close>

definition uniform_calls :: "(call \<Rightarrow> bool) \<Rightarrow> key \<Rightarrow> i32 \<Rightarrow> int \<Rightarrow> bool" where
  "uniform_calls calls k L N \<longleftrightarrow> 0 \<le> sint L \<and> 0 \<le> N \<and> sint L + N \<le> 2147483647 \<and>
     (\<forall>cl. calls cl \<longrightarrow> call_key cl = k \<longrightarrow>
       (case cl of CIncr _ n limit _ \<Rightarrow> limit = L \<and> 0 \<le> sint n \<and> sint n \<le> N | CSync _ n _ \<Rightarrow> 0 \<le> sint n))"

definition syncs_fit :: "key \<Rightarrow> bucket_state \<Rightarrow> bucket_state \<Rightarrow> bool" where
  "syncs_fit k s s' \<longleftrightarrow>
     (\<forall>g n x t a e. gos s g = Holding (CSync k n x) t a \<longrightarrow> gos s' g \<noteq> gos s g \<longrightarrow> heap s a = Some e \<longrightarrow>
        sint (ecount e) + sint n \<le> 2147483647)"

definition within_limit :: "key \<Rightarrow> i32 \<Rightarrow> bucket_state \<Rightarrow> bool" where
  "within_limit k L s \<longleftrightarrow>
     (case index s k of
        None \<Rightarrow> True
      | Some a \<Rightarrow>
          (case heap s a of
             None \<Rightarrow> True
           | Some e \<Rightarrow> 0 \<le> allowed s a \<and> allowed s a \<le> sint L \<and> allowed s a \<le> sint (ecount e)))"

lemma locked_Incr_within:
  assumes "locked_Incr t n L w c e = (prev, new, fresh, e')"
    and "0 \<le> sint L" and "sint L + N \<le> 2147483647" and "0 \<le> sint n" and "sint n \<le> N"
    and "0 \<le> al" and "al \<le> sint L" and "al \<le> sint (ecount e)"
  defines "al' \<equiv> (if fresh then 0 else al) + (if new \<le>s L then sint n else 0)"
  shows "0 \<le> al' \<and> al' \<le> sint L \<and> al' \<le> sint (ecount e')"
proof -
  have add: "sint (x + n) = sint x + sint n" if "0 \<le> sint x" "sint x \<le> sint L" for x :: i32
    using that assms(2-5) by (intro sint32_add) auto
  show ?thesis
    using assms(1-8) add [of 0] add [of "ecount e"]
    by (auto simp: al'_def locked_Incr_def entry_eqs Let_def signed_less split: if_splits)
qed

lemma locked_Sync_within:
  assumes "locked_Sync n x c e = (fresh, e')" and "0 \<le> sint n" and "sint (ecount e) + sint n \<le> 2147483647"
    and "0 \<le> al" and "al \<le> sint L" and "al \<le> sint (ecount e)" and "0 \<le> sint L"
  defines "al' \<equiv> (if fresh then 0 else al)"
  shows "0 \<le> al' \<and> al' \<le> sint (L :: i32) \<and> al' \<le> sint (ecount e')"
proof -
  have add: "sint (x + n) = sint x + sint n" if "0 \<le> sint x" "sint x + sint n \<le> 2147483647" for x :: i32
    using that assms(2) by (intro sint32_add) auto
  have "sint n \<le> 2147483647" using sint32_bounds [of n] by simp
  then show ?thesis
    using assms(1-7) add [of 0] add [of "ecount e"]
    by (auto simp: al'_def locked_Sync_def entry_eqs Let_def split: if_splits)
qed

lemma within_limit_frame:
  "within_limit k L (s\<lparr>gos := x\<rparr>) = within_limit k L s"
  "within_limit k L (s\<lparr>now := t\<rparr>) = within_limit k L s"
  by (simp_all add: within_limit_def cong: option.case_cong)

lemma within_limit_step:
  assumes "go_step calls None s s'" and fit: "syncs_fit k s s'" and one: "one_entry calls s" and u: "uniform_calls calls k L N"
    and w: "within_limit k L s"
  shows "within_limit k L s'"
  using assms(1)
proof cases
  case (create g cl t a e c)
  have "ecount e = 0" using create(5) by (auto simp: NewEntry_eq)
  moreover have "index s k \<noteq> Some a" using one_entryD(1) [OF one] create(4) by blast
  ultimately show ?thesis
    using w u by (auto simp: create(1) within_limit_def uniform_calls_def split: option.splits)
next
  case (count_incr g k' n limit wd t a e prev new fresh e')
  show ?thesis
  proof (cases "index s k = Some a")
    case False
    then show ?thesis using w by (auto simp: count_incr(1) within_limit_def split: option.splits)
  next
    case True
    have "index s k' = Some a" using one_entryD(3) [OF one, of g k' a] count_incr(2) by simp
    from one_entryD(2) [OF one True this] have k': "k' = k" .
    have "calls (CIncr k n limit wd)" using one_entryD(4) [OF one, of g] count_incr(2) k' by simp
    then have c: "limit = L" "0 \<le> sint n" "sint n \<le> N"
      using u by (auto simp: uniform_calls_def)
    have w': "0 \<le> allowed s a" "allowed s a \<le> sint L" "allowed s a \<le> sint (ecount e)"
      using w True count_incr(3) by (simp_all add: within_limit_def)
    have L: "0 \<le> sint L" "sint L + N \<le> 2147483647" using u by (simp_all add: uniform_calls_def)
    from locked_Incr_within [OF count_incr(4) [unfolded c(1)] L c(2,3) w'] show ?thesis
      by (simp add: count_incr(1) within_limit_def True c(1))
  qed
next
  case (count_sync g k' n x t a e fresh e')
  show ?thesis
  proof (cases "index s k = Some a")
    case False
    then show ?thesis using w by (auto simp: count_sync(1) within_limit_def split: option.splits)
  next
    case True
    have "index s k' = Some a" "calls (CSync k' n x)"
      using one_entryD(3,4) [OF one, of g] count_sync(2) by simp_all
    then have k': "k' = k" and n: "0 \<le> sint n"
      using one_entryD(2) [OF one True, of k'] u by (auto simp: uniform_calls_def)
    have f: "sint (ecount e) + sint n \<le> 2147483647"
    proof -
      have "gos s' g \<noteq> gos s g" by (simp add: count_sync(1,2))
      then show ?thesis using fit count_sync(2,3) unfolding k' syncs_fit_def by blast
    qed
    have w': "0 \<le> allowed s a" "allowed s a \<le> sint L" "allowed s a \<le> sint (ecount e)"
      using w True count_sync(3) by (simp_all add: within_limit_def)
    have L: "0 \<le> sint L" using u by (simp add: uniform_calls_def)
    from locked_Sync_within [OF count_sync(4) n f w' L] show ?thesis
      by (simp add: count_sync(1) within_limit_def True)
  qed
qed (use w in \<open>simp_all add: within_limit_frame\<close>)

interpretation locks: invariant_system idle_bucket "go_step calls None" "one_entry calls"
  for calls
  by unfold_locales (rule one_entry_idle, assumption, rule one_entry_step)

definition guarded_key :: "(call \<Rightarrow> bool) \<Rightarrow> key \<Rightarrow> i32 \<Rightarrow> int \<Rightarrow> bucket_state \<Rightarrow> bool" where
  "guarded_key calls k L N s \<longleftrightarrow> one_entry calls s \<and> (uniform_calls calls k L N \<longrightarrow> within_limit k L s)"

interpretation guard: invariant_system idle_bucket "\<lambda>s s'. go_step calls None s s' \<and> syncs_fit k s s'" "guarded_key calls k L N"
  for calls k L N
proof
  fix s assume "idle_bucket s"
  then show "guarded_key calls k L N s"
    by (simp add: guarded_key_def one_entry_idle) (simp add: idle_bucket_def within_limit_def)
next
  fix s t assume "go_step calls None s t \<and> syncs_fit k s t" and "guarded_key calls k L N s"
  then show "guarded_key calls k L N t"
    unfolding guarded_key_def by (blast intro: one_entry_step within_limit_step)
qed

text \<open>
  C9: the locks are enough as long as nothing is collected and no total overflows. However many goroutines
  call \<open>Incr\<close> and \<open>Sync\<close> on a bucket, in whatever interleaving of their locked sections, all that work on
  a key hold the one entry the map has for it; and what has been admitted on the key since its window
  began is never more than the limit and never more than the total, if the increments of the key agree
  on the limit, have counts between 0 and some \<open>N\<close> with limit plus \<open>N\<close> below \<open>2^31\<close>, and if the counts that
  other nodes report for it are not negative and no report makes the total overflow.
\<close>

theorem goroutines_never_exceed_limit:
  assumes "reach idle_bucket (\<lambda>s s'. go_step calls None s s' \<and> syncs_fit k s s') s" and "uniform_calls calls k L N"
  shows "(case entry_in_use (gos s g) of None \<Rightarrow> True | Some (k', a) \<Rightarrow> index s k' = Some a) \<and>
    (case index s k of
       None \<Rightarrow> True
     | Some a \<Rightarrow>
         (case heap s a of
            None \<Rightarrow> False
          | Some e \<Rightarrow> allowed s a \<le> sint L \<and> allowed s a \<le> sint (Count e)))"
proof -
  have "guarded_key calls k L N s" by (rule guard.reach_inv [OF assms(1)])
  then have "one_entry calls s" "within_limit k L s" using assms(2) by (simp_all add: guarded_key_def)
  then show ?thesis
    using one_entryD(1) [of calls s k] one_entryD(3) [of calls s g]
    by (auto simp: within_limit_def Count_def split: option.splits)
qed

text \<open>A run whose reports fit.\<close>

fun run_fits :: "key \<Rightarrow> action list \<Rightarrow> bucket_state \<Rightarrow> bool" where
  "run_fits k [] s = True"
| "run_fits k (a # as) s = (case act None a s of None \<Rightarrow> True | Some s1 \<Rightarrow> syncs_fit k s s1 \<and> run_fits k as s1)"

lemma run_fits_reach:
  "run None as s = Some s' \<Longrightarrow> list_all (may calls) as \<Longrightarrow> run_fits k as s \<Longrightarrow>
   reach init (\<lambda>s s'. go_step calls None s s' \<and> syncs_fit k s s') s \<Longrightarrow>
   reach init (\<lambda>s s'. go_step calls None s s' \<and> syncs_fit k s s') s'"
proof (induction as arbitrary: s)
  case (Cons a as)
  then obtain s1 where s1: "act None a s = Some s1" "run None as s1 = Some s'" by (auto simp: bind_eq_Some_conv)
  have "go_step calls None s s1 \<and> syncs_fit k s s1" using act_step [OF s1(1)] Cons.prems(2,3) s1(1) by simp
  from Cons.IH [OF s1(2) _ _ reach_step [OF Cons.prems(4) this]] show ?case using Cons.prems(2,3) s1(1) by simp
qed simp

text \<open>A call and a report of another node on one key.\<close>

definition call_and_report :: "action list" where
  "call_and_report = [Start 0 (CIncr ''k'' 1 2 1), Start 1 (CSync ''k'' 5 1000000000), Next 0 0, Next 1 0, Next 0 0, Next 1 1,
     Next 0 0, Next 1 1]"

theorem goroutines_never_exceed_limit_witness:
  "case run None call_and_report empty_bucket of
     None \<Rightarrow> False
   | Some s \<Rightarrow> index s ''k'' = Some 0 \<and> allowed s 0 \<le> 2"
proof -
  let ?calls = "\<lambda>cl. cl = CIncr ''k'' 1 2 1 \<or> cl = CSync ''k'' 5 1000000000"
  have g: "GenExpiry 0 1 = 1000000000" by code_simp
  note steps = call_and_report_def empty_bucket_def NewEntry_eq locked_Incr_def locked_Sync_def entry_eqs Let_def g signed_less
  obtain s where s: "run None call_and_report empty_bucket = Some s" and i: "index s ''k'' = Some 0"
    by (simp add: steps)
  have f: "run_fits ''k'' call_and_report empty_bucket"
    by (simp add: steps syncs_fit_def)
  have "reach idle_bucket (\<lambda>s s'. go_step ?calls None s s' \<and> syncs_fit ''k'' s s') s"
    by (rule run_fits_reach [OF s _ f reach_init [where init = idle_bucket, OF empty_bucket_idle]])
      (simp add: call_and_report_def)
  moreover have "uniform_calls ?calls ''k'' 2 1" by (auto simp: uniform_calls_def)
  ultimately have "allowed s 0 \<le> sint (2 :: i32)"
    using goroutines_never_exceed_limit [of ?calls "''k''" s 2 1 0] i by (auto split: option.splits)
  with s i show ?thesis by simp
qed

definition two_calls :: "action list" where
  "two_calls = [Start 0 (CIncr ''k'' 1 1 1), Start 1 (CIncr ''k'' 1 1 1), Next 0 0, Next 1 0, Next 0 0, Next 1 1,
     Next 0 0, Next 1 1]"

section \<open>With the collector\<close>



text \<open>
  \<open>Incr\<close> reads the expiry it returns after it has released the entry. If another call begins a new
  window in between, the count is reported, and so replicated, for a window it was not counted in:
  here the first call counts in the second that ends at 1, and reports the second that ends at 3.
\<close>

definition late_read :: "action list" where
  "late_read =
     [Start 0 (CIncr ''k'' 1 5 1), Next 0 0, Next 0 0, Next 0 0,
      Tick 2000000000,
      Start 1 (CIncr ''k'' 1 5 1), Next 1 0, Next 1 0,
      Next 0 0]"

theorem expiry_read_too_late:
  "\<exists>s. reach idle_bucket (go_step (\<lambda>_. True) None) s \<and>
     gos s 0 = Returned (CIncr ''k'' 1 5 1) (Some (False, 3000000000, False)) \<and>
     GenExpiry 0 1 = 1000000000"
proof -
  have g: "GenExpiry 0 1 = 1000000000" "GenExpiry 2000000000 1 = 3000000000" by code_simp+
  obtain s where s: "run None late_read empty_bucket = Some s"
    and r: "gos s 0 = Returned (CIncr ''k'' 1 5 1) (Some (False, 3000000000, False))"
    by (simp add: late_read_def empty_bucket_def NewEntry_eq locked_Incr_def entry_eqs Let_def g signed_less)
  have "reach idle_bucket (go_step (\<lambda>_. True) None) s"
    by (rule run_reach [OF s _ reach_init [where init = idle_bucket, OF empty_bucket_idle]]) (simp add: late_read_def)
  with r g show ?thesis by blast
qed

end
