(* ===== verification/BucketLin.thy ===== *)
theory BucketLin
  imports Limiter BucketConc
begin

text \<open>
  The goroutines of \<open>BucketConc\<close> linearise: every step of any of them is one step of the fixed-window
  counter of theory \<open>Limiter\<close>, or none that it can see. A call takes effect at its locked section,
  with the time it read when it began; making an entry opens the window with nothing counted.
\<close>

section \<open>The counter as a step relation\<close>

text \<open>The windows a state of the bucket stands for.\<close>

definition windows_of :: "bucket_state \<Rightarrow> windows" where
  "windows_of s = abs_bucket (bucket_of s)"

inductive window_step :: "(call \<Rightarrow> bool) \<Rightarrow> windows \<Rightarrow> windows \<Rightarrow> bool"
  for calls where
  opened: "calls cl \<Longrightarrow> m (call_key cl) = None \<Longrightarrow>
    window_step calls m (m(call_key cl \<mapsto> (entry_expiry cl t, 0)))"
| counted: "calls (CIncr k n limit w) \<Longrightarrow> spec_Incr t nw k n limit w m = (r, m') \<Longrightarrow> window_step calls m m'"
| merged: "calls (CSync k n x) \<Longrightarrow> window_step calls m (spec_Sync x nw k n x m)"

section \<open>Locked sections are steps of the counter\<close>

lemma windows_of_eq:
  "windows_of s k = map_option (\<lambda>e. (expires e, ecount e)) (Option.bind (index s k) (heap s))"
  by (simp add: windows_of_def abs_bucket_def bucket_of_def)

lemma windows_of_frame [simp]:
  "windows_of (s\<lparr>gos := x\<rparr>) = windows_of s" "windows_of (s\<lparr>now := t\<rparr>) = windows_of s"
  by (simp_all add: windows_of_eq fun_eq_iff)

lemma windows_of_entry:
  assumes one: "one_entry calls s" and i: "index s k = Some a"
  shows "windows_of (s\<lparr>heap := (heap s)(a := Some e), allowed := al, gos := x\<rparr>) =
    (windows_of s)(k \<mapsto> (expires e, ecount e))"
proof
  fix k'
  show "windows_of (s\<lparr>heap := (heap s)(a := Some e), allowed := al, gos := x\<rparr>) k' =
      ((windows_of s)(k \<mapsto> (expires e, ecount e))) k'"
    using i one_entryD(2) [OF one i, of k'] by (cases "index s k'") (auto simp: windows_of_eq)
qed

lemma locked_Incr_counts:
  assumes "locked_Incr t n limit w (UnReal \<lparr>current = nw\<rparr>) e = (prev, new, fresh, e')"
    and "m k = Some (expires e, ecount e)"
  shows "spec_Incr t nw k n limit w m =
    ((limit <s new, expires e', limit <s new \<and> prev <s new), m(k \<mapsto> (expires e', ecount e')))"
  using assms by (auto simp: locked_Incr_def entry_eqs Now_eq Let_def spec_Incr_def open_window_def split: if_splits)

lemma locked_Sync_merges:
  assumes "locked_Sync n x (UnReal \<lparr>current = nw\<rparr>) e = (fresh, e')" and "m k = Some (expires e, ecount e)"
  shows "spec_Sync x nw k n x m = m(k \<mapsto> (expires e', ecount e'))"
  using assms
  by (auto simp: locked_Sync_def entry_eqs Now_eq Let_def spec_Sync_def open_window_def signed_less split: if_splits)

text \<open>
  What a goroutine does to the windows when it moves: it is the counter's \<open>Incr\<close> or \<open>Sync\<close> when it leaves the
  locked section of its call, it opens a window when it makes an entry, and it changes nothing otherwise.
\<close>

definition effect :: "bucket_state \<Rightarrow> goroutine \<Rightarrow> goroutine \<Rightarrow> windows" where
  "effect s before after =
     (case (before, after) of
        (Holding (CIncr k n limit w) t _, Counted _ _ _ _) \<Rightarrow> snd (spec_Incr t (now s) k n limit w (windows_of s))
      | (Holding (CSync k n x) t _, Returned _ _) \<Rightarrow> spec_Sync x (now s) k n x (windows_of s)
      | (Creating cl t, Holding _ _ _) \<Rightarrow>
          (if index s (call_key cl) = None then (windows_of s)(call_key cl \<mapsto> (entry_expiry cl t, 0)) else windows_of s)
      | _ \<Rightarrow> windows_of s)"

text \<open>Every step, and the counting step of a goroutine in particular.\<close>

definition linear :: "(call \<Rightarrow> bool) \<Rightarrow> nat \<Rightarrow> bucket_state \<Rightarrow> bucket_state \<Rightarrow> bool" where
  "linear calls g s s' \<longleftrightarrow>
     (window_step calls)\<^sup>=\<^sup>= (windows_of s) (windows_of s') \<and>
     (if gos s' = gos s then windows_of s' = windows_of s else True) \<and>
     (if gos s' g = gos s g then True else windows_of s' = effect s (gos s g) (gos s' g)) \<and>
     (case (gos s g, gos s' g) of
        (Holding (CIncr k n limit w) t _, Counted _ _ prev new) \<Rightarrow>
          (case spec_Incr t (now s) k n limit w (windows_of s) of
             ((blocked, _, dosync), m) \<Rightarrow> blocked = (limit <s new) \<and> dosync = (limit <s new \<and> prev <s new))
      | _ \<Rightarrow> True)"

lemma linear_quiet:
  assumes "windows_of s' = windows_of s" and "\<And>cl a p q. gos s' g = Counted cl a p q \<Longrightarrow> gos s g = gos s' g"
    and "gos s' g \<noteq> gos s g \<Longrightarrow> effect s (gos s g) (gos s' g) = windows_of s"
  shows "linear calls g s s'"
  using assms by (cases "gos s g"; cases "gos s' g") (auto simp: linear_def split: call.splits)

lemma step_linear:
  assumes "go_step calls None s s'" and one: "one_entry calls s"
  shows "linear calls g s s'"
  using assms(1)
proof cases
  case (create h cl t a e c)
  have "e = \<lparr>expires = entry_expiry cl t, lastmodified = lastmodified e, ecount = 0\<rparr>"
    using create(5) by (auto simp: NewEntry_eq)
  then have e: "expires e = entry_expiry cl t" "ecount e = 0" by (metis KeyEntry.select_convs)+
  have w: "windows_of s' = (windows_of s)(call_key cl \<mapsto> (entry_expiry cl t, 0))"
  proof
    fix k
    have "index s k \<noteq> Some a" using one_entryD(1) [OF one] create(4) by blast
    then show "windows_of s' k = ((windows_of s)(call_key cl \<mapsto> (entry_expiry cl t, 0))) k"
      by (cases "index s k") (auto simp: create(1) windows_of_eq e)
  qed
  have "calls cl" using one_entryD(4) [OF one, of h] create(2) by simp
  moreover have "windows_of s (call_key cl) = None" using create(3) by (simp add: windows_of_eq)
  moreover note w
  ultimately have "window_step calls (windows_of s) (windows_of s')" by (simp add: window_step.opened)
  moreover have "gos s' \<noteq> gos s" using create(2) by (auto simp: create(1) fun_eq_iff)
  ultimately show ?thesis
    using w create(2,3) by (cases "g = h") (simp_all add: linear_def create(1) effect_def split: call.split goroutine.split)
next
  case (count_incr h k n limit w t a e prev new fresh e')
  have i: "index s k = Some a" and "calls (CIncr k n limit w)"
    using one_entryD(3,4) [OF one, of h] count_incr(2) by simp_all
  moreover have "windows_of s k = Some (expires e, ecount e)" using i count_incr(3) by (simp add: windows_of_eq)
  from locked_Incr_counts [OF count_incr(4), where m = "windows_of s" and k = k, OF this]
  have sp: "spec_Incr t (now s) k n limit w (windows_of s) =
      ((limit <s new, expires e', limit <s new \<and> prev <s new), windows_of s')"
    using windows_of_entry [OF one i] by (simp add: count_incr(1))
  ultimately have "window_step calls (windows_of s) (windows_of s')" by (blast intro: window_step.counted)
  moreover have "gos s' \<noteq> gos s" using count_incr(2) by (auto simp: count_incr(1) fun_eq_iff)
  moreover have g: "gos s' g = (if g = h then Counted (CIncr k n limit w) a prev new else gos s g)" by (simp add: count_incr(1))
  ultimately show ?thesis
    using sp count_incr(2) unfolding linear_def g by (cases "g = h") (simp_all add: effect_def split: call.split goroutine.split)
next
  case (count_sync h k n x t a e fresh e')
  have i: "index s k = Some a" and "calls (CSync k n x)"
    using one_entryD(3,4) [OF one, of h] count_sync(2) by simp_all
  moreover have "windows_of s k = Some (expires e, ecount e)" using i count_sync(3) by (simp add: windows_of_eq)
  from locked_Sync_merges [OF count_sync(4), where m = "windows_of s" and k = k, OF this]
  have w: "windows_of s' = spec_Sync x (now s) k n x (windows_of s)"
    using windows_of_entry [OF one i] by (simp add: count_sync(1))
  ultimately have "window_step calls (windows_of s) (windows_of s')" by (auto intro: window_step.merged)
  moreover have "gos s' \<noteq> gos s" using count_sync(2) by (auto simp: count_sync(1) fun_eq_iff)
  moreover have g: "gos s' g = (if g = h then Returned (CSync k n x) None else gos s g)" by (simp add: count_sync(1))
  ultimately show ?thesis
    using w count_sync(2) unfolding linear_def g by (cases "g = h") (simp_all add: effect_def split: call.split goroutine.split)
qed (rule linear_quiet; auto simp: effect_def split: if_splits call.split)+

interpretation linearised: invariant_system idle_bucket "go_step calls None"
    "\<lambda>s. one_entry calls s \<and> (window_step calls)\<^sup>*\<^sup>* Map.empty (windows_of s)" for calls
proof
  fix s assume s: "idle_bucket s"
  then have "windows_of s = Map.empty" by (simp add: idle_bucket_def windows_of_eq fun_eq_iff)
  then show "one_entry calls s \<and> (window_step calls)\<^sup>*\<^sup>* Map.empty (windows_of s)" by (simp add: one_entry_idle s)
next
  fix s t
  assume step: "go_step calls None s t" and I: "one_entry calls s \<and> (window_step calls)\<^sup>*\<^sup>* Map.empty (windows_of s)"
  have "(window_step calls)\<^sup>=\<^sup>= (windows_of s) (windows_of t)"
    using step_linear [OF step conjunct1 [OF I]] by (simp add: linear_def)
  with I show "one_entry calls t \<and> (window_step calls)\<^sup>*\<^sup>* Map.empty (windows_of t)"
    using one_entry_step [OF step] by (auto intro: rtranclp.rtrancl_into_rtrancl)
qed

section \<open>Property\<close>

text \<open>
  C18: the concurrent bucket linearises, as long as nothing is collected. Every step of any goroutine, in
  any reachable state, is a step of the fixed-window counter with one of the calls, or none it can see.
  Which one it is depends on the goroutine alone: the windows change by the counter's \<open>Incr\<close>, with the
  time the call read when it began, when a goroutine leaves the locked section of \<open>Incr\<close>; by its \<open>Sync\<close>
  when one leaves that of \<open>Sync\<close>; an empty window is opened when one makes a missing entry; and nothing
  changes with any other move, or if none moves. A goroutine that counts decides to block and to
  synchronise as the counter does. So the windows are always some that the counter can reach.
\<close>

theorem bucket_linearises:
  assumes "reach idle_bucket (go_step calls None) s" and "go_step calls None s s'"
  shows "(window_step calls)\<^sup>*\<^sup>* Map.empty (windows_of s) \<and>
    (window_step calls)\<^sup>=\<^sup>= (windows_of s) (windows_of s') \<and>
    (if gos s' = gos s then windows_of s' = windows_of s else True) \<and>
    (if gos s' g = gos s g then True else windows_of s' = effect s (gos s g) (gos s' g)) \<and>
    (case (gos s g, gos s' g) of
       (Holding (CIncr k n limit w) t _, Counted _ _ prev new) \<Rightarrow>
         (case spec_Incr t (now s) k n limit w (windows_of s) of
            ((blocked, _, dosync), m) \<Rightarrow>
              windows_of s' = m \<and> blocked = (limit <s new) \<and> dosync = (limit <s new \<and> prev <s new))
     | _ \<Rightarrow> True)"
proof -
  have l: "linear calls g s s'" using linearised.reach_inv [OF assms(1)] step_linear [OF assms(2)] by blast
  have "case (gos s g, gos s' g) of
       (Holding (CIncr k n limit w) t _, Counted _ _ prev new) \<Rightarrow>
         (case spec_Incr t (now s) k n limit w (windows_of s) of
            ((blocked, _, dosync), m) \<Rightarrow>
              windows_of s' = m \<and> blocked = (limit <s new) \<and> dosync = (limit <s new \<and> prev <s new))
     | _ \<Rightarrow> True"
    using l by (cases "gos s g"; cases "gos s' g") (auto simp: linear_def effect_def split: call.splits prod.splits)
  then show ?thesis using l linearised.reach_inv [OF assms(1)] unfolding linear_def by blast
qed

theorem bucket_linearises_witness:
  "case run None (take 6 two_calls) empty_bucket of
     None \<Rightarrow> False
   | Some s \<Rightarrow>
       (case act None (Next 0 0) s of
          None \<Rightarrow> False
        | Some s' \<Rightarrow>
            gos s' 0 = Counted (CIncr ''k'' 1 1 1) 0 0 1 \<and>
            windows_of s' = snd (spec_Incr 0 0 ''k'' 1 1 1 (windows_of s)))"
proof -
  let ?calls = "\<lambda>cl. cl = CIncr ''k'' 1 1 1"
  have g: "GenExpiry 0 1 = 1000000000" by code_simp
  note steps = two_calls_def empty_bucket_def NewEntry_eq locked_Incr_def entry_eqs Let_def g signed_less
  obtain s where s: "run None (take 6 two_calls) empty_bucket = Some s"
    and h: "gos s 0 = Holding (CIncr ''k'' 1 1 1) 0 0" "now s = 0" "index s ''k'' = Some 0"
      "heap s 0 = Some \<lparr>expires = 1000000000, lastmodified = 0, ecount = 0\<rparr>"
    by (simp add: steps)
  obtain s' where s': "act None (Next 0 0) s = Some s'" and c: "gos s' 0 = Counted (CIncr ''k'' 1 1 1) 0 0 1"
    using h by (simp add: steps)
  have "reach idle_bucket (go_step ?calls None) s"
    by (rule run_reach [OF s _ reach_init [where init = idle_bucket, OF empty_bucket_idle]])
      (simp add: two_calls_def)
  moreover have "go_step ?calls None s s'" by (rule act_step [OF s']) simp
  ultimately have "windows_of s' = snd (spec_Incr 0 0 ''k'' 1 1 1 (windows_of s))"
    using bucket_linearises [of ?calls s s' 0] h(1,2) c by (simp split: prod.splits)
  with c show ?thesis by (simp only: s s' option.case simp_thms)
qed

end
