(* ===== verification/Spec2Isabelle.thy ===== *)
theory Spec2Isabelle
  imports Prelude Clock KeyEntry KeyBucket Limiter PeakRate EventMgr Strconv Options SyncWorker
    SyncPool SyncTimer Store Utf8 Json Url RateJson Files Stats Cluster RateConc Convergence Drain Admission Thrift Codec Processor Node Rpc HttpServer Startup StartOrder Flags Accessors Process BucketConc BucketLin
begin

text \<open>
  golimit is a rate limiter that runs as a cluster of nodes. Every node counts the calls on a key in
  windows of time; a call is blocked once the key's total in its window is above the limit. Nodes
  tell each other their counts in batches, so that each has (about) the sum of all. This development
  models the program of src/ at one commit and proves what makes it correct, and where it is not.

  \<^bold>\<open>The parts and their theories\<close>, in the order in which they use each other.

  \<^item> \<open>Prelude\<close>: machine integers of Go (\<open>i32\<close>, \<open>i64\<close> are words; \<open>+\<close> wraps, \<open>sint\<close> reads, \<open><s\<close> compares),
    panics, locale \<open>invariant_system\<close> for step relations with an invariant.
  \<^item> \<open>Clock\<close> (store/clock/clock.go): the settable \<open>UnRealClock\<close>, and the real clock as a stream of readings.
  \<^item> \<open>KeyEntry\<close>, \<open>KeyBucket\<close> (store/bucket): the record of an entry and its methods; a bucket is a
    finite map from keys to entries with \<open>Incr\<close>, \<open>Sync\<close>, \<open>GenExpiry\<close>. Here an operation runs alone.
  \<^item> \<open>Limiter\<close>: the specification \<open>spec_Incr\<close>, \<open>spec_Sync\<close>, a counter per key and window with no entries, clocks
    or locks, and the refinement from the bucket to it; bounds on what a window admits; overflow.
  \<^item> \<open>BucketConc\<close>: the same operations cut at their locked sections (\<open>locked_Incr\<close>, \<open>locked_Sync\<close>), run by
    any number of goroutines on entries shared by address, with the collector: the step relation
    \<open>go_step\<close>. An invariant bounds what is admitted on an entry, if no total overflows. A schedule shows that a count
    made on an entry that the collector just deleted is lost. \<open>BucketLin\<close>: without the collector every
    step of a goroutine is a step of the counter of \<open>Limiter\<close> (\<open>window_step\<close>) or none it can see; \<open>effect\<close>
    says which.
  \<^item> \<open>PeakRate\<close>: the float64 arithmetic of \<open>Store.Incr\<close> for peak averaging (store/store.go), with
    division rounded to 53 bits, half to even, proved equal to the exact ceiling.
  \<^item> \<open>EventMgr\<close> (store/event): handlers per route in Go slices over shared backing arrays, the bounded
    event channel, the workers; refinement of the registry to lists.
  \<^item> \<open>Strconv\<close>, \<open>Utf8\<close>: \<open>strconv.Atoi\<close>, \<open>Itoa\<close> and the decoding of strings to runes, of the standard library.
  \<^item> \<open>Json\<close>, \<open>Url\<close>, \<open>RateJson\<close>: of encoding/json the syntax of values and their writing (a parser and \<open>render\<close>, with
    their round trip), of net/url the reading of a query; the JSON of the rate configurations, of
    their file and of the body of \<open>PUT /rate\<close>, with the nil pointers and the nil map that \<open>null\<close> makes.
    \<open>Files\<close>: reading and writing files, whose paths and failures are parameters.
  \<^item> \<open>Options\<close> (store/store.go 27-218, golimitV3.go 17-165): options, defaults, configuration to options.
  \<^item> \<open>SyncWorker\<close>, \<open>SyncPool\<close> (store/store.go 307-374): the synchroniser that aggregates commands and sends
    them in batches; once on commands as values, once on the pooled objects it really uses, with
    the refinement of the second to the first and the race that breaks it. \<open>SyncTimer\<close>: the worker with
    its timer and times of arrival: what the time limit limits, and what it does not.
  \<^item> \<open>Store\<close> (store/store.go): the record of the store, \<open>Incr\<close>, \<open>RateLimitGlobal\<close>, rate configurations and
    their file as text, the collector; refinement to the counter of \<open>Limiter\<close>; the collector is invisible.
    \<open>restart\<close> loads what was saved: a store is \<open>persistent\<close> if it gets its configurations back.
  \<^item> \<open>Stats\<close>: the statistics event handler.
  \<^item> \<open>Thrift\<close>, \<open>Codec\<close> (gen-go/com/store.go): the protocol interface as a record of operations, the generated
    scheme of \<open>Read\<close> and \<open>Write\<close>, and the structs of the four methods. Locale \<open>message\<close> holds the lemmas
    on one struct and is interpreted for each of the nine.
  \<^item> \<open>Processor\<close> (gen-go/com/store.go): the generated client and processor with Thrift's message framing.
    Locale \<open>remote_method\<close> extends \<open>message\<close> by the struct of the result and follows one call; it is
    interpreted for the four methods, and sessions of calls are proved equal to calling the handler.
  \<^item> \<open>Cluster\<close> (store/cluster.go): sending and receiving batches and configurations, joining the ring.
    \<open>RateConc\<close>: concurrent updates of the rate configurations at their locked sections (\<open>config_step\<close>), and
    the reads that take no lock.
  \<^item> \<open>Convergence\<close>: several nodes with their synchronisers and the batches in flight, as the relation
    \<open>cluster_step\<close>; an invariant that accounts for every count, convergence, and that a converged cluster
    blocks everywhere once the counts of all nodes are above the limit. \<open>Drain\<close>: a measure of the work
    left shows that from every reachable state the nodes and the network can reach such a state.
    \<open>Admission\<close>: the same account in integers, for calls that share a limit; \<open>n\<close> nodes admit at most \<open>n\<close> times
    the limit, and exceed it by no more than what has not reached the admitting node.
  \<^item> \<open>Node\<close>, \<open>Rpc\<close> (gen-go/com/tchan-com.go), \<open>HttpServer\<close> (store/http/server.go): a node is a store with its clock,
    event manager and files; the server and client stubs of the remote methods; every HTTP route.
  \<^item> \<open>Accessors\<close>: the getters and \<open>String\<close> methods of the structs.
  \<^item> \<open>Startup\<close> (\<open>NewStore\<close>, \<open>Close\<close>, \<open>main\<close>): from the configuration file to the running process and its end.
    \<open>StartOrder\<close>: the registration of the node in the middle of \<open>NewStore\<close>, and what a configuration
    that arrives right after it does. \<open>Flags\<close>: the command line, and \<open>main\<close> from its arguments.
  \<^item> \<open>Process\<close>: all that happens to a running node, one request after the other, as the relation \<open>node_step\<close>,
    and that it stays well-formed.

  \<^bold>\<open>How state corresponds.\<close> A Go struct is a record with its fields; a map is a partial function; a call
  takes the state it can change and returns it changed, with \<open>Inl p\<close> for a panic. A clock is part of
  the state, for each reading can be later than the one before: a bucket operation reads it several times.
  A send on a full channel is the answer \<open>WaitingToSync\<close>, for the call has counted and not replied; on
  an unbuffered one every send waits until the receiver takes the value (\<open>hand_over\<close>). Where
  the order in which Go ranges over a map matters it is a parameter (a reordering \<open>ro\<close>, a list of keys).

  \<^bold>\<open>What is a parameter\<close>: code that is not in src/. The hash, the conversion of an out-of-range
  float64 to int32 (left open by Go) and what the object pool returns are fields of \<open>env\<close>; the ring and the TChannel are \<open>ring_calls\<close>;
  the statsd client, the host name and the configuration file are arguments. Which file a path names, and
  what a failed write leaves of it, are fields of \<open>files\<close>. The theorems
  on the wire assume of a thrift protocol that it is \<open>faithful\<close> (what was written is read back, values of other
  types can be skipped), that of termination that it is \<open>consuming\<close> (a field or an element that was read takes input away);
  \<open>token_protocol\<close> satisfies both. A loopback of the transport \<open>carries\<close> requests. With messages a
  connection is \<open>duplex\<close>: each direction is faithful and leaves the other alone; two token lists are one.

  \<^bold>\<open>Loops and bounds.\<close> Loops over lists are structural. The loop that reads the fields of a struct may
  not end, for a peer decides how long it is: it is a \<open>partial_function\<close> over option, and under \<open>consuming\<close> it returns.
  There is no fuel. Lengths of lists and strings on the wire are bounded by the 32 bits of their prefix (\<open>fits\<close>).
  Worker loops (synchroniser, event workers, collector) are modelled turn by turn. The timer of the
  synchroniser is run until it is set past a given time, which ends if the limit is positive.

  \<^bold>\<open>Not modelled\<close>: log output and signals; the thrift server and client of the library; what happens
  after a data race (\<open>RateConc\<close> shows that the map of rate configurations can be read during an assignment;
  everywhere else a read sees the map before or after); a file that can be written but not read; the
  delay before configurations are sent to new nodes. In \<open>Convergence\<close>, \<open>Drain\<close> and \<open>Admission\<close> batches are
  values, whatever the object pool does (\<open>SyncPool\<close> has that), and the members of the ring are fixed; in
  \<open>SyncTimer\<close> a turn takes no time.
\<close>

end
